(* ===== verification/Prelude.thy ===== *)
theory Prelude
  imports Main "HOL-Library.Word" "HOL-Library.Char_ord" "HOL-Library.List_Lexorder"
begin

text \<open>
  What all components share: the ways a C execution can go wrong, the error monad that
  threads them, the integer conversions of an LP64 platform (\<open>int\<close> 32 bits, \<open>size_t\<close>
  and \<open>ssize_t\<close> 64 bits), and memory blocks as byte lists with checked reads and
  writes. An access the C standard leaves undefined is an explicit fault of the model,
  so that a theorem saying "returns \<open>Inr\<close>" also says that the code stays defined.
\<close>

named_theorems run_simps \<open>equations that execute the error monad and the memory operations\<close>

section \<open>Faults and the error monad\<close>

datatype cfault =
    Exit_program int       \<comment> \<open>\<open>exit(n)\<close>\<close>
  | Null_deref             \<comment> \<open>a null pointer is followed\<close>
  | Out_of_bounds          \<comment> \<open>a byte outside a block is read or written\<close>
  | Use_after_free         \<comment> \<open>a freed object is read, written or freed again\<close>
  | Uninitialised          \<comment> \<open>a decision is taken on a field nothing has written\<close>
  | Signed_overflow        \<comment> \<open>a signed operation leaves its type\<close>
  | Div_by_zero

definition bindE :: "cfault + 'a \<Rightarrow> ('a \<Rightarrow> cfault + 'b) \<Rightarrow> cfault + 'b" where
  "bindE m f = (case m of Inl e \<Rightarrow> Inl e | Inr x \<Rightarrow> f x)"

lemma bindE_Inl [simp, run_simps]: "bindE (Inl e) f = Inl e"
  by (simp add: bindE_def)

lemma bindE_Inr [simp, run_simps]: "bindE (Inr x) f = f x"
  by (simp add: bindE_def)

lemma bindE_eq_Inr: "bindE m f = Inr y \<longleftrightarrow> (\<exists>x. m = Inr x \<and> f x = Inr y)"
  by (cases m) auto

lemma bindE_eq_InrE [elim!]:
  assumes "bindE m f = Inr y"
  obtains x where "m = Inr x" and "f x = Inr y"
  using assms by (auto simp: bindE_eq_Inr)

lemma bindE_eq_Inl: "bindE m f = Inl e \<longleftrightarrow> m = Inl e \<or> (\<exists>x. m = Inr x \<and> f x = Inl e)"
  by (cases m) auto

lemma bindE_assoc: "bindE (bindE m f) g = bindE m (\<lambda>x. bindE (f x) g)"
  by (cases m) auto

lemma bindE_cong [fundef_cong]:
  "m = m' \<Longrightarrow> (\<And>x. m' = Inr x \<Longrightarrow> f x = g x) \<Longrightarrow> bindE m f = bindE m' g"
  by (cases m') auto

definition assertE :: "cfault \<Rightarrow> bool \<Rightarrow> cfault + unit" where
  "assertE e b = (if b then Inr () else Inl e)"

lemma assertE_simps [simp, run_simps]:
  "assertE e True = Inr ()" "assertE e False = Inl e"
  by (simp_all add: assertE_def)

lemma assertE_eq_Inr [simp]: "assertE e b = Inr u \<longleftrightarrow> b"
  by (simp add: assertE_def)

text \<open>A fallible operation run over a list, as a loop over an array or a file is.\<close>

primrec foldE :: "('x \<Rightarrow> 's \<Rightarrow> cfault + 's) \<Rightarrow> 'x list \<Rightarrow> 's \<Rightarrow> cfault + 's" where
  "foldE f [] s = Inr s"
| "foldE f (x # xs) s = bindE (f x s) (foldE f xs)"

lemma foldE_append: "foldE f (xs @ ys) s = bindE (foldE f xs s) (foldE f ys)"
  by (induction xs arbitrary: s) (auto simp: bindE_assoc [symmetric] bindE_def split: sum.splits)

section \<open>Integers of an LP64 platform\<close>

type_synonym size_t = "64 word"

definition int_max :: int where
  "int_max = 2147483647"

definition c_int :: "int \<Rightarrow> cfault + int" where
  "c_int i = (if - int_max - 1 \<le> i \<and> i \<le> int_max then Inr i else Inl Signed_overflow)"

lemma c_int_ok [simp]: "- int_max - 1 \<le> i \<Longrightarrow> i \<le> int_max \<Longrightarrow> c_int i = Inr i"
  by (simp add: c_int_def)

lemma c_int_eq_Inr: "c_int i = Inr j \<longleftrightarrow> j = i \<and> - int_max - 1 \<le> i \<and> i \<le> int_max"
  by (auto simp: c_int_def)

definition to_int32 :: "int \<Rightarrow> int" where
  "to_int32 i = (i + 2147483648) mod 4294967296 - 2147483648"

lemma to_int32_id [simp]: "- 2147483648 \<le> i \<Longrightarrow> i < 2147483648 \<Longrightarrow> to_int32 i = i"
  by (simp add: to_int32_def)

definition size_of_int :: "int \<Rightarrow> size_t" where
  "size_of_int i = word_of_int i"

definition size_of_nat :: "nat \<Rightarrow> size_t" where
  "size_of_nat n = word_of_nat n"

lemma unat_size_of_nat: "n < 2 ^ 64 \<Longrightarrow> unat (size_of_nat n) = n"
  by (simp add: size_of_nat_def unat_of_nat take_bit_nat_eq_self_iff)

lemma size_of_nat_eq_iff:
  "m < 2 ^ 64 \<Longrightarrow> n < 2 ^ 64 \<Longrightarrow> size_of_nat m = size_of_nat n \<longleftrightarrow> m = n"
  by (metis unat_size_of_nat)

section \<open>Memory blocks\<close>

text \<open>
  A block is the list of its bytes, a pointer into it an offset. Fresh memory holds
  whatever the allocator left there: the bytes are given by a function the theorems
  quantify over.
\<close>

type_synonym block = "char list"

abbreviation NUL :: char where
  "NUL \<equiv> CHR 0x00"

definition fresh_block :: "(nat \<Rightarrow> char) \<Rightarrow> nat \<Rightarrow> block" where
  "fresh_block junk n = map junk [0..<n]"

lemma length_fresh_block [simp]: "length (fresh_block junk n) = n"
  by (simp add: fresh_block_def)

definition get_bytes :: "block \<Rightarrow> nat \<Rightarrow> nat \<Rightarrow> cfault + char list" where
  "get_bytes b p n = (if p + n \<le> length b then Inr (take n (drop p b)) else Inl Out_of_bounds)"

definition put_bytes :: "block \<Rightarrow> nat \<Rightarrow> char list \<Rightarrow> cfault + block" where
  "put_bytes b p xs =
     (if p + length xs \<le> length b
      then Inr (take p b @ xs @ drop (p + length xs) b) else Inl Out_of_bounds)"

lemma put_bytes_at_end:
  "put_bytes (xs @ zs) (length xs) ys =
     (if length ys \<le> length zs then Inr (xs @ ys @ drop (length ys) zs) else Inl Out_of_bounds)"
  by (simp add: put_bytes_def)

lemma put_bytes_at_start:
  "put_bytes b 0 ys =
     (if length ys \<le> length b then Inr (ys @ drop (length ys) b) else Inl Out_of_bounds)"
  by (simp add: put_bytes_def)

lemma length_put_bytes: "put_bytes b p xs = Inr b' \<Longrightarrow> length b' = length b"
  by (auto simp: put_bytes_def split: if_splits)

lemma put_bytes_Inl: "put_bytes b p xs = Inl e \<longleftrightarrow> e = Out_of_bounds \<and> length b < p + length xs"
  by (auto simp: put_bytes_def)

section \<open>Sums over threads\<close>

text \<open>One thread's share changes, the others' stay.\<close>

lemma sum_upd:
  fixes f :: "nat \<Rightarrow> 'b :: comm_monoid_add"
  assumes "w < n" and "f w = a"
  shows "(\<Sum>v<n. (f(w := b)) v) + a = (\<Sum>v<n. f v) + b"
proof -
  have "(\<Sum>v<n. (f(w := b)) v) = b + (\<Sum>v\<in>{..<n} - {w}. f v)"
    using assms(1) by (subst sum.remove [of _ w]) auto
  moreover have "(\<Sum>v<n. f v) = a + (\<Sum>v\<in>{..<n} - {w}. f v)"
    using assms by (subst sum.remove [of _ w]) auto
  ultimately show ?thesis by (simp add: ac_simps)
qed

end
