(* ===== verification/Steque.thy ===== *)
theory Steque
  imports Prelude "HOL-Library.Multiset"
begin

text \<open>
  The stack-ended queue of \<open>steque.c\<close> (the same file in \<open>multithreadgetfile\<close> and in
  \<open>proj4\<close>): singly linked nodes on a heap, with front and back pointers and a counter.
  The heap is a map from addresses to nodes; allocation takes the next address that was
  never used and succeeds. Following a null pointer, touching a freed node and popping
  an empty queue (which calls \<open>exit\<close>) are faults.

  The second half states what clients rely on as two locales, \<open>fifo\<close> (order) and
  \<open>task_pool\<close> (only which elements are pending), and interprets them on this code.
\<close>

section \<open>The data structure\<close>

type_synonym addr = nat

record 'a steque_node =
  item :: 'a
  next_node :: "addr option"

record steque_t =
  qfront :: "addr option"
  qback :: "addr option"
  N :: int

record 'a node_heap =
  cells :: "addr \<rightharpoonup> 'a steque_node"
  unused :: addr

type_synonym 'a qstate = "steque_t \<times> 'a node_heap"

definition load_node :: "'a node_heap \<Rightarrow> addr option \<Rightarrow> cfault + 'a steque_node" where
  "load_node h p =
     (case p of None \<Rightarrow> Inl Null_deref
      | Some a \<Rightarrow> (case cells h a of None \<Rightarrow> Inl Use_after_free | Some nd \<Rightarrow> Inr nd))"

definition store_next :: "'a node_heap \<Rightarrow> addr option \<Rightarrow> addr option \<Rightarrow> cfault + 'a node_heap" where
  "store_next h p nx =
     bindE (load_node h p) (\<lambda>nd. Inr (h\<lparr>cells := (cells h)(the p \<mapsto> nd\<lparr>next_node := nx\<rparr>)\<rparr>))"

definition malloc_node :: "'a node_heap \<Rightarrow> 'a \<Rightarrow> addr option \<Rightarrow> addr option \<times> 'a node_heap" where
  "malloc_node h x nx =
     (Some (unused h), h\<lparr>cells := (cells h)(unused h \<mapsto> \<lparr>item = x, next_node = nx\<rparr>),
                         unused := Suc (unused h)\<rparr>)"

definition free_node :: "'a node_heap \<Rightarrow> addr option \<Rightarrow> cfault + 'a node_heap" where
  "free_node h p = bindE (load_node h p) (\<lambda>_. Inr (h\<lparr>cells := (cells h)(the p := None)\<rparr>))"

section \<open>The operations\<close>

definition steque_init :: "steque_t" where
  "steque_init = \<lparr>qfront = None, qback = None, N = 0\<rparr>"

definition steque_enqueue :: "'a qstate \<Rightarrow> 'a \<Rightarrow> cfault + 'a qstate" where
  "steque_enqueue s x =
     (let (q, h) = s; (node, h1) = malloc_node h x None in
      bindE (if qback q = None then Inr (q\<lparr>qfront := node\<rparr>, h1)
             else bindE (store_next h1 (qback q) node) (\<lambda>h2. Inr (q, h2))) (\<lambda>(q2, h2).
      bindE (c_int (N q2 + 1)) (\<lambda>n. Inr (q2\<lparr>qback := node, N := n\<rparr>, h2))))"

definition steque_push :: "'a qstate \<Rightarrow> 'a \<Rightarrow> cfault + 'a qstate" where
  "steque_push s x =
     (let (q, h) = s; (node, h1) = malloc_node h x (qfront q);
          q2 = (if qback q = None then q\<lparr>qback := node\<rparr> else q) in
      bindE (c_int (N q2 + 1)) (\<lambda>n. Inr (q2\<lparr>qfront := node, N := n\<rparr>, h1)))"

definition steque_size :: "'a qstate \<Rightarrow> int" where
  "steque_size s = N (fst s)"

definition steque_isempty :: "'a qstate \<Rightarrow> bool" where
  "steque_isempty s \<longleftrightarrow> N (fst s) = 0"

definition steque_pop :: "'a qstate \<Rightarrow> cfault + 'a \<times> 'a qstate" where
  "steque_pop s =
     (let (q, h) = s in
      if qfront q = None then Inl (Exit_program 1)
      else bindE (load_node h (qfront q)) (\<lambda>nd.
        let q1 = q\<lparr>qfront := next_node nd\<rparr>;
            q2 = (if qfront q1 = None then q1\<lparr>qback := None\<rparr> else q1) in
        bindE (free_node h (qfront q)) (\<lambda>h1.
        bindE (c_int (N q2 - 1)) (\<lambda>n. Inr (item nd, q2\<lparr>N := n\<rparr>, h1)))))"

definition steque_cycle :: "'a qstate \<Rightarrow> cfault + 'a qstate" where
  "steque_cycle s =
     (let (q, h) = s in
      if qback q = None then Inr (q, h)
      else bindE (store_next h (qback q) (qfront q)) (\<lambda>h1.
        bindE (load_node h1 (qfront q)) (\<lambda>nd.
        bindE (store_next h1 (qfront q) None) (\<lambda>h2.
          Inr (q\<lparr>qback := qfront q, qfront := next_node nd\<rparr>, h2)))))"

definition steque_front :: "'a qstate \<Rightarrow> cfault + 'a" where
  "steque_front s =
     (let (q, h) = s in
      if qfront q = None then Inl (Exit_program 1)
      else bindE (load_node h (qfront q)) (\<lambda>nd. Inr (item nd)))"

text \<open>The loop of \<open>steque_destroy\<close> stops when the counter is 0; \<open>None\<close> is a loop that never does.\<close>

partial_function (option) steque_destroy :: "'a qstate \<Rightarrow> (cfault + 'a qstate) option" where
  "steque_destroy s =
     (if steque_isempty s then Some (Inr s)
      else case steque_pop s of Inl e \<Rightarrow> Some (Inl e) | Inr r \<Rightarrow> steque_destroy (snd r))"


section \<open>Representation of a list\<close>

primrec chain :: "(addr \<rightharpoonup> 'a steque_node) \<Rightarrow> addr option \<Rightarrow> addr list \<Rightarrow> bool" where
  "chain c p [] \<longleftrightarrow> p = None"
| "chain c p (a # as) \<longleftrightarrow>
     p = Some a \<and> (case c a of None \<Rightarrow> False | Some nd \<Rightarrow> chain c (next_node nd) as)"

primrec walk :: "(addr \<rightharpoonup> 'a steque_node) \<Rightarrow> nat \<Rightarrow> addr option \<Rightarrow> addr list" where
  "walk c 0 p = []"
| "walk c (Suc n) p =
     (case p of None \<Rightarrow> []
      | Some a \<Rightarrow> (case c a of None \<Rightarrow> [] | Some nd \<Rightarrow> a # walk c n (next_node nd)))"

definition steque_repr :: "'a qstate \<Rightarrow> addr list \<Rightarrow> bool" where
  "steque_repr s as \<longleftrightarrow>
     chain (cells (snd s)) (qfront (fst s)) as \<and>
     qback (fst s) = (if as = [] then None else Some (last as)) \<and>
     N (fst s) = int (length as) \<and> N (fst s) \<le> int_max \<and> distinct as \<and>
     dom (cells (snd s)) = set as \<and> (\<forall>a \<in> set as. a < unused (snd s))"

definition steque_nodes :: "'a qstate \<Rightarrow> addr list" where
  "steque_nodes s = walk (cells (snd s)) (nat (N (fst s))) (qfront (fst s))"

definition steque_elems :: "'a qstate \<Rightarrow> 'a list" where
  "steque_elems s = map (\<lambda>a. item (the (cells (snd s) a))) (steque_nodes s)"

text \<open>The heap holds exactly the queue's nodes, each once: nothing leaks, nothing dangles.\<close>

definition steque_inv :: "'a qstate \<Rightarrow> bool" where
  "steque_inv s \<longleftrightarrow> steque_repr s (steque_nodes s)"

definition empty_heap :: "'a node_heap" where
  "empty_heap = \<lparr>cells = Map.empty, unused = 0\<rparr>"

lemma walk_chain: "chain c p as \<Longrightarrow> walk c (length as) p = as"
  by (induction as arbitrary: p) (auto split: option.splits)

lemma chain_upd [simp]: "a \<notin> set as \<Longrightarrow> chain (c(a := v)) p as = chain c p as"
  by (induction as arbitrary: p) (auto split: option.splits)

lemma chain_last: "chain c p (as @ [l]) \<Longrightarrow> \<exists>nd. c l = Some nd \<and> next_node nd = None"
  by (induction as arbitrary: p) (auto split: option.splits)

lemma chain_snoc:
  "chain c p (as @ [l]) \<Longrightarrow> distinct (as @ [l]) \<Longrightarrow> b \<notin> set (as @ [l]) \<Longrightarrow> c l = Some nd \<Longrightarrow>
   chain (c(b \<mapsto> \<lparr>item = x, next_node = None\<rparr>, l \<mapsto> nd\<lparr>next_node := Some b\<rparr>)) p (as @ [l, b])"
  by (induction as arbitrary: p) (auto split: option.splits)

lemma steque_repr_nodes: "steque_repr s as \<Longrightarrow> steque_nodes s = as"
  by (auto simp: steque_repr_def steque_nodes_def walk_chain)

lemma steque_inv_repr: "steque_repr s as \<Longrightarrow> steque_inv s"
  by (simp add: steque_inv_def steque_repr_nodes)

lemma steque_repr_elems: "steque_repr s as \<Longrightarrow> steque_elems s = map (\<lambda>a. item (the (cells (snd s) a))) as"
  by (simp add: steque_elems_def steque_repr_nodes)

lemma steque_elems_Nil: "steque_inv s \<Longrightarrow> steque_elems s = [] \<longleftrightarrow> N (fst s) = 0"
  by (auto simp: steque_inv_def steque_elems_def steque_repr_def)

lemma steque_size_elems: "steque_inv s \<Longrightarrow> steque_size s = int (length (steque_elems s))"
  by (simp add: steque_inv_def steque_elems_def steque_repr_def steque_size_def)

lemma steque_inv_size: "steque_inv s \<Longrightarrow> int (length (steque_elems s)) \<le> int_max"
  by (simp add: steque_inv_def steque_repr_def steque_elems_def)

lemma steque_init_inv: "steque_inv (steque_init, empty_heap)"
  by (simp add: steque_inv_def steque_repr_def steque_nodes_def steque_init_def empty_heap_def int_max_def)

lemma steque_init_elems: "steque_elems (steque_init, empty_heap) = []"
  by (simp add: steque_elems_def steque_nodes_def steque_init_def)

section \<open>What each operation does to the represented list\<close>

lemmas node_ops = load_node_def store_next_def malloc_node_def free_node_def

lemma enqueue_repr:
  assumes r: "steque_repr (q, h) as" and "N q < int_max"
  shows "\<exists>s'. steque_enqueue (q, h) x = Inr s' \<and> steque_repr s' (as @ [unused h]) \<and>
    map (\<lambda>a. item (the (cells (snd s') a))) (as @ [unused h]) =
    map (\<lambda>a. item (the (cells h a))) as @ [x]"
proof (cases as rule: rev_cases)
  case Nil
  with assms show ?thesis
    by (auto simp: steque_enqueue_def steque_repr_def node_ops int_max_def c_int_def)
next
  case (snoc bs l)
  from r snoc have ch: "chain (cells h) (qfront q) (bs @ [l])" and d: "distinct (bs @ [l])"
    and fresh: "unused h \<notin> set (bs @ [l])" by (auto simp: steque_repr_def)
  from chain_last [OF ch] obtain nd where nd: "cells h l = Some nd" by blast
  note ch' = chain_snoc [OF ch d fresh nd, of x]
  from assms snoc nd ch' fresh show ?thesis
    by (auto simp: steque_enqueue_def steque_repr_def node_ops int_max_def c_int_def)
qed

lemma push_repr:
  assumes r: "steque_repr (q, h) as" and "N q < int_max"
  shows "\<exists>s'. steque_push (q, h) x = Inr s' \<and> steque_repr s' (unused h # as) \<and>
    map (\<lambda>a. item (the (cells (snd s') a))) (unused h # as) = x # map (\<lambda>a. item (the (cells h a))) as"
proof -
  from r have "unused h \<notin> set as" by (auto simp: steque_repr_def)
  with assms show ?thesis
    by (cases as) (auto simp: steque_push_def steque_repr_def node_ops int_max_def c_int_def
        split: option.splits)
qed

lemma pop_repr:
  assumes r: "steque_repr (q, h) (a # as)"
  shows "\<exists>s'. steque_pop (q, h) = Inr (item (the (cells h a)), s') \<and> steque_repr s' as \<and>
    cells (snd s') = (cells h)(a := None)"
proof -
  from r obtain nd where nd: "cells h a = Some nd" "chain (cells h) (next_node nd) as"
    by (auto simp: steque_repr_def split: option.splits)
  from nd(2) have e: "next_node nd = None \<longleftrightarrow> as = []" by (cases as) auto
  show ?thesis
    using r nd e by (auto simp: steque_pop_def steque_repr_def node_ops c_int_def int_max_def Let_def)
qed

lemma chain_append:
  "chain c p (as @ [l]) \<Longrightarrow> distinct (as @ [l]) \<Longrightarrow> b \<notin> set (as @ [l]) \<Longrightarrow> c l = Some nd \<Longrightarrow>
   c b = Some nb \<Longrightarrow>
   chain (c(l \<mapsto> nd\<lparr>next_node := Some b\<rparr>, b \<mapsto> nb\<lparr>next_node := None\<rparr>)) p (as @ [l, b])"
  by (induction as arbitrary: p) (auto split: option.splits)

lemma cycle_repr:
  assumes r: "steque_repr (q, h) (a # as)"
  shows "\<exists>s'. steque_cycle (q, h) = Inr s' \<and> steque_repr s' (as @ [a]) \<and>
    map (\<lambda>a. item (the (cells (snd s') a))) (as @ [a]) = map (\<lambda>a. item (the (cells h a))) (as @ [a])"
proof (cases as rule: rev_cases)
  case Nil
  with r show ?thesis
    by (auto simp: steque_cycle_def steque_repr_def node_ops int_max_def split: option.splits)
next
  case (snoc bs l)
  from r snoc obtain na where na: "cells h a = Some na" "chain (cells h) (next_node na) (bs @ [l])"
    by (auto simp: steque_repr_def split: option.splits)
  from chain_last [OF na(2)] obtain nd where nd: "cells h l = Some nd" by blast
  from r snoc have d: "distinct (bs @ [l])" "a \<notin> set (bs @ [l])" by (auto simp: steque_repr_def)
  note ch = chain_append [OF na(2) d nd na(1)]
  from r snoc na nd d ch show ?thesis
    by (auto simp: steque_cycle_def steque_repr_def node_ops int_max_def Let_def)
qed

lemma enqueue_elems:
  assumes "steque_inv s" and "int (length (steque_elems s)) < int_max"
  shows "\<exists>s'. steque_enqueue s x = Inr s' \<and> steque_inv s' \<and> steque_elems s' = steque_elems s @ [x]"
proof -
  obtain q h where s: "s = (q, h)" by (cases s)
  from assms s have r: "steque_repr (q, h) (steque_nodes s)" and n: "N q < int_max"
    by (auto simp: steque_inv_def steque_repr_def steque_elems_def)
  from enqueue_repr [OF r n] s show ?thesis
    by (metis steque_inv_repr steque_repr_elems steque_elems_def snd_conv)
qed

lemma push_elems:
  assumes "steque_inv s" and "int (length (steque_elems s)) < int_max"
  shows "\<exists>s'. steque_push s x = Inr s' \<and> steque_inv s' \<and> steque_elems s' = x # steque_elems s"
proof -
  obtain q h where s: "s = (q, h)" by (cases s)
  from assms s have r: "steque_repr (q, h) (steque_nodes s)" and n: "N q < int_max"
    by (auto simp: steque_inv_def steque_repr_def steque_elems_def)
  from push_repr [OF r n] s show ?thesis
    by (metis steque_inv_repr steque_repr_elems steque_elems_def snd_conv)
qed

lemma elems_ConsD:
  assumes "steque_inv s" and "steque_elems s = x # xs"
  obtains q h a as where "s = (q, h)" and "steque_repr (q, h) (a # as)"
    and "x = item (the (cells h a))" and "xs = map (\<lambda>a. item (the (cells h a))) as"
  using assms by (cases s) (auto simp: steque_inv_def steque_elems_def)

lemma pop_elems:
  assumes "steque_inv s" and "steque_elems s = x # xs"
  shows "\<exists>s'. steque_pop s = Inr (x, s') \<and> steque_inv s' \<and> steque_elems s' = xs"
proof -
  obtain q h a as where s: "s = (q, h)" "steque_repr (q, h) (a # as)"
    "x = item (the (cells h a))" "xs = map (\<lambda>a. item (the (cells h a))) as"
    using elems_ConsD [OF assms] .
  have a: "a \<notin> set as" using s(2) by (simp add: steque_repr_def)
  obtain s' where s': "steque_pop (q, h) = Inr (x, s')" "steque_repr s' as" "cells (snd s') = (cells h)(a := None)"
    using pop_repr [OF s(2)] s(3) by blast
  have "steque_elems s' = xs"
    using s'(2,3) s(4) a by (auto simp: steque_repr_elems)
  then show ?thesis using s' s(1) by (auto intro: steque_inv_repr)
qed

lemma cycle_elems:
  assumes "steque_inv s" and "steque_elems s = x # xs"
  shows "\<exists>s'. steque_cycle s = Inr s' \<and> steque_inv s' \<and> steque_elems s' = xs @ [x]"
proof -
  obtain q h a as where s: "s = (q, h)" "steque_repr (q, h) (a # as)"
    "x = item (the (cells h a))" "xs = map (\<lambda>a. item (the (cells h a))) as"
    using elems_ConsD [OF assms] .
  from cycle_repr [OF s(2)] s show ?thesis
    by (auto intro: steque_inv_repr simp: steque_repr_elems)
qed

lemma front_elems: "steque_inv s \<Longrightarrow> steque_elems s = x # xs \<Longrightarrow> steque_front s = Inr x"
  by (erule (1) elems_ConsD)
    (auto simp: steque_front_def steque_repr_def load_node_def split: option.splits)

lemma empty_qfront: "steque_inv s \<Longrightarrow> steque_elems s = [] \<Longrightarrow> qfront (fst s) = None \<and> qback (fst s) = None"
  by (simp add: steque_inv_def steque_elems_def steque_repr_def)

lemma pop_empty: "steque_inv s \<Longrightarrow> steque_elems s = [] \<Longrightarrow> steque_pop s = Inl (Exit_program 1)"
  by (cases s) (auto dest!: empty_qfront simp: steque_pop_def)

lemma front_empty: "steque_inv s \<Longrightarrow> steque_elems s = [] \<Longrightarrow> steque_front s = Inl (Exit_program 1)"
  by (cases s) (auto dest!: empty_qfront simp: steque_front_def)

lemma cycle_empty: "steque_inv s \<Longrightarrow> steque_elems s = [] \<Longrightarrow> steque_cycle s = Inr s"
  by (cases s) (auto dest!: empty_qfront simp: steque_cycle_def)

lemma destroy_elems:
  "steque_inv s \<Longrightarrow>
   \<exists>s'. steque_destroy s = Some (Inr s') \<and> steque_inv s' \<and> steque_elems s' = [] \<and>
     dom (cells (snd s')) = {}"
proof (induction "steque_elems s" arbitrary: s)
  case Nil
  then have "dom (cells (snd s)) = {}" "steque_isempty s"
    by (auto simp: steque_inv_def steque_elems_def steque_repr_def steque_isempty_def)
  with Nil show ?case by (subst steque_destroy.simps) auto
next
  case (Cons x xs)
  then have ne: "\<not> steque_isempty s"
    using steque_elems_Nil [of s] by (auto simp: steque_isempty_def)
  from pop_elems [OF Cons.prems Cons.hyps(2) [symmetric]] obtain s' where
    "steque_pop s = Inr (x, s')" "steque_inv s'" "xs = steque_elems s'" by auto
  with Cons.hyps(1) ne show ?case by (subst steque_destroy.simps) auto
qed

section \<open>Interfaces\<close>

text \<open>
  What a client that only needs the pending work to be conserved relies on: \<open>put\<close> adds
  one element, \<open>get\<close> removes one that was pending. \<open>cap\<close> bounds how many can be held.
\<close>

locale task_pool =
  fixes put :: "'a \<Rightarrow> 's \<Rightarrow> cfault + 's"
    and get :: "'s \<Rightarrow> cfault + 'a \<times> 's"
    and none_left :: "'s \<Rightarrow> bool"
    and pending :: "'s \<Rightarrow> 'a multiset"
    and ok :: "'s \<Rightarrow> bool"
    and cap :: nat
  assumes put_pending: "ok s \<Longrightarrow> size (pending s) < cap \<Longrightarrow>
      \<exists>s'. put x s = Inr s' \<and> ok s' \<and> pending s' = add_mset x (pending s)"
    and get_pending: "ok s \<Longrightarrow> pending s \<noteq> {#} \<Longrightarrow>
      \<exists>x s'. get s = Inr (x, s') \<and> ok s' \<and> pending s = add_mset x (pending s')"
    and none_left_iff: "ok s \<Longrightarrow> none_left s \<longleftrightarrow> pending s = {#}"
begin

lemma put_all:
  "ok s \<Longrightarrow> size (pending s) + length xs \<le> cap \<Longrightarrow>
   \<exists>s'. foldE put xs s = Inr s' \<and> ok s' \<and> pending s' = pending s + mset xs"
proof (induction xs arbitrary: s)
  case (Cons x xs)
  then obtain s1 where "put x s = Inr s1" "ok s1" "pending s1 = add_mset x (pending s)"
    using put_pending [of s x] by auto
  with Cons.IH [of s1] Cons.prems show ?case by auto
qed simp

lemma get_member:
  assumes "ok s" and "get s = Inr (x, s')" and "\<not> none_left s"
  shows "x \<in># pending s \<and> ok s' \<and> pending s' = pending s - {#x#}"
proof -
  from assms(1,3) have "pending s \<noteq> {#}" by (simp add: none_left_iff)
  from get_pending [OF assms(1) this] assms(2) show ?thesis by auto
qed

end

text \<open>First in, first out.\<close>

locale fifo =
  fixes enq :: "'a \<Rightarrow> 's \<Rightarrow> cfault + 's"
    and deq :: "'s \<Rightarrow> cfault + 'a \<times> 's"
    and isempty :: "'s \<Rightarrow> bool"
    and elems :: "'s \<Rightarrow> 'a list"
    and inv :: "'s \<Rightarrow> bool"
    and cap :: nat
  assumes enq_elems: "inv s \<Longrightarrow> length (elems s) < cap \<Longrightarrow>
      \<exists>s'. enq x s = Inr s' \<and> inv s' \<and> elems s' = elems s @ [x]"
    and deq_elems: "inv s \<Longrightarrow> elems s = x # xs \<Longrightarrow>
      \<exists>s'. deq s = Inr (x, s') \<and> inv s' \<and> elems s' = xs"
    and isempty_iff: "inv s \<Longrightarrow> isempty s \<longleftrightarrow> elems s = []"
begin

lemma enq_all:
  "inv s \<Longrightarrow> length (elems s) + length xs \<le> cap \<Longrightarrow>
   \<exists>s'. foldE enq xs s = Inr s' \<and> inv s' \<and> elems s' = elems s @ xs"
proof (induction xs arbitrary: s)
  case (Cons x xs)
  then obtain s1 where "enq x s = Inr s1" "inv s1" "elems s1 = elems s @ [x]"
    using enq_elems [of s x] by auto
  with Cons.IH [of s1] Cons.prems show ?case by auto
qed simp

text \<open>Taking \<open>n\<close> elements off the front returns the first \<open>n\<close>, in order.\<close>

lemma deq_many:
  "inv s \<Longrightarrow> n \<le> length (elems s) \<Longrightarrow>
   \<exists>s' out. ((\<lambda>r. bindE r (\<lambda>(out, s). bindE (deq s) (\<lambda>(x, s'). Inr (out @ [x], s')))) ^^ n)
       (Inr ([], s)) = Inr (out, s') \<and>
     inv s' \<and> out = take n (elems s) \<and> elems s' = drop n (elems s)"
proof (induction n)
  case (Suc n)
  then obtain s1 where s1: "((\<lambda>r. bindE r (\<lambda>(out, s). bindE (deq s) (\<lambda>(x, s'). Inr (out @ [x], s')))) ^^ n)
       (Inr ([], s)) = Inr (take n (elems s), s1)" "inv s1" "elems s1 = drop n (elems s)"
    by auto
  from Suc.prems have "drop n (elems s) = elems s ! n # drop (Suc n) (elems s)"
    by (simp add: Cons_nth_drop_Suc)
  with s1 deq_elems [OF s1(2)] obtain s2 where
    "deq s1 = Inr (elems s ! n, s2)" "inv s2" "elems s2 = drop (Suc n) (elems s)" by metis
  with s1 Suc.prems show ?case by (auto simp: take_Suc_conv_app_nth)
qed simp

end

sublocale fifo \<subseteq> pool: task_pool enq deq isempty "\<lambda>s. mset (elems s)" inv cap
proof unfold_locales
  fix s x assume "inv s" "size (mset (elems s)) < cap"
  then show "\<exists>s'. enq x s = Inr s' \<and> inv s' \<and> mset (elems s') = add_mset x (mset (elems s))"
    using enq_elems [of s x] by auto
next
  fix s assume "inv s" "mset (elems s) \<noteq> {#}"
  then show "\<exists>x s'. deq s = Inr (x, s') \<and> inv s' \<and> mset (elems s) = add_mset x (mset (elems s'))"
    using deq_elems [of s] by (cases "elems s") fastforce+
next
  fix s assume "inv s"
  then show "isempty s \<longleftrightarrow> mset (elems s) = {#}" by (simp add: isempty_iff)
qed

interpretation sq: fifo "\<lambda>x s. steque_enqueue s x" steque_pop steque_isempty steque_elems steque_inv
  "nat int_max"
proof unfold_locales
  fix s :: "'a qstate" and x
  assume "steque_inv s" "length (steque_elems s) < nat int_max"
  then show "\<exists>s'. steque_enqueue s x = Inr s' \<and> steque_inv s' \<and> steque_elems s' = steque_elems s @ [x]"
    by (intro enqueue_elems) auto
next
  fix s :: "'a qstate" and x xs
  assume "steque_inv s" "steque_elems s = x # xs"
  then show "\<exists>s'. steque_pop s = Inr (x, s') \<and> steque_inv s' \<and> steque_elems s' = xs"
    by (rule pop_elems)
next
  fix s :: "'a qstate"
  assume "steque_inv s"
  then show "steque_isempty s \<longleftrightarrow> steque_elems s = []"
    by (simp add: steque_isempty_def steque_elems_Nil)
qed

section \<open>Programs over a queue\<close>

text \<open>
  Any sequence of calls, run on the code's structure and on a list. The outcome of a run
  is what the calls returned, in order, and the final state, or the fault that stopped it.
\<close>

datatype 'a qop = Enqueue 'a | Push 'a | Pop | Cycle | Front

primrec steque_step :: "'a qop \<Rightarrow> 'a list \<times> 'a qstate \<Rightarrow> cfault + 'a list \<times> 'a qstate" where
  "steque_step (Enqueue x) r = bindE (steque_enqueue (snd r) x) (\<lambda>s. Inr (fst r, s))"
| "steque_step (Push x) r = bindE (steque_push (snd r) x) (\<lambda>s. Inr (fst r, s))"
| "steque_step Pop r = bindE (steque_pop (snd r)) (\<lambda>(x, s). Inr (fst r @ [x], s))"
| "steque_step Cycle r = bindE (steque_cycle (snd r)) (\<lambda>s. Inr (fst r, s))"
| "steque_step Front r = bindE (steque_front (snd r)) (\<lambda>x. Inr (fst r @ [x], snd r))"

primrec list_step :: "'a qop \<Rightarrow> 'a list \<times> 'a list \<Rightarrow> cfault + 'a list \<times> 'a list" where
  "list_step (Enqueue x) r = Inr (fst r, snd r @ [x])"
| "list_step (Push x) r = Inr (fst r, x # snd r)"
| "list_step Pop r =
     (case snd r of [] \<Rightarrow> Inl (Exit_program 1) | x # xs \<Rightarrow> Inr (fst r @ [x], xs))"
| "list_step Cycle r = Inr (fst r, rotate1 (snd r))"
| "list_step Front r =
     (case snd r of [] \<Rightarrow> Inl (Exit_program 1) | x # xs \<Rightarrow> Inr (fst r @ [x], snd r))"

definition steque_run :: "'a qop list \<Rightarrow> cfault + 'a list \<times> 'a qstate" where
  "steque_run ops = foldE steque_step ops ([], (steque_init, empty_heap))"

definition list_run :: "'a qop list \<Rightarrow> cfault + 'a list \<times> 'a list" where
  "list_run ops = foldE list_step ops ([], [])"

definition queue_abs :: "cfault + 'a list \<times> 'a qstate \<Rightarrow> cfault + 'a list \<times> 'a list" where
  "queue_abs r = map_sum id (\<lambda>(out, s). (out, steque_elems s)) r"

lemma steque_step_sim:
  assumes "steque_inv s" and "int (length (steque_elems s)) < int_max"
  shows "case steque_step op (out, s) of
      Inl e \<Rightarrow> list_step op (out, steque_elems s) = Inl e
    | Inr (out', s') \<Rightarrow> list_step op (out, steque_elems s) = Inr (out', steque_elems s') \<and> steque_inv s' \<and>
        length (steque_elems s') \<le> Suc (length (steque_elems s))"
proof (cases op)
  case (Enqueue x)
  with enqueue_elems [OF assms, of x] show ?thesis by auto
next
  case (Push x)
  with push_elems [OF assms, of x] show ?thesis by auto
next
  case Pop
  with assms(1) show ?thesis
    by (cases "steque_elems s") (auto simp: pop_empty dest: pop_elems)
next
  case Cycle
  with assms(1) show ?thesis
    by (cases "steque_elems s") (auto simp: cycle_empty dest: cycle_elems)
next
  case Front
  with assms(1) show ?thesis
    by (cases "steque_elems s") (auto simp: front_empty front_elems)
qed

lemma steque_run_sim:
  "steque_inv s \<Longrightarrow> int (length (steque_elems s) + length ops) \<le> int_max \<Longrightarrow>
   queue_abs (foldE steque_step ops (out, s)) = foldE list_step ops (out, steque_elems s) \<and>
   (\<forall>r. foldE steque_step ops (out, s) = Inr r \<longrightarrow> steque_inv (snd r))"
proof (induction ops arbitrary: out s)
  case Nil
  then show ?case by (simp add: queue_abs_def del: split_paired_All)
next
  case (Cons op ops)
  then have lt: "int (length (steque_elems s)) < int_max" by simp
  note sim = steque_step_sim [OF Cons.prems(1) lt, of op out]
  show ?case
  proof (cases "steque_step op (out, s)")
    case (Inl e)
    with sim show ?thesis by (simp add: queue_abs_def)
  next
    case (Inr r)
    with sim Cons.IH [of "snd r" "fst r"] Cons.prems(2) show ?thesis
      by (cases r) (auto simp del: split_paired_All)
  qed
qed

section \<open>Properties\<close>

text \<open>
  C19: For every sequence of calls of the queue's operations on a fresh queue (at most
  \<open>INT_MAX\<close> of them), the linked structure returns what a list would return, ends in the
  same contents, and stops with \<open>exit(1)\<close> exactly where a list has no first element;
  following a null or freed node never happens.
\<close>

theorem steque_refines_list:
  fixes ops :: "'a qop list"
  assumes "int (length ops) \<le> int_max"
  shows "queue_abs (steque_run ops) = list_run ops"
  using steque_run_sim [OF steque_init_inv, of ops "[]"] assms
  by (simp add: steque_run_def list_run_def steque_init_elems)

theorem steque_refines_list_witness:
  "queue_abs (steque_run [Enqueue (1::nat), Enqueue 2, Push 3, Cycle, Front, Pop]) = Inr ([1, 1], [2, 3])"
  using steque_refines_list [of "[Enqueue (1::nat), Enqueue 2, Push 3, Cycle, Front, Pop]"]
  by (simp add: list_run_def int_max_def)

text \<open>
  \<open>steque_destroy\<close> returns, on every queue that a sequence of calls can reach, and
  leaves an empty queue and a heap without any node: all of them are freed, none twice.
\<close>

lemma steque_destroy_frees_all:
  assumes "int (length ops) \<le> int_max" and "steque_run ops = Inr (out, s)"
  shows "\<exists>s'. steque_destroy s = Some (Inr s') \<and> cells (snd s') = Map.empty \<and> steque_elems s' = []"
proof -
  from steque_run_sim [OF steque_init_inv, of ops "[]"] assms
  have "steque_inv s" unfolding steque_run_def steque_init_elems by fastforce
  from destroy_elems [OF this] show ?thesis by auto
qed

text \<open>
  A queue filled with \<open>steque_enqueue\<close> and then emptied with \<open>steque_pop\<close> gives the
  elements back in the order they went in.
\<close>

lemma steque_fifo:
  assumes "length xs \<le> nat int_max"
  shows "\<exists>s s'. foldE (\<lambda>x s. steque_enqueue s x) xs (steque_init, empty_heap) = Inr s \<and>
    steque_size s = int (length xs) \<and>
    ((\<lambda>r. bindE r (\<lambda>(out, s). bindE (steque_pop s) (\<lambda>(x, s'). Inr (out @ [x], s')))) ^^ length xs)
      (Inr ([], s)) = Inr (xs, s') \<and> steque_isempty s'"
proof -
  from sq.enq_all [OF steque_init_inv, of xs] assms obtain s where
    s: "foldE (\<lambda>x s. steque_enqueue s x) xs (steque_init, empty_heap) = Inr s"
      "steque_inv s" "steque_elems s = xs" by (auto simp: steque_init_elems)
  from sq.deq_many [OF s(2), of "length xs"] s(3) obtain s' where
    s': "((\<lambda>r. bindE r (\<lambda>(out, s). bindE (steque_pop s) (\<lambda>(x, s'). Inr (out @ [x], s')))) ^^ length xs)
      (Inr ([], s)) = Inr (xs, s')" "steque_inv s'" "steque_elems s' = []" by auto
  from s s' show ?thesis
    by (intro exI [of _ s] exI [of _ s']) (simp add: steque_size_elems sq.isempty_iff)
qed

end
