(* ===== verification/CString.thy ===== *)
theory CString
  imports Prelude
begin

text \<open>
  The part of the C string library the programs use, on blocks: scanning to a NUL byte
  or a delimiter, \<open>strlen\<close>, \<open>strcpy\<close>, \<open>strcat\<close>, \<open>strcmp\<close>, \<open>strtok\<close>, \<open>strsep\<close>, decimal
  output (\<open>%zu\<close>, \<open>%d\<close>, \<open>%06d\<close>) and input (\<open>atoi\<close>, \<open>atol\<close>). Every scan faults when it
  runs off its block. The second half proves how these act on blocks of known shape,
  which is how the parsers' proofs use them.
\<close>

section \<open>Scanning\<close>

text \<open>The number of bytes before the first one that is NUL or fails the test.\<close>

primrec span_len :: "(char \<Rightarrow> bool) \<Rightarrow> char list \<Rightarrow> cfault + nat" where
  "span_len P [] = Inl Out_of_bounds"
| "span_len P (c # cs) =
     (if c \<noteq> NUL \<and> P c then bindE (span_len P cs) (\<lambda>n. Inr (Suc n)) else Inr 0)"

definition strlen_at :: "block \<Rightarrow> nat \<Rightarrow> cfault + nat" where
  "strlen_at b p = span_len (\<lambda>_. True) (drop p b)"

definition cstr_at :: "block \<Rightarrow> nat \<Rightarrow> cfault + string" where
  "cstr_at b p = bindE (strlen_at b p) (\<lambda>n. Inr (take n (drop p b)))"

definition strcpy_to :: "block \<Rightarrow> nat \<Rightarrow> string \<Rightarrow> cfault + block" where
  "strcpy_to b p s = put_bytes b p (s @ [NUL])"

definition strcat_to :: "block \<Rightarrow> nat \<Rightarrow> string \<Rightarrow> cfault + block" where
  "strcat_to b p s = bindE (strlen_at b p) (\<lambda>n. strcpy_to b (p + n) s)"

text \<open>
  The sign of the first difference, read as unsigned bytes. The standard fixes the sign
  only; the value is the difference, as in the C library of the platform.
\<close>

definition byte_code :: "char \<Rightarrow> int" where
  "byte_code c = int (of_char c)"

fun strcmp :: "string \<Rightarrow> string \<Rightarrow> int" where
  "strcmp [] [] = 0"
| "strcmp [] (y # ys) = - byte_code y"
| "strcmp (x # xs) [] = byte_code x"
| "strcmp (x # xs) (y # ys) = (if x = y then strcmp xs ys else byte_code x - byte_code y)"

section \<open>strtok and strsep\<close>

text \<open>
  \<open>strtok\<close> from position \<open>p\<close> (the argument, or the saved position for a null argument):
  the start of the token if there is one, the new saved position, the modified block.
\<close>

definition strtok_at :: "block \<Rightarrow> nat \<Rightarrow> string \<Rightarrow> cfault + nat option \<times> nat \<times> block" where
  "strtok_at b p ds =
     bindE (span_len (\<lambda>c. c \<in> set ds) (drop p b)) (\<lambda>k.
       let s = p + k in
       if b ! s = NUL then Inr (None, s, b)
       else bindE (span_len (\<lambda>c. c \<notin> set ds) (drop s b)) (\<lambda>m.
         let e = s + m in
         if b ! e = NUL then Inr (Some s, e, b)
         else Inr (Some s, Suc e, b[e := NUL])))"

text \<open>\<open>strsep\<close>: the pointer it advances is \<open>None\<close> once it is null.\<close>

definition strsep_at :: "block \<Rightarrow> nat option \<Rightarrow> string \<Rightarrow>
    cfault + nat option \<times> nat option \<times> block" where
  "strsep_at b q ds =
     (case q of
        None \<Rightarrow> Inr (None, None, b)
      | Some p \<Rightarrow>
          bindE (span_len (\<lambda>c. c \<notin> set ds) (drop p b)) (\<lambda>m.
            let e = p + m in
            if b ! e = NUL then Inr (Some p, None, b)
            else Inr (Some p, Some (Suc e), b[e := NUL])))"

section \<open>Decimal numbers\<close>

definition digit_char :: "nat \<Rightarrow> char" where
  "digit_char d = char_of (48 + d)"

fun show_nat :: "nat \<Rightarrow> string" where
  "show_nat n = (if n < 10 then [digit_char n] else show_nat (n div 10) @ [digit_char (n mod 10)])"

declare show_nat.simps [simp del]

definition show_int :: "int \<Rightarrow> string" where
  "show_int i = (if i < 0 then CHR ''-'' # show_nat (nat (- i)) else show_nat (nat i))"

definition zero_pad :: "nat \<Rightarrow> string \<Rightarrow> string" where
  "zero_pad w s = replicate (w - length s) (CHR ''0'') @ s"

definition is_digit :: "char \<Rightarrow> bool" where
  "is_digit c \<longleftrightarrow> CHR ''0'' \<le> c \<and> c \<le> CHR ''9''"

definition is_space :: "char \<Rightarrow> bool" where
  "is_space c \<longleftrightarrow> c \<in> {CHR '' '', CHR 0x09, CHR 0x0A, CHR 0x0B, CHR 0x0C, CHR 0x0D}"

definition digits_value :: "string \<Rightarrow> nat" where
  "digits_value s = foldl (\<lambda>n c. 10 * n + (of_char c - 48)) 0 s"

text \<open>\<open>strtol(s, NULL, 10)\<close>: blanks, a sign, digits; the value is clamped to a \<open>long\<close>.\<close>

definition strtol10 :: "string \<Rightarrow> int" where
  "strtol10 s =
     (let t = dropWhile is_space s;
          neg = (t \<noteq> [] \<and> hd t = CHR ''-'');
          u = (if t \<noteq> [] \<and> (hd t = CHR ''-'' \<or> hd t = CHR ''+'') then tl t else t);
          v = int (digits_value (takeWhile is_digit u))
      in if neg then max (- v) (- (2 ^ 63)) else min v (2 ^ 63 - 1))"

definition atol :: "string \<Rightarrow> int" where
  "atol s = strtol10 s"

definition atoi :: "string \<Rightarrow> int" where
  "atoi s = to_int32 (strtol10 s)"


section \<open>Scans and copies on blocks of known shape\<close>

lemma span_len_append [run_simps]:
  "(\<forall>x \<in> set xs. x \<noteq> NUL \<and> P x) \<Longrightarrow> \<not> (y \<noteq> NUL \<and> P y) \<Longrightarrow>
   span_len P (xs @ y # ys) = Inr (length xs)"
  by (induction xs) auto

lemma span_len_bounds: "span_len P xs = Inr n \<Longrightarrow> n < length xs"
  by (induction xs arbitrary: n) (auto split: if_splits)

lemma span_len_Inr:
  "span_len P xs = Inr n \<longleftrightarrow>
   n < length xs \<and> (\<forall>i < n. xs ! i \<noteq> NUL \<and> P (xs ! i)) \<and> \<not> (xs ! n \<noteq> NUL \<and> P (xs ! n))"
proof (induction xs arbitrary: n)
  case Nil
  show ?case by simp
next
  case (Cons c cs)
  show ?case
    by (cases n) (auto simp: Cons.IH bindE_eq_Inr nth_Cons' All_less_Suc2 split: if_splits)
qed

lemma span_len_Inl: "span_len P xs = Inl e \<longleftrightarrow> e = Out_of_bounds \<and> (\<forall>x \<in> set xs. x \<noteq> NUL \<and> P x)"
proof (induction xs)
  case (Cons c cs)
  then show ?case by (cases "span_len P cs") auto
qed auto

lemma strlen_at_known [run_simps]:
  "NUL \<notin> set s \<Longrightarrow> p = length pre \<Longrightarrow> strlen_at (pre @ s @ NUL # post) p = Inr (length s)"
  unfolding strlen_at_def by (simp, rule span_len_append) auto

lemma cstr_at_known [run_simps]:
  "NUL \<notin> set s \<Longrightarrow> p = length pre \<Longrightarrow> cstr_at (pre @ s @ NUL # post) p = Inr s"
  by (simp add: cstr_at_def strlen_at_known)

lemma cstr_at_start [run_simps]: "NUL \<notin> set s \<Longrightarrow> cstr_at (s @ NUL # post) 0 = Inr s"
  using cstr_at_known [of s 0 "[]"] by simp

lemma strlen_at_start [run_simps]: "NUL \<notin> set s \<Longrightarrow> strlen_at (s @ NUL # post) 0 = Inr (length s)"
  using strlen_at_known [of s 0 "[]"] by simp

lemma cstr_at_Inr: "cstr_at b p = Inr s \<Longrightarrow> NUL \<notin> set s \<and> p + length s < length b \<and> b ! (p + length s) = NUL"
  by (auto simp: cstr_at_def strlen_at_def span_len_Inr in_set_conv_nth)

lemma cstr_at_Inl: "cstr_at b p = Inl e \<Longrightarrow> e = Out_of_bounds"
  by (simp add: cstr_at_def strlen_at_def bindE_eq_Inl span_len_Inl)

lemma strcpy_to_known [run_simps]:
  "p = length pre \<Longrightarrow> length s < length post \<Longrightarrow>
   strcpy_to (pre @ post) p s = Inr (pre @ s @ NUL # drop (Suc (length s)) post)"
  by (simp add: strcpy_to_def put_bytes_at_end)

lemma strcpy_to_start [run_simps]:
  "length s < length b \<Longrightarrow> strcpy_to b 0 s = Inr (s @ NUL # drop (Suc (length s)) b)"
  by (simp add: strcpy_to_def put_bytes_at_start)

lemma strcpy_to_overflow [run_simps]: "length b \<le> p + length s \<Longrightarrow> strcpy_to b p s = Inl Out_of_bounds"
  by (simp add: strcpy_to_def put_bytes_def)

lemma strcat_to_known [run_simps]:
  "NUL \<notin> set s \<Longrightarrow> length t \<le> length post \<Longrightarrow>
   strcat_to (s @ NUL # post) 0 t = Inr (s @ t @ NUL # drop (length t) post)"
  by (simp add: strcat_to_def strlen_at_start strcpy_to_known)

lemma strcat_to_overflow [run_simps]:
  "NUL \<notin> set s \<Longrightarrow> length post < length t \<Longrightarrow> strcat_to (s @ NUL # post) 0 t = Inl Out_of_bounds"
  by (simp add: strcat_to_def strlen_at_start strcpy_to_overflow)

section \<open>Tokens of blocks of known shape\<close>

lemma strtok_at_token:
  assumes "p = length pre" and "set seps \<subseteq> set ds" and "NUL \<notin> set seps"
    and "tok \<noteq> []" and "set tok \<inter> set ds = {}" and "NUL \<notin> set tok"
    and "d \<in> set ds" and "d \<noteq> NUL"
  shows "strtok_at (pre @ seps @ tok @ d # post) p ds =
    Inr (Some (p + length seps), Suc (p + length seps + length tok), pre @ seps @ tok @ NUL # post)"
proof -
  obtain c cs where tok: "tok = c # cs" using assms(4) by (cases tok) auto
  have 1: "span_len (\<lambda>c. c \<in> set ds) (seps @ c # cs @ d # post) = Inr (length seps)"
    by (rule span_len_append) (use assms tok in auto)
  have 2: "span_len (\<lambda>c. c \<notin> set ds) (tok @ d # post) = Inr (length tok)"
    by (rule span_len_append) (use assms in auto)
  show ?thesis
    using assms 1 2
    by (auto simp: strtok_at_def tok Let_def nth_append list_update_append)
qed

lemma strtok_at_last:
  assumes "p = length pre" and "set seps \<subseteq> set ds" and "NUL \<notin> set seps"
    and "tok \<noteq> []" and "set tok \<inter> set ds = {}" and "NUL \<notin> set tok"
  shows "strtok_at (pre @ seps @ tok @ NUL # post) p ds =
    Inr (Some (p + length seps), p + length seps + length tok, pre @ seps @ tok @ NUL # post)"
proof -
  obtain c cs where tok: "tok = c # cs" using assms(4) by (cases tok) auto
  have 1: "span_len (\<lambda>c. c \<in> set ds) (seps @ c # cs @ NUL # post) = Inr (length seps)"
    by (rule span_len_append) (use assms tok in auto)
  have 2: "span_len (\<lambda>c. c \<notin> set ds) (tok @ NUL # post) = Inr (length tok)"
    by (rule span_len_append) (use assms in auto)
  show ?thesis
    using assms 1 2 by (auto simp: strtok_at_def tok Let_def nth_append)
qed

lemma strtok_at_none:
  assumes "p = length pre" and "set seps \<subseteq> set ds" and "NUL \<notin> set seps"
  shows "strtok_at (pre @ seps @ NUL # post) p ds = Inr (None, p + length seps, pre @ seps @ NUL # post)"
proof -
  have 1: "span_len (\<lambda>c. c \<in> set ds) (seps @ NUL # post) = Inr (length seps)"
    by (rule span_len_append) (use assms in auto)
  then show ?thesis
    using assms by (simp add: strtok_at_def Let_def nth_append)
qed

lemma length_strtok_at: "strtok_at b p ds = Inr (t, q, b') \<Longrightarrow> length b' = length b"
  by (auto simp: strtok_at_def Let_def split: if_splits)

lemma strsep_at_delim [run_simps]:
  assumes "p = length pre" and "set tok \<inter> set ds = {}" and "NUL \<notin> set tok"
    and "d \<in> set ds" and "d \<noteq> NUL"
  shows "strsep_at (pre @ tok @ d # post) (Some p) ds =
    Inr (Some p, Some (Suc (p + length tok)), pre @ tok @ NUL # post)"
proof -
  have "span_len (\<lambda>c. c \<notin> set ds) (tok @ d # post) = Inr (length tok)"
    by (rule span_len_append) (use assms in auto)
  then show ?thesis
    using assms by (simp add: strsep_at_def Let_def nth_append list_update_append)
qed

lemma strsep_at_end [run_simps]:
  assumes "p = length pre" and "set tok \<inter> set ds = {}" and "NUL \<notin> set tok"
  shows "strsep_at (pre @ tok @ NUL # post) (Some p) ds = Inr (Some p, None, pre @ tok @ NUL # post)"
proof -
  have "span_len (\<lambda>c. c \<notin> set ds) (tok @ NUL # post) = Inr (length tok)"
    by (rule span_len_append) (use assms in auto)
  then show ?thesis using assms by (simp add: strsep_at_def Let_def nth_append)
qed

lemma strsep_at_null [run_simps]: "strsep_at b None ds = Inr (None, None, b)"
  by (simp add: strsep_at_def)

section \<open>strcmp is the lexicographic order on bytes\<close>

lemma byte_code_eq_0: "byte_code c = 0 \<longleftrightarrow> c = NUL"
  using of_char_eq_iff [of c NUL, where 'a = nat] by (simp add: byte_code_def)

lemma byte_code_less: "byte_code c < byte_code d \<longleftrightarrow> c < d"
  by (simp add: byte_code_def less_char_def)

lemma byte_code_nonneg: "0 \<le> byte_code c"
  by (simp add: byte_code_def)

lemma byte_code_eq: "byte_code c = byte_code d \<longleftrightarrow> c = d"
  by (simp add: byte_code_def)

lemma strcmp_eq_0: "NUL \<notin> set s \<Longrightarrow> NUL \<notin> set t \<Longrightarrow> strcmp s t = 0 \<longleftrightarrow> s = t"
  by (induction s t rule: strcmp.induct) (auto simp: byte_code_eq_0 byte_code_eq)

lemma strcmp_refl [simp]: "strcmp s s = 0"
  by (induction s) auto

lemma strcmp_less_0: "NUL \<notin> set s \<Longrightarrow> NUL \<notin> set t \<Longrightarrow> strcmp s t < 0 \<longleftrightarrow> s < t"
proof (induction s t rule: strcmp.induct)
  case (2 y ys)
  then show ?case using byte_code_nonneg [of y] by (auto simp: byte_code_eq_0 order.strict_iff_order)
next
  case (3 x xs)
  then show ?case using byte_code_nonneg [of x] by auto
next
  case (4 x xs y ys)
  then show ?case by (auto simp: byte_code_less)
qed auto

lemma strcmp_gr_0: "NUL \<notin> set s \<Longrightarrow> NUL \<notin> set t \<Longrightarrow> 0 < strcmp s t \<longleftrightarrow> t < s"
  using strcmp_eq_0 [of s t] strcmp_less_0 [of s t] by (metis less_linear not_less_iff_gr_or_eq)

section \<open>Decimal numbers: printing and reading back\<close>

lemma of_char_digit_char: "d < 10 \<Longrightarrow> of_char (digit_char d) = (48 + d :: nat)"
  by (simp add: digit_char_def)

lemma is_digit_code: "is_digit c \<longleftrightarrow> 48 \<le> (of_char c :: nat) \<and> of_char c \<le> (57 :: nat)"
  by (simp add: is_digit_def less_eq_char_def)

lemma is_digit_digit_char [simp]: "d < 10 \<Longrightarrow> is_digit (digit_char d)"
  by (simp add: is_digit_code of_char_digit_char)

lemma show_nat_digits: "\<forall>c \<in> set (show_nat n). is_digit c"
proof (induction n rule: show_nat.induct)
  case (1 n)
  then show ?case by (subst show_nat.simps) auto
qed

lemma show_nat_nonempty [simp]: "show_nat n \<noteq> []"
  by (subst show_nat.simps) simp

lemma digit_neq:
  "is_digit c \<Longrightarrow> c \<noteq> NUL" "is_digit c \<Longrightarrow> \<not> is_space c"
  "is_digit c \<Longrightarrow> c \<noteq> CHR ''-''" "is_digit c \<Longrightarrow> c \<noteq> CHR ''+''"
  "is_digit c \<Longrightarrow> c \<noteq> CHR '' ''" "is_digit c \<Longrightarrow> c \<noteq> CHR 0x0D" "is_digit c \<Longrightarrow> c \<noteq> CHR 0x0A"
  by (auto simp: is_digit_code is_space_def)

lemma show_nat_no_NUL [simp]: "NUL \<notin> set (show_nat n)"
  using show_nat_digits [of n] digit_neq(1) by blast

lemma digits_value_snoc: "digits_value (s @ [c]) = 10 * digits_value s + (of_char c - 48)"
  by (simp add: digits_value_def)

lemma digits_value_show_nat: "digits_value (show_nat n) = n"
proof (induction n rule: show_nat.induct)
  case (1 n)
  show ?case
  proof (cases "n < 10")
    case True
    then show ?thesis by (simp add: show_nat.simps [of n] digits_value_def of_char_digit_char)
  next
    case False
    with 1 show ?thesis
      by (simp add: show_nat.simps [of n] digits_value_snoc of_char_digit_char)
  qed
qed

lemma strtol10_show_nat: "strtol10 (show_nat n) = min (int n) (2 ^ 63 - 1)"
proof -
  obtain c cs where s: "show_nat n = c # cs" by (cases "show_nat n") auto
  have "is_digit c" using show_nat_digits [of n] s by auto
  have tw: "takeWhile is_digit (c # cs) = c # cs"
    using show_nat_digits [of n] s by (simp add: takeWhile_eq_all_conv)
  from \<open>is_digit c\<close> show ?thesis
    using digits_value_show_nat [of n] digit_neq(2-4) [of c]
    unfolding strtol10_def Let_def s by (simp add: tw del: takeWhile.simps)
qed

lemma atol_show_nat: "n < 2 ^ 63 \<Longrightarrow> atol (show_nat n) = int n"
  by (simp add: atol_def strtol10_show_nat)

lemma show_nat_length: "n < 10 ^ k \<Longrightarrow> 0 < k \<Longrightarrow> length (show_nat n) \<le> k"
proof (induction n arbitrary: k rule: show_nat.induct)
  case (1 n)
  show ?case
  proof (cases "n < 10")
    case True
    with 1 show ?thesis by (simp add: show_nat.simps [of n])
  next
    case False
    with 1(2,3) obtain j where k: "k = Suc j" "0 < j"
      by (cases k; cases "k - 1") auto
    with 1(2) have "n div 10 < 10 ^ j" by (simp add: div_less_iff_less_mult mult.commute)
    with 1(1) [OF False this k(2)] False k show ?thesis by (simp add: show_nat.simps [of n])
  qed
qed

lemma show_nat_inj: "show_nat m = show_nat n \<longleftrightarrow> m = n"
  by (metis digits_value_show_nat)

end
