(* ===== verification/Content.thy ===== *)
theory Content
  imports CString "HOL-Library.Multiset"
begin

text \<open>
  The content library \<open>content.c\<close>: \<open>content_init\<close> reads the index file line by line into
  a growing array of items (descriptor and 256-byte key), \<open>qsort\<close>s it, \<open>content_get\<close>
  binary-searches it, \<open>content_destroy\<close> closes the descriptors. The operating system is
  represented by the bytes of the index file, a function from paths to the descriptors
  \<open>open\<close> returns, and the table of open descriptors with their contents and offsets.
\<close>

section \<open>Descriptors\<close>

record filesys =
  fdata :: "int \<rightharpoonup> char list"   \<comment> \<open>open descriptors and the bytes of their files\<close>
  foff :: "int \<Rightarrow> nat"            \<comment> \<open>file offsets\<close>

definition lseek_set :: "filesys \<Rightarrow> int \<Rightarrow> nat \<Rightarrow> filesys" where
  "lseek_set fs fd n = fs\<lparr>foff := (foff fs)(fd := n)\<rparr>"

definition close_fd :: "int \<Rightarrow> filesys \<Rightarrow> filesys" where
  "close_fd fd fs = fs\<lparr>fdata := (fdata fs)(fd := None)\<rparr>"

section \<open>State of the library\<close>

record item_t =
  fildes :: int
  key :: block

text \<open>The two static variables; \<open>items\<close> is \<open>None\<close> when it points to no live array.\<close>

record content_state =
  nitems :: int
  items :: "item_t list option"

definition MAX_KEYLEN :: nat where
  "MAX_KEYLEN = 256"

definition key_of :: "item_t \<Rightarrow> string" where
  "key_of it = (case cstr_at (key it) 0 of Inl _ \<Rightarrow> [] | Inr s \<Rightarrow> s)"

definition itemcmp :: "item_t \<Rightarrow> item_t \<Rightarrow> int" where
  "itemcmp a b = strcmp (key_of a) (key_of b)"

section \<open>Reading the index file\<close>

definition newline :: char where
  "newline = CHR 0x0A"

text \<open>\<open>fgets\<close> with a buffer of \<open>sz\<close> bytes on the bytes not read yet.\<close>

definition fgets :: "nat \<Rightarrow> string \<Rightarrow> (string \<times> string) option" where
  "fgets sz s =
     (if s = [] then None
      else let n = min (Suc (length (takeWhile (\<lambda>c. c \<noteq> newline) s))) (min (sz - 1) (length s))
           in Some (take n s, drop n s))"

definition blanks :: string where
  "blanks = [CHR '' '', CHR 0x09]"

text \<open>The body of the loop up to \<open>open\<close>, for one line in the block of its item.\<close>

definition load_item :: "(string \<Rightarrow> int) \<Rightarrow> block \<Rightarrow> string \<Rightarrow> cfault + item_t" where
  "load_item open_ro blk line =
     bindE (strcpy_to blk 0 line) (\<lambda>b1.
     bindE (strlen_at b1 0) (\<lambda>n.
     bindE (assertE Out_of_bounds (n \<noteq> 0)) (\<lambda>_.
     let b2 = b1[n - 1 := NUL] in
     bindE (strsep_at b2 (Some 0) blanks) (\<lambda>(_, p1, b3).
     bindE (strsep_at b3 p1 blanks) (\<lambda>(p, _, b4).
     bindE (case p of None \<Rightarrow> Inr (- 1) | Some i \<Rightarrow> bindE (cstr_at b4 i) (\<lambda>path. Inr (open_ro path))) (\<lambda>fd.
     if fd < 0 then Inl (Exit_program 1) else Inr \<lparr>fildes = fd, key = b4\<rparr>))))))"

text \<open>The loop; \<open>capacity\<close> is the size of the allocated array.\<close>

function content_load :: "(string \<Rightarrow> int) \<Rightarrow> (nat \<Rightarrow> nat \<Rightarrow> char) \<Rightarrow> string \<Rightarrow> item_t list \<Rightarrow> int \<Rightarrow>
    cfault + item_t list \<times> int" where
  "content_load open_ro junk rest its capacity =
     bindE (assertE Out_of_bounds (int (length its) < capacity)) (\<lambda>_.
     case fgets MAX_KEYLEN rest of
       None \<Rightarrow> Inr (its, capacity)
     | Some (line, rest') \<Rightarrow>
         bindE (load_item open_ro (fresh_block (junk (length its)) MAX_KEYLEN) line) (\<lambda>it.
         bindE (c_int (int (length its) + 1)) (\<lambda>n.
         if n = capacity
         then bindE (c_int (capacity * 2)) (\<lambda>capacity'.
                content_load open_ro junk rest' (its @ [it]) capacity')
         else content_load open_ro junk rest' (its @ [it]) capacity)))"
  by pat_completeness auto
termination
  by (relation "measure (\<lambda>(_, _, rest, _). length rest)")
    (auto simp: fgets_def MAX_KEYLEN_def Let_def split: if_splits)

declare content_load.simps [simp del]

text \<open>\<open>qsort\<close> with a comparison function.\<close>

primrec qinsert :: "('a \<Rightarrow> 'a \<Rightarrow> int) \<Rightarrow> 'a \<Rightarrow> 'a list \<Rightarrow> 'a list" where
  "qinsert cmp x [] = [x]"
| "qinsert cmp x (y # ys) = (if cmp x y \<le> 0 then x # y # ys else y # qinsert cmp x ys)"

primrec qsort :: "('a \<Rightarrow> 'a \<Rightarrow> int) \<Rightarrow> 'a list \<Rightarrow> 'a list" where
  "qsort cmp [] = []"
| "qsort cmp (x # xs) = qinsert cmp x (qsort cmp xs)"

definition content_init :: "(string \<Rightarrow> int) \<Rightarrow> (nat \<Rightarrow> nat \<Rightarrow> char) \<Rightarrow> string option \<Rightarrow>
    cfault + content_state" where
  "content_init open_ro junk filelist =
     (case filelist of
        None \<Rightarrow> Inl (Exit_program 1)
      | Some bytes \<Rightarrow>
          bindE (content_load open_ro junk bytes [] 16) (\<lambda>(its, _).
            Inr \<lparr>nitems = int (length its), items = Some (qsort itemcmp its)\<rparr>))"

section \<open>Lookup\<close>

definition compare_key :: "string option \<Rightarrow> item_t \<Rightarrow> cfault + int" where
  "compare_key k it =
     (case k of None \<Rightarrow> Inl Null_deref
      | Some s \<Rightarrow> bindE (cstr_at (key it) 0) (\<lambda>t. Inr (strcmp s t)))"

text \<open>The search loop: the index where the key was found.\<close>

function content_search :: "item_t list option \<Rightarrow> string option \<Rightarrow> int \<Rightarrow> int \<Rightarrow> cfault + nat option" where
  "content_search arr k lo hi =
     (if lo \<le> hi then
        let mid = lo + (hi - lo) div 2 in
        case arr of
          None \<Rightarrow> Inl Use_after_free
        | Some its \<Rightarrow>
            bindE (assertE Out_of_bounds (0 \<le> mid \<and> mid < int (length its))) (\<lambda>_.
            bindE (compare_key k (its ! nat mid)) (\<lambda>cmp.
            if cmp < 0 then content_search arr k lo (mid - 1)
            else if cmp > 0 then content_search arr k (mid + 1) hi
            else Inr (Some (nat mid))))
      else Inr None)"
  by pat_completeness auto
termination
  by (relation "measure (\<lambda>(_, _, lo, hi). nat (hi - lo + 1))") auto

declare content_search.simps [simp del]

definition content_get :: "content_state \<Rightarrow> string option \<Rightarrow> filesys \<Rightarrow> cfault + int \<times> filesys" where
  "content_get c k fs =
     bindE (content_search (items c) k 0 (nitems c - 1)) (\<lambda>r.
       case r of
         None \<Rightarrow> Inr (- 1, fs)
       | Some i \<Rightarrow> let fd = fildes (the (items c) ! i) in Inr (fd, lseek_set fs fd 0))"

definition content_destroy :: "content_state \<Rightarrow> filesys \<Rightarrow> cfault + content_state \<times> filesys" where
  "content_destroy c fs =
     bindE (case items c of
              None \<Rightarrow> if 0 < nitems c then Inl Use_after_free else Inr fs
            | Some its \<Rightarrow> Inr (fold (\<lambda>it. close_fd (fildes it)) (take (nat (nitems c)) its) fs))
       (\<lambda>fs'. Inr (c\<lparr>items := None\<rparr>, fs'))"

section \<open>What one line of the index becomes\<close>

definition nonblank :: "char \<Rightarrow> bool" where
  "nonblank c \<longleftrightarrow> c \<notin> set blanks"

text \<open>The key and, after the first blank, the path.\<close>

definition split_line :: "string \<Rightarrow> string \<times> string option" where
  "split_line l =
     (takeWhile nonblank l,
      case dropWhile nonblank l of [] \<Rightarrow> None | _ # r \<Rightarrow> Some (takeWhile nonblank r))"

lemma blanks_not_NUL: "c \<in> set blanks \<Longrightarrow> c \<noteq> NUL"
  by (auto simp: blanks_def)

lemma takeWhile_nonblank: "set (takeWhile nonblank l) \<inter> set blanks = {}"
  by (auto simp: nonblank_def dest: set_takeWhileD)

lemma takeWhile_NUL: "NUL \<notin> set l \<Longrightarrow> NUL \<notin> set (takeWhile P l)"
  by (auto dest: set_takeWhileD)

lemma dropWhile_Cons_blank: "dropWhile nonblank l = d # r \<Longrightarrow> d \<in> set blanks"
  by (metis hd_dropWhile list.distinct(1) list.sel(1) nonblank_def)

lemma key_of_known: "key it = s @ NUL # post \<Longrightarrow> NUL \<notin> set s \<Longrightarrow> key_of it = s"
  by (simp add: key_of_def cstr_at_start)

lemma load_item_start:
  assumes "line \<noteq> []" and "NUL \<notin> set line" and "length line < length blk"
  shows "\<exists>post. load_item open_ro blk line =
    bindE (strsep_at (butlast line @ NUL # NUL # post) (Some 0) blanks) (\<lambda>(_, p1, b3).
     bindE (strsep_at b3 p1 blanks) (\<lambda>(p, _, b4).
     bindE (case p of None \<Rightarrow> Inr (- 1) | Some i \<Rightarrow> bindE (cstr_at b4 i) (\<lambda>path. Inr (open_ro path))) (\<lambda>fd.
     if fd < 0 then Inl (Exit_program 1) else Inr \<lparr>fildes = fd, key = b4\<rparr>)))"
proof -
  obtain l x where l: "line = l @ [x]" using assms(1) by (cases line rule: rev_cases) auto
  have "strcpy_to blk 0 line = Inr (line @ NUL # drop (Suc (length line)) blk)"
    using assms by (simp add: strcpy_to_start)
  moreover have "(l @ x # NUL # post)[length l := NUL] = l @ NUL # NUL # post" for post
    by (simp add: list_update_append)
  moreover have "strlen_at (l @ x # NUL # post) 0 = Inr (Suc (length l))" for post
    using assms(2) l strlen_at_start [of "l @ [x]" post] by simp
  ultimately show ?thesis
    using l by (auto simp: load_item_def)
qed

lemma load_item_spec:
  assumes "line \<noteq> []" and nn: "NUL \<notin> set line" and "length line < length blk"
  shows "case split_line (butlast line) of
      (k, None) \<Rightarrow> load_item open_ro blk line = Inl (Exit_program 1)
    | (k, Some path) \<Rightarrow>
        if open_ro path < 0 then load_item open_ro blk line = Inl (Exit_program 1)
        else \<exists>it. load_item open_ro blk line = Inr it \<and> key_of it = k \<and> fildes it = open_ro path \<and>
               NUL \<in> set (key it)"
proof -
  let ?l = "butlast line"
  let ?k = "takeWhile nonblank ?l"
  obtain post where start: "load_item open_ro blk line =
    bindE (strsep_at (?l @ NUL # NUL # post) (Some 0) blanks) (\<lambda>(_, p1, b3).
     bindE (strsep_at b3 p1 blanks) (\<lambda>(p, _, b4).
     bindE (case p of None \<Rightarrow> Inr (- 1) | Some i \<Rightarrow> bindE (cstr_at b4 i) (\<lambda>path. Inr (open_ro path))) (\<lambda>fd.
     if fd < 0 then Inl (Exit_program 1) else Inr \<lparr>fildes = fd, key = b4\<rparr>)))"
    using load_item_start [OF assms] by blast
  have lnn: "NUL \<notin> set ?l" using nn by (meson in_set_butlastD)
  note k = takeWhile_nonblank [of ?l] takeWhile_NUL [OF lnn, of nonblank]
  show ?thesis
  proof (cases "dropWhile nonblank ?l")
    case Nil
    then have "?k = ?l" by (metis append.right_neutral takeWhile_dropWhile_id)
    with k Nil show ?thesis
      using strsep_at_end [of 0 "[]" ?l blanks "NUL # post"]
      by (simp add: start split_line_def strsep_at_null del: dropWhile_eq_Nil_conv takeWhile_eq_all_conv)
  next
    case (Cons d r)
    let ?p = "takeWhile nonblank r"
    have l: "?l = ?k @ d # r" using Cons by (metis takeWhile_dropWhile_id)
    have d: "d \<in> set blanks" "d \<noteq> NUL" using Cons dropWhile_Cons_blank blanks_not_NUL by auto
    have rnn: "NUL \<notin> set r" using lnn l by (metis UnCI list.set_intros(2) set_append)
    note p = takeWhile_nonblank [of r] takeWhile_NUL [OF rnn, of nonblank]
    have s1: "strsep_at (?l @ NUL # NUL # post) (Some 0) blanks =
        Inr (Some 0, Some (Suc (length ?k)), (?k @ [NUL]) @ r @ NUL # NUL # post)"
      by (subst l) (use strsep_at_delim [of 0 "[]" ?k blanks d "r @ NUL # NUL # post"] k d in simp)
    have "\<exists>q post'. strsep_at ((?k @ [NUL]) @ r @ NUL # NUL # post) (Some (Suc (length ?k))) blanks =
        Inr (Some (Suc (length ?k)), q, (?k @ [NUL]) @ ?p @ NUL # post')"
    proof (cases "dropWhile nonblank r")
      case Nil
      then have "?p = r" by (metis append.right_neutral takeWhile_dropWhile_id)
      with p show ?thesis
        using strsep_at_end [of "Suc (length ?k)" "?k @ [NUL]" r blanks "NUL # post"]
        by (intro exI [of _ None] exI [of _ "NUL # post"]) (simp del: takeWhile_eq_all_conv)
    next
      case (Cons e r')
      then have r: "r = ?p @ e # r'" and e: "e \<in> set blanks" "e \<noteq> NUL"
        using dropWhile_Cons_blank blanks_not_NUL by (metis takeWhile_dropWhile_id)+
      have "strsep_at ((?k @ [NUL]) @ ?p @ e # (r' @ NUL # NUL # post)) (Some (Suc (length ?k))) blanks =
          Inr (Some (Suc (length ?k)), Some (Suc (Suc (length ?k) + length ?p)),
            (?k @ [NUL]) @ ?p @ NUL # r' @ NUL # NUL # post)"
        by (rule strsep_at_delim) (use p e in auto)
      then show ?thesis using r by (metis append.assoc append_Cons)
    qed
    then obtain q post' where s2:
      "strsep_at ((?k @ [NUL]) @ r @ NUL # NUL # post) (Some (Suc (length ?k))) blanks =
        Inr (Some (Suc (length ?k)), q, (?k @ [NUL]) @ ?p @ NUL # post')" by blast
    have c: "cstr_at ((?k @ [NUL]) @ ?p @ NUL # post') (Suc (length ?k)) = Inr ?p"
      by (rule cstr_at_known) (use p in auto)
    have "key_of \<lparr>fildes = fd, key = (?k @ [NUL]) @ ?p @ NUL # post'\<rparr> = ?k" for fd
      by (rule key_of_known) (use k in auto)
    then show ?thesis
      using Cons s1 s2 c by (simp add: start split_line_def del: append_assoc)
  qed
qed

section \<open>The whole index\<close>

text \<open>The lines \<open>fgets\<close> delivers.\<close>

function index_lines :: "string \<Rightarrow> string list" where
  "index_lines s = (case fgets MAX_KEYLEN s of None \<Rightarrow> [] | Some (l, r) \<Rightarrow> l # index_lines r)"
  by pat_completeness auto
termination
  by (relation "measure length") (auto simp: fgets_def MAX_KEYLEN_def Let_def split: if_splits)

declare index_lines.simps [simp del]

lemma fgets_Some:
  "fgets MAX_KEYLEN s = Some (l, r) \<Longrightarrow> s = l @ r \<and> l \<noteq> [] \<and> length l < MAX_KEYLEN"
  by (cases s) (auto simp: fgets_def MAX_KEYLEN_def Let_def min_def split: if_splits)

lemma takeWhile_to: "x \<notin> set l \<Longrightarrow> takeWhile (\<lambda>c. c \<noteq> x) (l @ x # r) = l"
  by (induction l) auto

lemma fgets_line:
  "newline \<notin> set l \<Longrightarrow> length l < 255 \<Longrightarrow> fgets MAX_KEYLEN (l @ newline # r) = Some (l @ [newline], r)"
  by (simp add: fgets_def MAX_KEYLEN_def Let_def takeWhile_to)

text \<open>The pairs of key and path the lines name; a line with no blank names none.\<close>

definition line_entry :: "(string \<Rightarrow> int) \<Rightarrow> string \<Rightarrow> (string \<times> int) option" where
  "line_entry open_ro line =
     (case split_line (butlast line) of
        (k, None) \<Rightarrow> None
      | (k, Some p) \<Rightarrow> if open_ro p < 0 then None else Some (k, open_ro p))"

definition entry_of :: "item_t \<Rightarrow> string \<times> int" where
  "entry_of it = (key_of it, fildes it)"

definition items_ok :: "item_t list \<Rightarrow> bool" where
  "items_ok its \<longleftrightarrow> (\<forall>it \<in> set its. NUL \<in> set (key it) \<and> 0 \<le> fildes it)"

lemma load_item_entry:
  assumes "line \<noteq> []" and "NUL \<notin> set line" and "length line < length blk"
  shows "case line_entry open_ro line of
      None \<Rightarrow> load_item open_ro blk line = Inl (Exit_program 1)
    | Some e \<Rightarrow> \<exists>it. load_item open_ro blk line = Inr it \<and> entry_of it = e \<and> items_ok [it]"
  using load_item_spec [OF assms, of open_ro]
  by (auto simp: line_entry_def entry_of_def items_ok_def split: option.splits prod.splits if_splits)

lemma content_load_spec:
  assumes "NUL \<notin> set rest" and "int (length its) < cap" and "items_ok its"
  shows "case content_load open_ro junk rest its cap of
      Inr (its', cap') \<Rightarrow> int (length its') < cap' \<and> items_ok its' \<and>
        map Some (map entry_of its') = map Some (map entry_of its) @ map (line_entry open_ro) (index_lines rest)
    | Inl e \<Rightarrow> e = Signed_overflow \<and> 2 ^ 30 \<le> length its + length (index_lines rest) \<or>
        e = Exit_program 1 \<and> None \<in> set (map (line_entry open_ro) (index_lines rest))"
  using assms
proof (induction open_ro junk rest its cap rule: content_load.induct)
  case (1 open_ro junk rest its cap)
  show ?case
  proof (cases "fgets MAX_KEYLEN rest")
    case None
    with 1 show ?thesis by (simp add: content_load.simps [of open_ro junk rest] index_lines.simps [of rest])
  next
    case (Some p)
    obtain l r where p: "p = (l, r)" by (cases p)
    let ?blk = "fresh_block (junk (length its)) MAX_KEYLEN"
    note f = fgets_Some [OF Some [unfolded p]]
    have nn: "NUL \<notin> set l" "NUL \<notin> set r" using 1(3) f by auto
    have ls: "index_lines rest = l # index_lines r"
      using Some p by (simp add: index_lines.simps [of rest])
    have len: "length l < length ?blk" using f by simp
    have le: "case line_entry open_ro l of
        None \<Rightarrow> load_item open_ro ?blk l = Inl (Exit_program 1)
      | Some e \<Rightarrow> \<exists>it. load_item open_ro ?blk l = Inr it \<and> entry_of it = e \<and> items_ok [it]"
      by (rule load_item_entry) (use f nn len in auto)
    show ?thesis
    proof (cases "line_entry open_ro l")
      case None
      with le Some p ls 1(4) show ?thesis by (simp add: content_load.simps [of open_ro junk rest])
    next
      case e: (Some e)
      with le obtain it where it: "load_item open_ro ?blk l = Inr it" "entry_of it = e" "items_ok [it]"
        by auto
      have ok: "items_ok (its @ [it])" using 1(5) it(3) by (auto simp: items_ok_def)
      have unf: "content_load open_ro junk rest its cap =
          bindE (c_int (int (length its) + 1)) (\<lambda>n.
            if n = cap then bindE (c_int (cap * 2)) (content_load open_ro junk r (its @ [it]))
            else content_load open_ro junk r (its @ [it]) cap)"
        using Some p it(1) 1(4) by (simp add: content_load.simps [of open_ro junk rest])
      show ?thesis
      proof (cases "c_int (int (length its) + 1)")
        case (Inl x)
        then have "x = Signed_overflow" "2 ^ 30 \<le> length its + 1"
          by (auto simp: c_int_def int_max_def split: if_splits)
        then show ?thesis by (simp add: unf Inl ls)
      next
        case n: (Inr n)
        then have n': "n = int (length its) + 1" by (simp add: c_int_eq_Inr)
        show ?thesis
        proof (cases "n = cap")
          case False
          have "int (length (its @ [it])) < cap" using 1(4) False n' by simp
          with 1(2) [OF _ Some p [symmetric] it(1) n False nn(2) _ ok] 1(4) show ?thesis
            by (auto simp: unf n False ls e it(2) split: sum.splits prod.splits)
        next
          case True
          show ?thesis
          proof (cases "c_int (cap * 2)")
            case (Inl x)
            then have "x = Signed_overflow" "2 ^ 30 \<le> length its + 1"
              using True n' by (auto simp: c_int_def int_max_def split: if_splits)
            then show ?thesis by (simp add: unf Inl n True ls)
          next
            case c: (Inr cap')
            then have "int (length (its @ [it])) < cap'" using True n' by (simp add: c_int_eq_Inr)
            with 1(1) [OF _ Some p [symmetric] it(1) n True c nn(2) _ ok] 1(4) show ?thesis
              by (auto simp: unf n True c ls e it(2) split: sum.splits prod.splits)
          qed
        qed
      qed
    qed
  qed
qed

section \<open>Sorting\<close>

lemma key_of_no_NUL: "NUL \<notin> set (key_of it)"
  by (cases "cstr_at (key it) 0") (auto simp: key_of_def dest: cstr_at_Inr)

lemma itemcmp_le: "itemcmp a b \<le> 0 \<longleftrightarrow> key_of a \<le> key_of b"
  using strcmp_less_0 [of "key_of b" "key_of a"] strcmp_gr_0 [of "key_of a" "key_of b"]
  by (simp add: itemcmp_def key_of_no_NUL not_less [symmetric] del: not_less)

lemma qsort_itemcmp: "qsort itemcmp its = sort_key key_of its"
proof -
  have "qinsert itemcmp x ys = insort_key key_of x ys" for x ys
    by (induction ys) (auto simp: itemcmp_le)
  then show ?thesis by (induction its) simp_all
qed

section \<open>Searching\<close>

text \<open>The state \<open>content_init\<close> leaves.\<close>

definition content_ok :: "content_state \<Rightarrow> bool" where
  "content_ok c \<longleftrightarrow>
     (case items c of None \<Rightarrow> False
      | Some its \<Rightarrow> nitems c = int (length its) \<and> sorted (map key_of its) \<and> items_ok its)"

definition entries :: "content_state \<Rightarrow> (string \<times> int) list" where
  "entries c = (case items c of None \<Rightarrow> [] | Some its \<Rightarrow> map entry_of its)"

lemma cstr_at_key_of: "NUL \<in> set (key it) \<Longrightarrow> cstr_at (key it) 0 = Inr (key_of it)"
  by (auto simp: key_of_def cstr_at_def strlen_at_def bindE_def span_len_Inl split: sum.splits)

lemma content_search_spec:
  assumes "sorted (map key_of its)" and "items_ok its" and "NUL \<notin> set s"
    and "0 \<le> lo" and "hi < int (length its)" and "lo \<le> hi + 1"
    and "\<forall>i < nat lo. key_of (its ! i) < s"
    and "\<forall>i < length its. hi < int i \<longrightarrow> s < key_of (its ! i)"
  shows "case content_search (Some its) (Some s) lo hi of
      Inr (Some i) \<Rightarrow> i < length its \<and> key_of (its ! i) = s
    | Inr None \<Rightarrow> s \<notin> key_of ` set its
    | Inl e \<Rightarrow> False"
  using assms(4-)
proof (induction "Some its" "Some s" lo hi rule: content_search.induct)
  case (1 lo hi)
  show ?case
  proof (cases "lo \<le> hi")
    case False
    then have "s \<noteq> key_of (its ! i)" if "i < length its" for i
      using 1(6,7) that False
      by (cases "int i < lo") (fastforce simp: zless_nat_eq_int_zless, force)
    then have "s \<notin> key_of ` set its" by (metis imageE in_set_conv_nth)
    then show ?thesis using False by (simp add: content_search.simps [of _ _ lo hi])
  next
    case True
    define mid where "mid = lo + (hi - lo) div 2"
    have mid: "lo \<le> mid" "mid \<le> hi" using True by (auto simp: mid_def)
    let ?x = "its ! nat mid"
    have bnd: "0 \<le> mid \<and> mid < int (length its)" and nmid: "nat mid < length its"
      using mid 1(3,4) by auto
    have key: "compare_key (Some s) ?x = Inr (strcmp s (key_of ?x))"
      using assms(2) nmid by (simp add: compare_key_def cstr_at_key_of items_ok_def)
    have le: "key_of (its ! i) \<le> key_of (its ! j)" if "i \<le> j" "j < length its" for i j
      using assms(1) that by (auto simp: sorted_iff_nth_mono)
    have unf: "content_search (Some its) (Some s) lo hi =
        (if strcmp s (key_of ?x) < 0 then content_search (Some its) (Some s) lo (mid - 1)
         else if 0 < strcmp s (key_of ?x) then content_search (Some its) (Some s) (mid + 1) hi
         else Inr (Some (nat mid)))"
      using True bnd key by (simp add: content_search.simps [of _ _ lo hi] mid_def [symmetric])
    show ?thesis
    proof (cases "strcmp s (key_of ?x) < 0")
      case less: True
      then have "s < key_of ?x" by (simp add: strcmp_less_0 assms(3) key_of_no_NUL)
      then have "s < key_of (its ! i)" if "i < length its" "mid - 1 < int i" for i
        using le [of "nat mid" i] that by (auto intro: order.strict_trans2)
      with 1(1) [OF True mid_def refl _ key less] bnd less 1(3,6) mid show ?thesis
        by (simp add: unf)
    next
      case ge: False
      show ?thesis
      proof (cases "0 < strcmp s (key_of ?x)")
        case gr: True
        then have "key_of ?x < s" by (simp add: strcmp_gr_0 assms(3) key_of_no_NUL)
        then have "key_of (its ! i) < s" if "i < nat (mid + 1)" for i
          using le [of i "nat mid"] that nmid bnd
          by (cases "i \<le> nat mid") (auto intro: order.strict_trans1)
        with 1(2) [OF True mid_def refl _ key ge gr] bnd gr 1(4,7) mid show ?thesis
          by (simp add: unf)
      next
        case False
        with ge have "strcmp s (key_of ?x) = 0" by simp
        then have "s = key_of ?x" using strcmp_eq_0 assms(3) key_of_no_NUL by blast
        moreover have "content_search (Some its) (Some s) lo hi = Inr (Some (nat mid))"
          using ge False by (simp add: unf)
        ultimately show ?thesis using nmid by simp
      qed
    qed
  qed
qed

section \<open>The two entry points\<close>

lemma entries_ok:
  "content_ok c \<Longrightarrow> \<exists>its. items c = Some its \<and> nitems c = int (length its) \<and>
     sorted (map key_of its) \<and> items_ok its \<and> entries c = map entry_of its"
  by (auto simp: content_ok_def entries_def split: option.splits)

lemma content_get_hit:
  assumes "content_ok c" and "NUL \<notin> set s" and "s \<in> fst ` set (entries c)"
  shows "\<exists>fd. content_get c (Some s) fs = Inr (fd, lseek_set fs fd 0) \<and> (s, fd) \<in> set (entries c) \<and> 0 \<le> fd"
proof -
  from entries_ok [OF assms(1)] obtain its where its: "items c = Some its" "nitems c = int (length its)"
    "sorted (map key_of its)" "items_ok its" "entries c = map entry_of its" by blast
  have "s \<in> key_of ` set its" using assms(3) its(5) by (auto simp: entry_of_def)
  with content_search_spec [OF its(3,4) assms(2), of 0 "nitems c - 1"] its(2)
  obtain i where "content_search (Some its) (Some s) 0 (nitems c - 1) = Inr (Some i)"
    "i < length its" "key_of (its ! i) = s"
    by (auto split: sum.splits option.splits)
  moreover have "(s, fildes (its ! i)) \<in> set (entries c)" "0 \<le> fildes (its ! i)"
    using calculation its(4,5) by (auto simp: entry_of_def items_ok_def)
  ultimately show ?thesis by (simp add: content_get_def its(1) Let_def)
qed

lemma content_get_miss:
  assumes "content_ok c" and "NUL \<notin> set s" and "s \<notin> fst ` set (entries c)"
  shows "content_get c (Some s) fs = Inr (- 1, fs)"
proof -
  from entries_ok [OF assms(1)] obtain its where its: "items c = Some its" "nitems c = int (length its)"
    "sorted (map key_of its)" "items_ok its" "entries c = map entry_of its" by blast
  have "s \<notin> key_of ` set its" using assms(3) its(5) by (auto simp: entry_of_def image_image)
  with content_search_spec [OF its(3,4) assms(2), of 0 "nitems c - 1"] its(2)
  have "content_search (Some its) (Some s) 0 (nitems c - 1) = Inr None"
    by (auto split: sum.splits option.splits)
  then show ?thesis by (simp add: content_get_def its(1))
qed

lemma content_init_spec:
  assumes "NUL \<notin> set bytes"
  shows "case content_init open_ro junk (Some bytes) of
      Inr c \<Rightarrow> content_ok c \<and>
        image_mset Some (mset (entries c)) = mset (map (line_entry open_ro) (index_lines bytes))
    | Inl e \<Rightarrow> e = Signed_overflow \<and> 2 ^ 30 \<le> length (index_lines bytes) \<or>
        e = Exit_program 1 \<and> None \<in> set (map (line_entry open_ro) (index_lines bytes))"
proof -
  note l = content_load_spec [of bytes "[]" 16 open_ro junk, simplified]
  show ?thesis
  proof (cases "content_load open_ro junk bytes [] 16")
    case (Inl e)
    with l assms show ?thesis by (simp add: content_init_def items_ok_def)
  next
    case (Inr r)
    obtain its cap where r: "r = (its, cap)" by (cases r)
    from Inr r l assms have ok: "items_ok its"
      and m: "map (Some \<circ> entry_of) its = map (line_entry open_ro) (index_lines bytes)"
      by (auto simp: items_ok_def)
    have "items_ok (sort_key key_of its)" using ok by (simp add: items_ok_def)
    moreover have "image_mset Some (mset (map entry_of (sort_key key_of its))) =
        mset (map (line_entry open_ro) (index_lines bytes))"
      by (simp add: m [symmetric] multiset.map_comp)
    ultimately show ?thesis
      by (simp add: content_init_def Inr r content_ok_def entries_def qsort_itemcmp)
  qed
qed

lemma content_get_null:
  assumes "items c = Some its" and "nitems c = int (length its)" and "its \<noteq> []"
  shows "content_get c None fs = Inl Null_deref"
proof -
  have "0 \<le> nitems c - 1" "(nitems c - 1) div 2 < int (length its)"
    using assms by (cases its; auto)+
  then show ?thesis
    using assms by (simp add: content_get_def content_search.simps [of _ _ 0] compare_key_def)
qed

lemma fdata_close_all: "fdata (fold (\<lambda>it. close_fd (fildes it)) its fs) = fdata fs |` (- fildes ` set its)"
  by (induction its arbitrary: fs) (auto simp: close_fd_def restrict_map_def fun_eq_iff)

section \<open>Index files as they are meant to be written\<close>

definition render_entry :: "string \<times> string \<Rightarrow> string" where
  "render_entry e = fst e @ CHR '' '' # snd e @ [newline]"

definition word_ok :: "string \<Rightarrow> bool" where
  "word_ok w \<longleftrightarrow> (\<forall>c \<in> set w. c \<noteq> NUL \<and> c \<noteq> newline \<and> nonblank c)"

definition entry_ok :: "string \<times> string \<Rightarrow> bool" where
  "entry_ok e \<longleftrightarrow> word_ok (fst e) \<and> word_ok (snd e) \<and> length (fst e) + length (snd e) < 254"

lemma newline_neq: "newline \<noteq> NUL" "nonblank newline" "newline \<noteq> CHR '' ''" "\<not> nonblank (CHR '' '')"
  by (simp_all add: newline_def nonblank_def blanks_def)

lemma word_ok_takeWhile: "word_ok w \<Longrightarrow> takeWhile nonblank w = w \<and> dropWhile nonblank w = []"
  by (simp add: word_ok_def)

lemma word_ok_split:
  "word_ok w \<Longrightarrow> takeWhile nonblank (w @ CHR '' '' # r) = w \<and> dropWhile nonblank (w @ CHR '' '' # r) = CHR '' '' # r"
  by (induction w) (auto simp: word_ok_def newline_neq)

lemma word_ok_no_newline: "word_ok w \<Longrightarrow> newline \<notin> set w"
  by (auto simp: word_ok_def)

lemma render_NUL: "entry_ok e \<Longrightarrow> NUL \<notin> set (render_entry e)"
  using newline_neq(1) by (auto simp: render_entry_def entry_ok_def word_ok_def)

lemma index_lines_render: "\<forall>e \<in> set es. entry_ok e \<Longrightarrow> index_lines (concat (map render_entry es)) = map render_entry es"
proof (induction es)
  case Nil
  show ?case by (simp add: index_lines.simps [of "[]"] fgets_def)
next
  case (Cons e es)
  let ?l = "fst e @ CHR '' '' # snd e"
  have "entry_ok e" using Cons.prems by simp
  then have "newline \<notin> set ?l" "length ?l < 255"
    by (simp_all add: entry_ok_def word_ok_no_newline newline_neq)
  then have "fgets MAX_KEYLEN (?l @ newline # concat (map render_entry es)) =
      Some (?l @ [newline], concat (map render_entry es))" by (rule fgets_line)
  then have "index_lines (?l @ newline # concat (map render_entry es)) =
      (?l @ [newline]) # index_lines (concat (map render_entry es))"
    by (subst index_lines.simps) (simp del: append_assoc append_Cons)
  moreover have "render_entry e = ?l @ [newline]" by (simp add: render_entry_def)
  ultimately show ?case using Cons by simp
qed

lemma line_entry_render:
  "entry_ok (k, p) \<Longrightarrow> 0 \<le> open_ro p \<Longrightarrow> line_entry open_ro (render_entry (k, p)) = Some (k, open_ro p)"
  by (simp add: line_entry_def render_entry_def butlast_append split_line_def entry_ok_def
      word_ok_split word_ok_takeWhile del: takeWhile_append dropWhile_append)

lemma content_init_render:
  assumes "\<forall>e \<in> set es. entry_ok e \<and> 0 \<le> open_ro (snd e)" and "length es < 2 ^ 30"
  shows "\<exists>c. content_init open_ro junk (Some (concat (map render_entry es))) = Inr c \<and> content_ok c \<and>
    mset (entries c) = mset (map (\<lambda>(k, p). (k, open_ro p)) es)"
proof -
  let ?b = "concat (map render_entry es)"
  have nn: "NUL \<notin> set ?b" using assms(1) render_NUL by (auto simp: in_set_conv_nth)
  have ls: "index_lines ?b = map render_entry es" using assms(1) by (intro index_lines_render) auto
  have le: "map (line_entry open_ro) (map render_entry es) = map (Some \<circ> (\<lambda>(k, p). (k, open_ro p))) es"
    using assms(1) by (auto simp: line_entry_render)
  have "None \<notin> set (map (line_entry open_ro) (map render_entry es))" unfolding le by auto
  with content_init_spec [OF nn, of open_ro junk] assms(2) obtain c where
    c: "content_init open_ro junk (Some ?b) = Inr c" "content_ok c"
    "image_mset Some (mset (entries c)) = mset (map (Some \<circ> (\<lambda>(k, p). (k, open_ro p))) es)"
    unfolding ls le by (auto split: sum.splits)
  have "image_mset Some (mset (entries c)) = image_mset Some (mset (map (\<lambda>(k, p). (k, open_ro p)) es))"
    using c(3) by (simp add: multiset.map_comp)
  then have "image_mset the (image_mset Some (mset (entries c))) =
      image_mset the (image_mset Some (mset (map (\<lambda>(k, p). (k, open_ro p)) es)))" by simp
  then have "mset (entries c) = mset (map (\<lambda>(k, p). (k, open_ro p)) es)"
    by (simp add: multiset.map_comp comp_def)
  with c show ?thesis by blast
qed

section \<open>Properties\<close>

text \<open>
  C20: For an index file of lines \<open>key path\<close> with different keys, every file of which can
  be opened, \<open>content_init\<close> succeeds; \<open>content_get\<close> then returns for each key the
  descriptor of the file its line names, rewound, and \<open>-1\<close> for every other key.
\<close>

theorem content_roundtrip:
  assumes "\<forall>e \<in> set es. entry_ok e \<and> 0 \<le> open_ro (snd e)" and "length es < 2 ^ 30"
    and "distinct (map fst es)"
  shows "\<exists>c. content_init open_ro junk (Some (concat (map render_entry es))) = Inr c \<and>
    (\<forall>k p. (k, p) \<in> set es \<longrightarrow> content_get c (Some k) fs = Inr (open_ro p, lseek_set fs (open_ro p) 0)) \<and>
    (\<forall>k. NUL \<notin> set k \<longrightarrow> k \<notin> fst ` set es \<longrightarrow> content_get c (Some k) fs = Inr (- 1, fs))"
proof -
  from content_init_render [OF assms(1,2)] obtain c where
    c: "content_init open_ro junk (Some (concat (map render_entry es))) = Inr c" "content_ok c"
    and m: "mset (entries c) = mset (map (\<lambda>(k, p). (k, open_ro p)) es)" by blast
  have set: "set (entries c) = (\<lambda>(k, p). (k, open_ro p)) ` set es"
    using m by (metis set_map set_mset_mset)
  have keys: "fst ` set (entries c) = fst ` set es" unfolding set by (force simp: image_image)
  have hit: "content_get c (Some k) fs = Inr (open_ro p, lseek_set fs (open_ro p) 0)"
    if kp: "(k, p) \<in> set es" for k p
  proof -
    have "NUL \<notin> set k" using assms(1) kp by (force simp: entry_ok_def word_ok_def)
    moreover have "k \<in> fst ` set (entries c)" using kp by (force simp: keys)
    ultimately obtain fd where
      fd: "content_get c (Some k) fs = Inr (fd, lseek_set fs fd 0)" "(k, fd) \<in> set (entries c)"
      using content_get_hit [OF c(2)] by blast
    then obtain p' where "(k, p') \<in> set es" "fd = open_ro p'" by (auto simp: set)
    with fd(1) kp assms(3) show ?thesis by (metis eq_key_imp_eq_value)
  qed
  show ?thesis using c(1) hit content_get_miss [OF c(2)] by (metis keys)
qed

definition sample_open :: "string \<Rightarrow> int" where
  "sample_open p = (if p = ''x.txt'' then 5 else if p = ''y.txt'' then 6 else 7)"

theorem content_roundtrip_witness:
  "\<exists>c. content_init sample_open (\<lambda>_ _. CHR ''z'')
        (Some (render_entry (''/b'', ''x.txt'') @ render_entry (''/a'', ''y.txt''))) = Inr c \<and>
     content_get c (Some ''/a'') \<lparr>fdata = Map.empty, foff = (\<lambda>_. 8)\<rparr> =
       Inr (6, lseek_set \<lparr>fdata = Map.empty, foff = (\<lambda>_. 8)\<rparr> 6 0) \<and>
     content_get c (Some ''/c'') \<lparr>fdata = Map.empty, foff = (\<lambda>_. 8)\<rparr> =
       Inr (- 1, \<lparr>fdata = Map.empty, foff = (\<lambda>_. 8)\<rparr>)"
  using content_roundtrip [of "[(''/b'', ''x.txt''), (''/a'', ''y.txt'')]" sample_open "\<lambda>_ _. CHR ''z''"
      "\<lparr>fdata = Map.empty, foff = (\<lambda>_. 8)\<rparr>"]
  by (auto simp: entry_ok_def word_ok_def sample_open_def newline_def nonblank_def blanks_def)

text \<open>
  Whatever bytes the index file holds (NUL apart), loading it stays inside its array
  and its blocks: \<open>content_init\<close> either loads one entry per line, sorted by key, or exits
  because some line names a file that cannot be opened, or overflows the capacity after
  \<open>2^30\<close> lines. No other fault occurs.
\<close>

lemma content_init_total:
  assumes "NUL \<notin> set bytes"
  shows "case content_init open_ro junk (Some bytes) of
      Inr c \<Rightarrow> content_ok c \<and>
        image_mset Some (mset (entries c)) = mset (map (line_entry open_ro) (index_lines bytes))
    | Inl e \<Rightarrow> e = Signed_overflow \<and> 2 ^ 30 \<le> length (index_lines bytes) \<or>
        e = Exit_program 1 \<and> None \<in> set (map (line_entry open_ro) (index_lines bytes))"
  using assms by (rule content_init_spec)

text \<open>
  The binary search of \<open>content_get\<close> never leaves the sorted array and decides
  membership: on the state \<open>content_init\<close> leaves it returns the descriptor of an entry
  with the key when there is one, and \<open>-1\<close> without touching any file otherwise.
\<close>

lemma content_get_decides:
  assumes "content_ok c" and "NUL \<notin> set k"
  shows "\<exists>fd fs'. content_get c (Some k) fs = Inr (fd, fs') \<and>
    (if k \<in> fst ` set (entries c) then (k, fd) \<in> set (entries c) \<and> 0 \<le> fd \<and> fs' = lseek_set fs fd 0
     else fd = - 1 \<and> fs' = fs)"
  using content_get_hit [OF assms] content_get_miss [OF assms] by (cases "k \<in> fst ` set (entries c)") auto

text \<open>
  \<open>content_destroy\<close> closes exactly the descriptors of the entries, and the library
  must not be used afterwards: the item count is not reset, so the next lookup reads the
  freed array.
\<close>

lemma content_destroy_closes:
  assumes "content_ok c"
  shows "\<exists>c' fs'. content_destroy c fs = Inr (c', fs') \<and>
    fdata fs' = fdata fs |` (- snd ` set (entries c)) \<and>
    (entries c \<noteq> [] \<longrightarrow> content_get c' k fs' = Inl Use_after_free)"
proof -
  from entries_ok [OF assms] obtain its where its: "items c = Some its" "nitems c = int (length its)"
    "entries c = map entry_of its" by blast
  let ?fs = "fold (\<lambda>it. close_fd (fildes it)) its fs" and ?c = "c\<lparr>items := None\<rparr>"
  have "content_destroy c fs = Inr (?c, ?fs)" using its by (simp add: content_destroy_def)
  moreover have "fdata ?fs = fdata fs |` (- snd ` set (entries c))"
    by (simp add: fdata_close_all its(3) entry_of_def image_image)
  moreover have "entries c \<noteq> [] \<longrightarrow> content_get ?c k ?fs = Inl Use_after_free"
    using its by (cases its) (simp_all add: content_get_def content_search.simps [of _ _ 0])
  ultimately show ?thesis by blast
qed

text \<open>
  The last character of every line is overwritten with NUL, also when the line has no
  newline: the last entry of an index file without a final newline opens the path without
  its last character.
\<close>

lemma content_init_no_newline:
  assumes "entry_ok (k, p)" and "p \<noteq> []" and "0 \<le> open_ro (butlast p)"
  shows "\<exists>c. content_init open_ro junk (Some (k @ CHR '' '' # p)) = Inr c \<and>
    entries c = [(k, open_ro (butlast p))]"
proof -
  let ?l = "k @ CHR '' '' # p"
  have ok: "word_ok k" "word_ok p" "word_ok (butlast p)" and len: "length ?l < 255"
    using assms(1) by (auto simp: entry_ok_def word_ok_def dest: in_set_butlastD)
  have nn: "NUL \<notin> set ?l" using ok(1,2) by (auto simp: word_ok_def)
  have nl: "newline \<notin> set ?l" using ok(1,2) by (simp add: word_ok_no_newline newline_neq)
  have "takeWhile (\<lambda>c. c \<noteq> newline) ?l = ?l" 
    unfolding takeWhile_eq_all_conv using nl by blast
  then have "fgets MAX_KEYLEN ?l = Some (?l, [])"
    using len by (simp only: fgets_def MAX_KEYLEN_def) (simp add: Let_def)
  then have lines: "index_lines ?l = [?l]"
    by (subst index_lines.simps) (simp add: index_lines.simps [of "[]"] fgets_def)
  have bl: "butlast ?l = k @ CHR '' '' # butlast p" using assms(2) by (simp add: butlast_append)
  have "line_entry open_ro ?l = Some (k, open_ro (butlast p))"
    using assms(3) ok by (simp add: line_entry_def bl split_line_def word_ok_split word_ok_takeWhile
        del: takeWhile_append dropWhile_append)
  with content_init_spec [OF nn, of open_ro junk] lines obtain c where
    c: "content_init open_ro junk (Some ?l) = Inr c"
      "image_mset Some (mset (entries c)) = {#Some (k, open_ro (butlast p))#}"
    by (auto split: sum.splits)
  then have "entries c = [(k, open_ro (butlast p))]"
    by (cases "entries c") (auto simp: single_is_union add_eq_conv_diff)
  with c(1) show ?thesis by auto
qed

end
