(* ===== verification/Socket.thy ===== *)
theory Socket
  imports CString
begin

text \<open>
  Connections as the programs see them: a stream of bytes the peer will read, whether the
  descriptor is open, and how the kernel will answer the next \<open>write\<close> calls. Received
  data is a list of answers of \<open>recv\<close>: \<open>None\<close> is \<open>-1\<close>, \<open>Some []\<close> is the end of the
  stream. Reads at an offset (\<open>pread\<close>, or a buffer in memory) are described by the locale
  \<open>byte_source\<close>, which the transfer loops of several components use.
\<close>

section \<open>Connections\<close>

record conn =
  csent :: "char list"    \<comment> \<open>what has been accepted for the peer\<close>
  copen :: bool
  cplan :: "int list"     \<comment> \<open>answers to the next writes: \<open>-1\<close>, or how many bytes at most\<close>

definition sys_write :: "conn \<Rightarrow> char list \<Rightarrow> int \<times> conn" where
  "sys_write c data =
     (if \<not> copen c then (- 1, c)
      else case cplan c of
        [] \<Rightarrow> (int (length data), c\<lparr>csent := csent c @ data\<rparr>)
      | r # rs \<Rightarrow>
          if r < 0 then (- 1, c\<lparr>cplan := rs\<rparr>)
          else let k = min (nat r) (length data) in
            (int k, c\<lparr>csent := csent c @ take k data, cplan := rs\<rparr>))"

definition sys_close :: "conn \<Rightarrow> conn" where
  "sys_close c = c\<lparr>copen := False\<rparr>"

text \<open>A peer that takes everything at once.\<close>

definition willing :: "conn \<Rightarrow> bool" where
  "willing c \<longleftrightarrow> copen c \<and> cplan c = []"

lemma sys_write_willing [simp]:
  "willing c \<Longrightarrow> sys_write c d = (int (length d), c\<lparr>csent := csent c @ d\<rparr>)"
  by (simp add: sys_write_def willing_def)

lemma willing_sent [simp]: "willing (c\<lparr>csent := d\<rparr>) = willing c"
  by (simp add: willing_def)

lemma sys_write_closed [simp]: "\<not> copen c \<Longrightarrow> sys_write c d = (- 1, c)"
  by (simp add: sys_write_def)

lemma sys_write_prefix:
  "sys_write c d = (r, c') \<Longrightarrow>
   csent c' = csent c @ take (nat r) d \<and> copen c' = copen c \<and> r \<le> int (length d) \<and> - 1 \<le> r"
  by (auto simp: sys_write_def Let_def split: if_splits list.splits)

section \<open>recv\<close>

type_synonym recv_result = "char list option"

text \<open>The kernel stores at most as many bytes as the buffer it is given holds.\<close>

definition recv_into :: "block \<Rightarrow> recv_result \<Rightarrow> size_t \<times> block" where
  "recv_into b r =
     (case r of
        None \<Rightarrow> (- 1, b)
      | Some d \<Rightarrow> let d' = take (length b) d in (size_of_nat (length d'), d' @ drop (length d') b))"

lemma recv_into_Some [simp]:
  "length d \<le> length b \<Longrightarrow> recv_into b (Some d) = (size_of_nat (length d), d @ drop (length d) b)"
  by (simp add: recv_into_def Let_def)

lemma length_recv_into: "length (snd (recv_into b r)) = length b"
  by (auto simp: recv_into_def Let_def split: option.splits)

section \<open>Sources of bytes\<close>

text \<open>
  What a loop that copies a file in chunks relies on: an answer for offset \<open>off\<close> and
  count \<open>n\<close> is at most \<open>n\<close> bytes of the content, from \<open>off\<close> on. The source may
  also fail (\<open>None\<close>) or answer with nothing.
\<close>

locale byte_source =
  fixes read_at :: "nat \<Rightarrow> nat \<Rightarrow> char list option"
    and content :: "char list"
  assumes read_content: "read_at off n = Some d \<Longrightarrow> d = take (length d) (drop off content) \<and> length d \<le> n"
begin

lemma read_extends:
  assumes "read_at off n = Some d" and "off \<le> length content"
  shows "take off content @ d = take (off + length d) content \<and> off + length d \<le> length content"
proof -
  from read_content [OF assms(1)] have d: "d = take (length d) (drop off content)" by simp
  then have "length d \<le> length content - off" by (metis length_drop length_take min.cobounded1 min_def)
  moreover have "take off content @ take (length d) (drop off content) = take (off + length d) content"
    by (simp add: take_add)
  ultimately show ?thesis using d assms(2) by (metis add_le_cancel_left le_add_diff_inverse)
qed

end

text \<open>\<open>pread\<close> on a file: the plan says how many bytes at most the call at an offset returns.\<close>

definition sys_pread :: "(nat \<Rightarrow> nat option) \<Rightarrow> char list \<Rightarrow> nat \<Rightarrow> nat \<Rightarrow> char list option" where
  "sys_pread plan data off n =
     (case plan off of None \<Rightarrow> None | Some k \<Rightarrow> Some (take (min k n) (drop off data)))"

lemma take_length_take: "take (length (take k xs)) xs = take k xs"
  by (cases "k \<le> length xs") auto

interpretation pread: byte_source "sys_pread plan data" data for plan data
proof unfold_locales
  fix off n d assume "sys_pread plan data off n = Some d"
  then obtain k where "d = take (min k n) (drop off data)"
    by (auto simp: sys_pread_def split: option.splits)
  then show "d = take (length d) (drop off data) \<and> length d \<le> n"
    using take_length_take [of "min k n" "drop off data"] by simp
qed

end
