(* ===== verification/Gfserver.thy ===== *)
theory Gfserver
  imports Socket
begin

text \<open>
  The GETFILE server library \<open>gfserver.c\<close>: the replies (\<open>gfs_sendheader\<close>, \<open>gfs_send\<close>,
  \<open>gfs_abort\<close>), the options, and \<open>gfserver_serve\<close> with its parsing of a request out of
  the one receive buffer all connections share. The handler callback is a function on a
  state of its own.
\<close>

section \<open>Constants and messages\<close>

definition GF_OK :: int where "GF_OK = 200"

definition GF_FILE_NOT_FOUND :: int where "GF_FILE_NOT_FOUND = 400"

definition GF_ERROR :: int where "GF_ERROR = 500"

definition BUFSIZE :: nat where "BUFSIZE = 4096"

definition CR :: char where "CR = CHR 0x0D"

definition LF :: char where "LF = CHR 0x0A"

definition crlf2 :: string where "crlf2 = [CR, LF, CR, LF]"

definition error_reply :: string where
  "error_reply = ''GETFILE ERROR '' @ crlf2"

definition not_found_reply :: string where
  "not_found_reply = ''GETFILE FILE_NOT_FOUND '' @ crlf2"

section \<open>Replies\<close>

definition gfs_abort :: "conn \<Rightarrow> conn" where
  "gfs_abort ctx = sys_close ctx"

text \<open>\<open>sprintf\<close> into the 500-byte array, then the header block of 17 bytes more than the digits.\<close>

definition gfs_sendheader :: "(nat \<Rightarrow> char) \<Rightarrow> conn \<Rightarrow> int \<Rightarrow> size_t \<Rightarrow> cfault + int \<times> conn" where
  "gfs_sendheader junk ctx status file_len =
     (if status = GF_ERROR then
        let (sendSize, c1) = sys_write ctx (error_reply @ [NUL]) in Inr (sendSize, gfs_abort c1)
      else if status = GF_FILE_NOT_FOUND then
        let (sendSize, c1) = sys_write ctx (not_found_reply @ [NUL]) in Inr (sendSize, gfs_abort c1)
      else
        bindE (strcpy_to (fresh_block junk 500) 0 (show_nat (unat file_len))) (\<lambda>filesizestring.
        bindE (cstr_at filesizestring 0) (\<lambda>fs.
        bindE (strcpy_to (fresh_block junk (17 + length fs)) 0 ''GETFILE OK '') (\<lambda>h1.
        bindE (strcat_to h1 0 fs) (\<lambda>h2.
        bindE (strcat_to h2 0 crlf2) (\<lambda>h3.
        bindE (cstr_at h3 0) (\<lambda>header. Inr (sys_write ctx header))))))))"

text \<open>
  \<open>write\<close> of \<open>len\<close> bytes from a buffer. A count beyond \<open>SSIZE_MAX\<close> is refused by the
  kernel; any other count beyond the buffer reads past it.
\<close>

definition gfs_send :: "conn \<Rightarrow> block \<Rightarrow> size_t \<Rightarrow> cfault + int \<times> conn" where
  "gfs_send ctx data len =
     (if \<not> copen ctx \<or> 2 ^ 63 \<le> unat len then Inr (- 1, ctx)
      else bindE (get_bytes data 0 (unat len)) (\<lambda>d. Inr (sys_write ctx d)))"

section \<open>Server object\<close>

text \<open>The handler gets its own state, the connection and the path (\<open>None\<close> is a null pointer).\<close>

type_synonym 'w handler = "'w \<Rightarrow> conn \<Rightarrow> string option \<Rightarrow> cfault + int \<times> conn \<times> 'w"

record 'w gfserver_t =
  port :: "16 word"
  max_npending :: int
  handler :: "'w handler"

definition gfserver_set_port :: "'w gfserver_t \<Rightarrow> 16 word \<Rightarrow> 'w gfserver_t" where
  "gfserver_set_port gfs p = gfs\<lparr>port := p\<rparr>"

definition gfserver_set_maxpending :: "'w gfserver_t \<Rightarrow> int \<Rightarrow> 'w gfserver_t" where
  "gfserver_set_maxpending gfs n = gfs\<lparr>max_npending := n\<rparr>"

definition gfserver_set_handler :: "'w gfserver_t \<Rightarrow> 'w handler \<Rightarrow> 'w gfserver_t" where
  "gfserver_set_handler gfs h = gfs\<lparr>handler := h\<rparr>"

section \<open>One accepted connection\<close>

text \<open>What the environment does with it: the socket, two answers of \<open>recv\<close>, fresh memory.\<close>

record request_env =
  rq_conn :: conn
  rq_recv1 :: recv_result
  rq_recv2 :: recv_result
  rq_junk :: "nat \<Rightarrow> nat \<Rightarrow> char"

definition space :: string where "space = '' ''"

definition space_crlf :: string where "space_crlf = [CHR '' '', CR, LF]"

text \<open>The string a token pointer points to; a null pointer faults when it is followed.\<close>

definition token_string :: "block \<Rightarrow> nat option \<Rightarrow> cfault + string" where
  "token_string b t = (case t of None \<Rightarrow> Inl Null_deref | Some p \<Rightarrow> cstr_at b p)"

definition path_argument :: "block \<Rightarrow> nat option \<Rightarrow> cfault + string option" where
  "path_argument b t =
     (case t of None \<Rightarrow> Inr None | Some p \<Rightarrow> bindE (cstr_at b p) (\<lambda>s. Inr (Some s)))"

definition split_request :: "block \<Rightarrow> cfault + nat option \<times> nat option \<times> nat option \<times> block" where
  "split_request b =
     bindE (strtok_at b 0 space) (\<lambda>(scheme, p1, b1).
     bindE (strtok_at b1 p1 space) (\<lambda>(request, p2, b2).
     bindE (strtok_at b2 p2 space_crlf) (\<lambda>(filename, _, b3).
     Inr (scheme, request, filename, b3))))"

definition call_handler :: "'w handler \<Rightarrow> (nat \<Rightarrow> char) \<Rightarrow> 'w \<Rightarrow> conn \<Rightarrow> string option \<Rightarrow>
    cfault + conn \<times> 'w" where
  "call_handler h junk w ctx path =
     bindE (h w ctx path) (\<lambda>(bytestransferred, c1, w1).
       if bytestransferred < 0
       then bindE (gfs_sendheader junk c1 GF_ERROR 0) (\<lambda>(_, c2). Inr (c2, w1))
       else Inr (c1, w1))"

text \<open>
  The body of the accept loop. The header is taken to be incomplete when only the first
  12 bytes arrived, or when what follows the file name (the marker) has one character that
  is no space or four that are not the end of the header. Comparing the marker pointer with
  a string literal and with null is never true there.
\<close>

definition serve_request :: "'w handler \<Rightarrow> block \<Rightarrow> 'w \<Rightarrow> request_env \<Rightarrow> cfault + block \<times> conn \<times> 'w" where
  "serve_request h readData w e =
     (let (readlen, b1) = recv_into readData (rq_recv1 e); bytestotal = 0 + readlen in
      bindE (cstr_at b1 0) (\<lambda>s0.
      bindE (strcpy_to (fresh_block (rq_junk e 0) (unat (bytestotal + 1))) 0 s0) (\<lambda>dataread.
      bindE (split_request b1) (\<lambda>(scheme, request, filename, b2).
      bindE (if filename = None then Inr None
             else bindE (token_string b2 scheme) (\<lambda>sc.
                  bindE (token_string b2 request) (\<lambda>rq.
                  bindE (token_string b2 filename) (\<lambda>fn.
                  Inr (Some (length sc + length rq + length fn + 2)))))) (\<lambda>marker.
      if scheme = None \<or> request = None
      then bindE (gfs_sendheader (rq_junk e 1) (rq_conn e) GF_FILE_NOT_FOUND 0) (\<lambda>(_, c). Inr (b2, c, w))
      else
      bindE (token_string b2 scheme) (\<lambda>sc.
      bindE (token_string b2 request) (\<lambda>rq.
      if strcmp sc ''GETFILE'' \<noteq> 0 \<or> strcmp rq ''GET'' \<noteq> 0
      then bindE (gfs_sendheader (rq_junk e 1) (rq_conn e) GF_FILE_NOT_FOUND 0) (\<lambda>(_, c). Inr (b2, c, w))
      else
      bindE (case marker of
               None \<Rightarrow> Inr (readlen = 12)
             | Some m \<Rightarrow> bindE (cstr_at dataread m) (\<lambda>ms.
                 Inr (length ms = 1 \<and> strcmp ms space \<noteq> 0 \<or> length ms = 4 \<and> strcmp ms crlf2 \<noteq> 0)))
        (\<lambda>incomplete.
      if incomplete then
        let (readlen2, b3) = recv_into b2 (rq_recv2 e); bytestotal2 = bytestotal + readlen2 in
        bindE (cstr_at dataread 0) (\<lambda>first.
        bindE (strcpy_to (fresh_block (rq_junk e 2) (unat (bytestotal2 + 1))) 0 first) (\<lambda>d1.
        bindE (cstr_at b3 0) (\<lambda>second.
        bindE (strcat_to d1 0 second) (\<lambda>dataread2.
        bindE (split_request dataread2) (\<lambda>(_, _, filename2, dataread3).
        bindE (path_argument dataread3 filename2) (\<lambda>path.
        bindE (call_handler h (rq_junk e 1) w (rq_conn e) path) (\<lambda>(c, w'). Inr (b3, c, w'))))))))
      else
        bindE (path_argument b2 filename) (\<lambda>path.
        bindE (call_handler h (rq_junk e 1) w (rq_conn e) path) (\<lambda>(c, w'). Inr (b2, c, w')))))))))))"

section \<open>The accept loop\<close>

text \<open>
  Over the answers of \<open>accept\<close>, \<open>None\<close> being a failure, on which the function returns. The
  result collects the connections as the loop leaves them; it never closes one itself.
\<close>

primrec accept_loop :: "'w handler \<Rightarrow> block \<Rightarrow> 'w \<Rightarrow> request_env option list \<Rightarrow> cfault + conn list \<times> 'w" where
  "accept_loop h readData w [] = Inr ([], w)"
| "accept_loop h readData w (a # as) =
     (case a of
        None \<Rightarrow> Inr ([], w)
      | Some e \<Rightarrow>
          bindE (serve_request h readData w e) (\<lambda>(b, c, w1).
          bindE (accept_loop h b w1 as) (\<lambda>(cs, w2). Inr (c # cs, w2))))"

definition gfserver_serve :: "'w gfserver_t \<Rightarrow> (nat \<Rightarrow> char) \<Rightarrow> bool \<Rightarrow> bool \<Rightarrow> 'w \<Rightarrow>
    request_env option list \<Rightarrow> cfault + conn list \<times> 'w" where
  "gfserver_serve gfs junk socket_ok listen_ok w as =
     (if \<not> socket_ok \<or> \<not> listen_ok then Inr ([], w)
      else accept_loop (handler gfs) (fresh_block junk BUFSIZE) w as)"

section \<open>What the replies put on the wire\<close>

definition ok_header :: "nat \<Rightarrow> string" where
  "ok_header n = ''GETFILE OK '' @ show_nat n @ crlf2"

lemma length_crlf2 [simp]: "length crlf2 = 4"
  by (simp add: crlf2_def)

lemma crlf2_no_NUL [simp]: "NUL \<notin> set crlf2"
  by (simp add: crlf2_def CR_def LF_def)

lemma show_nat_unat: "length (show_nat (unat (n :: size_t))) \<le> 20"
proof -
  have "unat n < 2 ^ 64" using unsigned_less [of n] by simp
  then have "unat n < 10 ^ 20" by simp
  then show ?thesis by (rule show_nat_length) simp
qed

lemma gfs_sendheader_ok:
  "gfs_sendheader junk c GF_OK len = Inr (sys_write c (ok_header (unat len)))"
proof -
  let ?fs = "show_nat (unat len)"
  have l: "length ?fs \<le> 20" by (rule show_nat_unat)
  have 1: "strcpy_to (fresh_block junk 500) 0 ?fs = Inr (?fs @ NUL # drop (Suc (length ?fs)) (fresh_block junk 500))"
    using l by (simp add: strcpy_to_start)
  have 2: "strcpy_to (fresh_block junk (17 + length ?fs)) 0 ''GETFILE OK '' =
      Inr (''GETFILE OK '' @ NUL # drop 12 (fresh_block junk (17 + length ?fs)))"
    by (simp add: strcpy_to_start eval_nat_numeral)
  have 3: "strcat_to (''GETFILE OK '' @ NUL # drop 12 (fresh_block junk (17 + length ?fs))) 0 ?fs =
      Inr ((''GETFILE OK '' @ ?fs) @ NUL # drop (12 + length ?fs) (fresh_block junk (17 + length ?fs)))"
    by (subst strcat_to_known) (auto simp: add.commute)
  have 4: "strcat_to ((''GETFILE OK '' @ ?fs) @ NUL # drop (12 + length ?fs) (fresh_block junk (17 + length ?fs))) 0 crlf2 =
      Inr ((''GETFILE OK '' @ ?fs) @ crlf2 @ NUL # drop 4 (drop (12 + length ?fs) (fresh_block junk (17 + length ?fs))))"
    by (subst strcat_to_known) auto
  have 5: "cstr_at ((''GETFILE OK '' @ ?fs) @ crlf2 @ NUL # r) 0 = Inr (ok_header (unat len))" for r
    using cstr_at_start [of "ok_header (unat len)" r] by (simp add: ok_header_def)
  show ?thesis
    by (simp only: gfs_sendheader_def GF_OK_def GF_ERROR_def GF_FILE_NOT_FOUND_def 1 2 3 4 5
        cstr_at_start [OF show_nat_no_NUL] bindE_Inr) simp
qed

lemma gfs_sendheader_not_found:
  "willing c \<Longrightarrow> gfs_sendheader junk c GF_FILE_NOT_FOUND len =
     Inr (int (length not_found_reply) + 1, c\<lparr>csent := csent c @ not_found_reply @ [NUL], copen := False\<rparr>)"
  by (simp add: gfs_sendheader_def GF_FILE_NOT_FOUND_def GF_ERROR_def gfs_abort_def sys_close_def)

lemma gfs_sendheader_error:
  "willing c \<Longrightarrow> gfs_sendheader junk c GF_ERROR len =
     Inr (int (length error_reply) + 1, c\<lparr>csent := csent c @ error_reply @ [NUL], copen := False\<rparr>)"
  by (simp add: gfs_sendheader_def GF_ERROR_def gfs_abort_def sys_close_def)

lemma gfs_send_buffer:
  "n \<le> length data \<Longrightarrow> n < 2 ^ 63 \<Longrightarrow> gfs_send c data (size_of_nat n) = Inr (sys_write c (take n data))"
  by (auto simp: gfs_send_def unat_size_of_nat get_bytes_def)

section \<open>Parsing a request\<close>

definition token_ok :: "string \<Rightarrow> string \<Rightarrow> bool" where
  "token_ok ds t \<longleftrightarrow> t \<noteq> [] \<and> set t \<inter> set ds = {} \<and> NUL \<notin> set t"

definition request_bytes :: "string \<Rightarrow> string \<Rightarrow> string \<Rightarrow> string" where
  "request_bytes sc rq path = sc @ CHR '' '' # rq @ CHR '' '' # path @ crlf2"

lemma length_request_bytes: "length (request_bytes sc rq path) = length sc + length rq + length path + 6"
  by (simp add: request_bytes_def)

lemma request_bytes_no_NUL:
  "token_ok space sc \<Longrightarrow> token_ok space rq \<Longrightarrow> token_ok space_crlf path \<Longrightarrow>
   NUL \<notin> set (request_bytes sc rq path)"
  by (auto simp: request_bytes_def token_ok_def)

lemma split_request_known:
  assumes "token_ok space sc" and "token_ok space rq" and "token_ok space_crlf path"
  shows "split_request (request_bytes sc rq path @ NUL # post) =
    Inr (Some 0, Some (Suc (length sc)), Some (length sc + length rq + 2),
      sc @ NUL # rq @ NUL # path @ NUL # LF # CR # LF # NUL # post)"
proof -
  have b: "request_bytes sc rq path @ NUL # post =
      [] @ [] @ sc @ CHR '' '' # (rq @ CHR '' '' # path @ CR # LF # CR # LF # NUL # post)"
    by (simp add: request_bytes_def crlf2_def)
  have 1: "strtok_at (request_bytes sc rq path @ NUL # post) 0 space =
      Inr (Some 0, Suc (length sc), (sc @ [NUL]) @ [] @ rq @ CHR '' '' # (path @ CR # LF # CR # LF # NUL # post))"
    unfolding b by (subst strtok_at_token) (use assms(1) in \<open>auto simp: token_ok_def space_def\<close>)
  have 2: "strtok_at ((sc @ [NUL]) @ [] @ rq @ CHR '' '' # (path @ CR # LF # CR # LF # NUL # post))
        (Suc (length sc)) space =
      Inr (Some (Suc (length sc)), Suc (Suc (length sc) + length rq),
        (sc @ NUL # rq @ [NUL]) @ [] @ path @ CR # (LF # CR # LF # NUL # post))"
    by (subst strtok_at_token) (use assms(2) in \<open>auto simp: token_ok_def space_def\<close>)
  have 3: "strtok_at ((sc @ NUL # rq @ [NUL]) @ [] @ path @ CR # (LF # CR # LF # NUL # post))
        (Suc (Suc (length sc) + length rq)) space_crlf =
      Inr (Some (length sc + length rq + 2), Suc (length sc + length rq + 2 + length path),
        sc @ NUL # rq @ NUL # path @ NUL # LF # CR # LF # NUL # post)"
    by (subst strtok_at_token) (use assms(3) in \<open>auto simp: token_ok_def space_crlf_def CR_def\<close>)
  show ?thesis
    by (simp only: split_request_def 1 2 3 bindE_Inr prod.case)
qed

lemma unat_alloc: "n < 4096 \<Longrightarrow> unat (0 + size_of_nat n + 1) = Suc n"
  by (simp add: size_of_nat_def unat_word_ariths unat_of_nat flip: of_nat_Suc)

text \<open>A request of three tokens that arrives whole, with a NUL byte behind it in the buffer.\<close>

definition request_env_for :: "request_env \<Rightarrow> block \<Rightarrow> string \<Rightarrow> bool" where
  "request_env_for e b msg \<longleftrightarrow>
     rq_recv1 e = Some msg \<and> length b = BUFSIZE \<and> length msg < BUFSIZE \<and> b ! length msg = NUL"

lemma serve_request_known:
  assumes sc: "token_ok space sc" and rq: "token_ok space rq" and path: "token_ok space_crlf path"
    and e: "request_env_for e b (request_bytes sc rq path)"
  shows "\<exists>b'. length b' = BUFSIZE \<and>
    b' = sc @ NUL # rq @ NUL # path @ NUL # LF # CR # LF # drop (length (request_bytes sc rq path)) b \<and>
    serve_request h b w e =
     (if sc = ''GETFILE'' \<and> rq = ''GET''
      then bindE (call_handler h (rq_junk e 1) w (rq_conn e) (Some path)) (\<lambda>(c, w'). Inr (b', c, w'))
      else bindE (gfs_sendheader (rq_junk e 1) (rq_conn e) GF_FILE_NOT_FOUND 0) (\<lambda>(_, c). Inr (b', c, w)))"
proof -
  let ?m = "request_bytes sc rq path"
  define b' where "b' = sc @ NUL # rq @ NUL # path @ NUL # LF # CR # LF # drop (length ?m) b"
  from e have r1: "rq_recv1 e = Some ?m" and lm: "length ?m < 4096" and lb: "length b = 4096"
    and z: "b ! length ?m = NUL" by (auto simp: request_env_for_def BUFSIZE_def)
  have dr: "drop (length ?m) b = NUL # drop (Suc (length ?m)) b"
    using lm lb z by (metis Cons_nth_drop_Suc)
  have nn: "NUL \<notin> set ?m" using sc rq path by (rule request_bytes_no_NUL)
  have len: "length b' = 4096" using lm lb by (simp add: b'_def length_request_bytes)
  have recv: "recv_into b (Some ?m) = (size_of_nat (length ?m), ?m @ NUL # drop (Suc (length ?m)) b)"
    using lm lb dr by simp
  have s0: "cstr_at (?m @ NUL # r) 0 = Inr ?m" for r using nn by (rule cstr_at_start)
  have alloc: "unat (0 + size_of_nat (length ?m) + 1 :: size_t) = Suc (length ?m)"
    using lm by (rule unat_alloc)
  have cpy: "strcpy_to (fresh_block j (Suc (length ?m))) 0 ?m = Inr (?m @ [NUL])" for j
    by (simp add: strcpy_to_start)
  have spl: "split_request (?m @ NUL # drop (Suc (length ?m)) b) =
      Inr (Some 0, Some (Suc (length sc)), Some (length sc + length rq + 2), b')"
    using split_request_known [OF sc rq path] dr by (simp add: b'_def)
  have t1: "cstr_at b' 0 = Inr sc" using sc by (auto intro: cstr_at_start simp: token_ok_def b'_def)
  have t2: "cstr_at b' (Suc (length sc)) = Inr rq"
    using cstr_at_known [of rq "Suc (length sc)" "sc @ [NUL]"] rq by (simp add: token_ok_def b'_def)
  have t3: "cstr_at b' (length sc + length rq + 2) = Inr path"
    using cstr_at_known [of path "length sc + length rq + 2" "sc @ NUL # rq @ [NUL]"] path
    by (simp add: token_ok_def b'_def)
  have mk: "cstr_at (?m @ [NUL]) (length sc + length rq + length path + 2) = Inr crlf2"
    using cstr_at_known [of crlf2 "length sc + length rq + length path + 2"
        "sc @ CHR '' '' # rq @ CHR '' '' # path" "[]"] by (simp add: request_bytes_def)
  have cmp1: "strcmp sc ''GETFILE'' = 0 \<longleftrightarrow> sc = ''GETFILE''"
    using sc by (intro strcmp_eq_0) (auto simp: token_ok_def)
  have cmp2: "strcmp rq ''GET'' = 0 \<longleftrightarrow> rq = ''GET''"
    using rq by (intro strcmp_eq_0) (auto simp: token_ok_def)
  have "serve_request h b w e =
     (if sc = ''GETFILE'' \<and> rq = ''GET''
      then bindE (call_handler h (rq_junk e 1) w (rq_conn e) (Some path)) (\<lambda>(c, w'). Inr (b', c, w'))
      else bindE (gfs_sendheader (rq_junk e 1) (rq_conn e) GF_FILE_NOT_FOUND 0) (\<lambda>(_, c). Inr (b', c, w)))"
    unfolding serve_request_def r1 recv Let_def prod.case s0 bindE_Inr alloc cpy spl token_string_def
      path_argument_def
    by (simp only: option.case bindE_Inr prod.case Let_def t1 t2 t3 mk cmp1 cmp2 option.distinct
        length_crlf2 strcmp_refl if_True if_False simp_thms)
      (cases "sc = ''GETFILE'' \<and> rq = ''GET''"; auto)
  then show ?thesis using len b'_def by (auto simp: BUFSIZE_def)
qed

section \<open>Requests that leave the defined part of C\<close>

text \<open>
  The receive buffer is read as a C string. Where the received bytes hold no NUL and the
  buffer holds none right behind them, the string is longer than the copy allocated for it.
\<close>

lemma serve_request_stale:
  assumes r: "rq_recv1 e = Some d" and d: "NUL \<notin> set d" "length d \<le> length b" and b: "length b = BUFSIZE"
    and stale: "length d = BUFSIZE \<or> b ! length d \<noteq> NUL"
  shows "serve_request h b w e = Inl Out_of_bounds"
proof -
  let ?b1 = "d @ drop (length d) b"
  have recv: "recv_into b (rq_recv1 e) = (size_of_nat (length d), ?b1)" using r d(2) by simp
  show ?thesis
  proof (cases "cstr_at ?b1 0")
    case (Inl x)
    then have "x = Out_of_bounds" by (rule cstr_at_Inl)
    with Inl show ?thesis by (simp add: serve_request_def recv)
  next
    case (Inr s)
    from cstr_at_Inr [OF Inr] have s: "length s < length ?b1" "?b1 ! length s = NUL" by auto
    have "length d < length s"
    proof (rule ccontr)
      assume "\<not> length d < length s"
      then consider "length s < length d" | "length s = length d" by linarith
      then show False
      proof cases
        case 1
        with s(2) d(1) show ?thesis by (simp add: nth_append) (metis nth_mem)
      next
        case 2
        with s stale b show ?thesis by (simp add: nth_append)
      qed
    qed
    moreover from this have "length d < 4096" using s(1) d(2) b by (simp add: BUFSIZE_def)
    then have "unat (0 + size_of_nat (length d) + 1 :: size_t) = Suc (length d)" by (rule unat_alloc)
    ultimately show ?thesis
      by (simp add: serve_request_def recv Inr strcpy_to_overflow)
  qed
qed

text \<open>Two well-formed requests in a row, the second for a shorter path.\<close>

lemma serve_shorter_after_longer:
  assumes path: "token_ok space_crlf p1" "token_ok space_crlf p2"
    and e1: "request_env_for e1 b (request_bytes ''GETFILE'' ''GET'' p1)"
    and e2: "rq_recv1 e2 = Some (request_bytes ''GETFILE'' ''GET'' p2)"
    and len: "length p2 < length p1" "length p1 \<noteq> length p2 + 4"
    and ok: "serve_request h b w e1 = Inr (b', c, w')"
  shows "serve_request h b' w' e2 = Inl Out_of_bounds"
proof -
  let ?m1 = "request_bytes ''GETFILE'' ''GET'' p1" and ?m2 = "request_bytes ''GETFILE'' ''GET'' p2"
  have t: "token_ok space ''GETFILE''" "token_ok space ''GET''" by (auto simp: token_ok_def space_def)
  define pre where "pre = ''GETFILE'' @ NUL # ''GET'' @ [NUL]"
  have pre: "length pre = 12" by (simp add: pre_def)
  from serve_request_known [OF t path(1) e1, of h w] obtain bb where
    bb: "length bb = BUFSIZE" "bb = ''GETFILE'' @ NUL # ''GET'' @ NUL # p1 @ NUL # LF # CR # LF # drop (length ?m1) b"
    and run: "serve_request h b w e1 =
      bindE (call_handler h (rq_junk e1 1) w (rq_conn e1) (Some p1)) (\<lambda>(c, w'). Inr (bb, c, w'))" by auto
  from run ok have "bindE (call_handler h (rq_junk e1 1) w (rq_conn e1) (Some p1)) (\<lambda>(c, w'). Inr (bb, c, w'))
      = Inr (b', c, w')" by simp
  then have "b' = bb" by (rule bindE_eq_InrE) (auto split: prod.splits)
  with bb have b': "b' = pre @ p1 @ [NUL, LF, CR, LF] @ drop (length ?m1) b" and lb: "length b' = BUFSIZE"
    by (simp_all add: pre_def)
  have lm1: "length ?m1 < BUFSIZE" using e1 by (simp add: request_env_for_def)
  have lm2: "length ?m2 = length pre + (length p2 + 4)" by (simp add: length_request_bytes pre)
  have i: "b' ! length ?m2 = (p1 @ [NUL, LF, CR, LF] @ drop (length ?m1) b) ! (length p2 + 4)"
    unfolding b' lm2 by (rule nth_append_length_plus)
  have nz: "b' ! length ?m2 \<noteq> NUL"
  proof (cases "length p2 + 4 < length p1")
    case True
    with i path(1) show ?thesis by (auto simp: nth_append token_ok_def) (metis nth_mem)
  next
    case False
    with len have "length p2 + 4 - length p1 \<in> {1, 2, 3}" by auto
    with i False show ?thesis by (auto simp: nth_append LF_def CR_def)
  qed
  have l2: "length ?m2 \<le> length b'" using lb lm1 len(1) by (simp add: length_request_bytes)
  show ?thesis
    by (rule serve_request_stale [OF e2 request_bytes_no_NUL [OF t path(2)] l2 lb]) (use nz in simp)
qed

text \<open>
  A request that ends after the method: the path is null, and the header counts as complete
  unless exactly 12 bytes arrived.
\<close>

definition no_path_request :: string where
  "no_path_request = ''GETFILE GET '' @ crlf2"

lemma serve_request_no_path:
  assumes e: "request_env_for e b no_path_request"
  shows "\<exists>b'. serve_request h b w e =
    bindE (call_handler h (rq_junk e 1) w (rq_conn e) None) (\<lambda>(c, w'). Inr (b', c, w'))"
proof -
  let ?m = no_path_request
  have lm: "length ?m = 16" by (simp add: no_path_request_def)
  from e have r1: "rq_recv1 e = Some ?m" and lb: "length b = 4096" and z: "b ! 16 = NUL"
    by (auto simp: request_env_for_def BUFSIZE_def lm)
  define post where "post = drop 17 b"
  have dr: "drop 16 b = NUL # post" using lb z by (simp add: post_def Cons_nth_drop_Suc [symmetric])
  define b' where "b' = ''GETFILE'' @ NUL # ''GET'' @ NUL # crlf2 @ NUL # post"
  have nn: "NUL \<notin> set ?m" by (simp add: no_path_request_def)
  have recv: "recv_into b (Some ?m) = (16, ?m @ NUL # post)"
    using lb by (simp add: lm dr) (simp add: size_of_nat_def)
  have s0: "cstr_at (?m @ NUL # r) 0 = Inr ?m" for r using nn by (rule cstr_at_start)
  have cpy: "strcpy_to (fresh_block j (unat ((0 :: size_t) + 16 + 1))) 0 ?m = Inr (?m @ [NUL])" for j
    by (simp add: strcpy_to_start lm)
  have m0: "?m @ NUL # post = [] @ [] @ ''GETFILE'' @ CHR '' '' # (''GET'' @ CHR '' '' # crlf2 @ NUL # post)"
    by (simp add: no_path_request_def)
  have 1: "strtok_at (?m @ NUL # post) 0 space =
      Inr (Some 0, 8, (''GETFILE'' @ [NUL]) @ [] @ ''GET'' @ CHR '' '' # (crlf2 @ NUL # post))"
    unfolding m0 by (subst strtok_at_token) (auto simp: space_def)
  have 2: "strtok_at ((''GETFILE'' @ [NUL]) @ [] @ ''GET'' @ CHR '' '' # (crlf2 @ NUL # post)) 8 space =
      Inr (Some 8, 12, b')"
    by (subst strtok_at_token) (auto simp: space_def b'_def)
  have b'2: "b' = (''GETFILE'' @ NUL # ''GET'' @ [NUL]) @ crlf2 @ NUL # post" by (simp add: b'_def)
  have 3: "\<exists>q. strtok_at b' 12 space_crlf = Inr (None, q, b')"
    unfolding b'2 by (subst strtok_at_none) (auto simp: space_crlf_def crlf2_def CR_def LF_def)
  then obtain q where 3: "strtok_at b' 12 space_crlf = Inr (None, q, b')" by blast
  have spl: "split_request (?m @ NUL # post) = Inr (Some 0, Some 8, None, b')"
    by (simp only: split_request_def 1 2 3 bindE_Inr prod.case)
  have t1: "cstr_at b' 0 = Inr ''GETFILE''"
    using cstr_at_start [of "''GETFILE''" "''GET'' @ NUL # crlf2 @ NUL # post"] by (simp add: b'_def)
  have t2: "cstr_at b' 8 = Inr ''GET''"
    using cstr_at_known [of "''GET''" 8 "''GETFILE'' @ [NUL]" "crlf2 @ NUL # post"] by (simp add: b'_def)
  have "serve_request h b w e =
      bindE (call_handler h (rq_junk e 1) w (rq_conn e) None) (\<lambda>(c, w'). Inr (b', c, w'))"
    unfolding serve_request_def r1 recv Let_def prod.case s0 bindE_Inr cpy spl token_string_def
      path_argument_def
    by (simp add: t1 t2)
  then show ?thesis by blast
qed

section \<open>A sequence of requests\<close>

text \<open>What is specified: every request's path is passed to the handler, one after the other.\<close>

primrec handle_all :: "'w handler \<Rightarrow> 'w \<Rightarrow> (request_env \<times> string) list \<Rightarrow> cfault + conn list \<times> 'w" where
  "handle_all h w [] = Inr ([], w)"
| "handle_all h w (x # xs) =
     bindE (call_handler h (rq_junk (fst x) 1) w (rq_conn (fst x)) (Some (snd x))) (\<lambda>(c, w1).
     bindE (handle_all h w1 xs) (\<lambda>(cs, w2). Inr (c # cs, w2)))"

text \<open>The buffer holds no byte of an earlier request from position \<open>n\<close> on.\<close>

definition clear_from :: "nat \<Rightarrow> block \<Rightarrow> bool" where
  "clear_from n b \<longleftrightarrow> length b = BUFSIZE \<and> (\<forall>i. n \<le> i \<longrightarrow> i < BUFSIZE \<longrightarrow> b ! i = NUL)"

definition asks_for :: "request_env \<Rightarrow> string \<Rightarrow> bool" where
  "asks_for e p \<longleftrightarrow> token_ok space_crlf p \<and> length p + 16 < BUFSIZE \<and>
     rq_recv1 e = Some (request_bytes ''GETFILE'' ''GET'' p)"

lemma serve_request_clear:
  assumes e: "asks_for e p" and b: "clear_from n b" and n: "n \<le> length p + 16"
  shows "\<exists>b'. clear_from (length p + 16) b' \<and> serve_request h b w e =
    bindE (call_handler h (rq_junk e 1) w (rq_conn e) (Some p)) (\<lambda>(c, w'). Inr (b', c, w'))"
proof -
  let ?m = "request_bytes ''GETFILE'' ''GET'' p"
  have lm: "length ?m = length p + 16" by (simp add: length_request_bytes)
  have t: "token_ok space ''GETFILE''" "token_ok space ''GET''" by (auto simp: token_ok_def space_def)
  have p: "token_ok space_crlf p" using e by (simp add: asks_for_def)
  have env: "request_env_for e b ?m"
    using e b n by (simp add: request_env_for_def asks_for_def clear_from_def lm)
  obtain b' where b': "length b' = BUFSIZE"
      "b' = ''GETFILE'' @ NUL # ''GET'' @ NUL # p @ NUL # LF # CR # LF # drop (length ?m) b"
    and run: "serve_request h b w e =
      bindE (call_handler h (rq_junk e 1) w (rq_conn e) (Some p)) (\<lambda>(c, w'). Inr (b', c, w'))"
    using serve_request_known [OF t p env, of h w] by auto
  define pre where "pre = ''GETFILE'' @ NUL # ''GET'' @ NUL # p @ [NUL, LF, CR, LF]"
  have pre: "b' = pre @ drop (length p + 16) b" "length pre = length p + 16"
    using b'(2) by (simp_all add: pre_def lm)
  have "b' ! i = NUL" if "length p + 16 \<le> i" "i < BUFSIZE" for i
    using that b n unfolding pre(1) by (simp add: nth_append pre(2) clear_from_def)
  with b'(1) have "clear_from (length p + 16) b'" by (simp add: clear_from_def)
  with run show ?thesis by blast
qed

lemma accept_loop_handles_all:
  assumes "\<forall>(e, p) \<in> set xs. asks_for e p" and "sorted (map (length \<circ> snd) xs)"
    and "clear_from n b" and "\<forall>(e, p) \<in> set xs. n \<le> length p + 16"
  shows "accept_loop h b w (map (Some \<circ> fst) xs) = handle_all h w xs"
  using assms
proof (induction xs arbitrary: n b w)
  case (Cons x xs)
  obtain e p where x: "x = (e, p)" by (cases x)
  from Cons.prems x have "asks_for e p" "n \<le> length p + 16" by auto
  from serve_request_clear [OF this(1) Cons.prems(3) this(2), of h w] obtain b' where
    b': "clear_from (length p + 16) b'" and run: "serve_request h b w e =
      bindE (call_handler h (rq_junk e 1) w (rq_conn e) (Some p)) (\<lambda>(c, w'). Inr (b', c, w'))" by blast
  have "\<forall>(e', p') \<in> set xs. length p + 16 \<le> length p' + 16" using Cons.prems(2) x by auto
  from Cons.IH [OF _ _ b' this] Cons.prems(1,2)
  have "accept_loop h b' w1 (map (Some \<circ> fst) xs) = handle_all h w1 xs" for w1 by (simp add: comp_def)
  with run x show ?case by (auto simp: comp_def bindE_def split: sum.splits prod.splits)
qed simp

section \<open>Properties\<close>

text \<open>
  A request \<open>GETFILE GET path\<close> that arrives in one piece is passed to the handler with
  exactly that path, on the connection it came from; a handler that fails gets the ERROR
  reply sent for it, and any other result leaves the connection as the handler left it.
\<close>

lemma gfserver_calls_handler:
  assumes "token_ok space_crlf path"
    and "request_env_for e b (request_bytes ''GETFILE'' ''GET'' path)"
    and "h w (rq_conn e) (Some path) = Inr (r, c, w')" and "willing c"
  shows "\<exists>b'. serve_request h b w e = Inr (b',
    if r < 0 then c\<lparr>csent := csent c @ error_reply @ [NUL], copen := False\<rparr> else c, w')"
proof -
  have "token_ok space ''GETFILE''" "token_ok space ''GET''" by (auto simp: token_ok_def space_def)
  from serve_request_known [OF this assms(1,2), of h w] assms(3,4) show ?thesis
    by (auto simp: call_handler_def gfs_sendheader_error)
qed

definition sample_env :: "string \<Rightarrow> request_env" where
  "sample_env msg = \<lparr>rq_conn = \<lparr>csent = [], copen = True, cplan = []\<rparr>, rq_recv1 = Some msg,
     rq_recv2 = None, rq_junk = (\<lambda>_ _. NUL)\<rparr>"

definition zero_buffer :: block where
  "zero_buffer = replicate BUFSIZE NUL"

lemma sample_env_for: "length msg < 4096 \<Longrightarrow> request_env_for (sample_env msg) zero_buffer msg"
  by (simp add: request_env_for_def sample_env_def zero_buffer_def BUFSIZE_def)

lemma sample_path: "token_ok space_crlf ''/a.txt''"
  by (auto simp: token_ok_def space_crlf_def CR_def LF_def)





text \<open>
  For every file length the 500-byte array and the block allocated for the header are
  large enough, and the header written for OK is \<open>GETFILE OK length\<close> and the end mark.
\<close>

lemma gfs_sendheader_fits:
  "gfs_sendheader junk c GF_OK len = Inr (sys_write c (''GETFILE OK '' @ show_nat (unat len) @ crlf2))"
  using gfs_sendheader_ok [of junk c len] by (simp add: ok_header_def)



end
