(* ===== verification/Handler.thy ===== *)
theory Handler
  imports Gfserver Content
begin

text \<open>
  The single-threaded request handler \<open>getfile/handler.c\<close>: it looks the path up in the
  content library, sends the header with the file's size and then the file in chunks of
  4096 bytes, each read with \<open>pread\<close>. The proofs about the copying loop live in the
  locale \<open>byte_source\<close>, so that they hold for every source of bytes.
\<close>

section \<open>The files behind the handler\<close>

record store =
  st_content :: content_state
  st_fs :: filesys
  st_plan :: "int \<Rightarrow> nat \<Rightarrow> nat option"   \<comment> \<open>how \<open>pread\<close> will answer, per descriptor and offset\<close>

definition lseek_end :: "filesys \<Rightarrow> int \<Rightarrow> int \<times> filesys" where
  "lseek_end fs fd =
     (case fdata fs fd of None \<Rightarrow> (- 1, fs) | Some d \<Rightarrow> (int (length d), lseek_set fs fd (length d)))"

definition read_fd :: "filesys \<Rightarrow> (int \<Rightarrow> nat \<Rightarrow> nat option) \<Rightarrow> int \<Rightarrow> nat \<Rightarrow> nat \<Rightarrow> char list option" where
  "read_fd fs plan fd off n =
     (case fdata fs fd of None \<Rightarrow> None | Some d \<Rightarrow> sys_pread (plan fd) d off n)"

section \<open>The handler\<close>

definition BUFFER_SIZE :: nat where
  "BUFFER_SIZE = 4096"

function send_file :: "(nat \<Rightarrow> nat \<Rightarrow> char list option) \<Rightarrow> conn \<Rightarrow> nat \<Rightarrow> nat \<Rightarrow> cfault + int \<times> conn" where
  "send_file pread ctx file_len bytes_transferred =
     (if bytes_transferred < file_len then
        case pread bytes_transferred BUFFER_SIZE of
          None \<Rightarrow> Inr (- 1, gfs_abort ctx)
        | Some d \<Rightarrow>
            if d = [] then Inr (- 1, gfs_abort ctx)
            else bindE (gfs_send ctx d (size_of_nat (length d))) (\<lambda>(write_len, c1).
              if write_len \<noteq> int (length d) then Inr (- 1, gfs_abort c1)
              else send_file pread c1 file_len (bytes_transferred + nat write_len))
      else Inr (int bytes_transferred, ctx))"
  by pat_completeness auto
termination
  by (relation "measure (\<lambda>(_, _, file_len, n). file_len - n)") (auto simp: diff_less_mono2)

declare send_file.simps [simp del]

definition handler_get :: "(nat \<Rightarrow> char) \<Rightarrow> store handler" where
  "handler_get junk st ctx path =
     bindE (content_get (st_content st) path (st_fs st)) (\<lambda>(fildes, fs1).
     if fildes < 0
     then bindE (gfs_sendheader junk ctx GF_FILE_NOT_FOUND 0) (\<lambda>(r, c). Inr (r, c, st\<lparr>st_fs := fs1\<rparr>))
     else
       let (file_len, fs2) = lseek_end fs1 fildes in
       bindE (gfs_sendheader junk ctx GF_OK (size_of_int file_len)) (\<lambda>(_, c1).
       bindE (send_file (read_fd fs2 (st_plan st) fildes) c1 (nat file_len) 0) (\<lambda>(r, c2).
       Inr (r, c2, st\<lparr>st_fs := fs2\<rparr>))))"

section \<open>The copying loop, for any source\<close>

context byte_source
begin

lemma send_file_step:
  assumes "off < file_len" and "read_at off BUFFER_SIZE = Some d" and "d \<noteq> []"
  shows "send_file read_at c file_len off =
    (let (w, c1) = sys_write c d in
     if w \<noteq> int (length d) then Inr (- 1, gfs_abort c1) else send_file read_at c1 file_len (off + length d))"
proof -
  from read_content [OF assms(2)] have l: "length d \<le> 4096" by (simp add: BUFFER_SIZE_def)
  then have "gfs_send c d (size_of_nat (length d)) = Inr (sys_write c d)"
    by (simp add: gfs_send_buffer)
  then show ?thesis
    using assms by (auto simp: send_file.simps [of read_at c file_len off] split: prod.splits)
qed

text \<open>
  Whatever the source and the peer do, what is sent is a prefix of the rest of the content;
  the loop returns \<open>-1\<close> with the connection closed, or the number of bytes after the whole
  length was sent.
\<close>

lemma send_file_prefix:
  assumes "off \<le> length content"
  shows "\<exists>k r c'. send_file read_at c file_len off = Inr (r, c') \<and>
    csent c' = csent c @ take k (drop off content) \<and> off + k \<le> length content \<and>
    (r = - 1 \<and> \<not> copen c' \<or> r = int (off + k) \<and> file_len \<le> off + k \<and> copen c' = copen c)"
  using assms
proof (induction "file_len - off" arbitrary: off c rule: less_induct)
  case less
  have stop: ?case if "send_file read_at c file_len off = Inr (- 1, gfs_abort c1)"
    "csent c1 = csent c @ take k (drop off content)" "off + k \<le> length content" for c1 k
    using that by (intro exI [of _ k]) (simp add: gfs_abort_def sys_close_def)
  show ?case
  proof (cases "off < file_len")
    case False
    then show ?thesis using less.prems
      by (intro exI [of _ 0] exI [of _ "int off"] exI [of _ c])
        (simp add: send_file.simps [of read_at c file_len off])
  next
    case lt: True
    show ?thesis
    proof (cases "read_at off BUFFER_SIZE")
      case None
      with lt less.prems show ?thesis
        by (intro stop [of c 0]) (simp_all add: send_file.simps [of read_at c file_len off])
    next
      case (Some d)
      show ?thesis
      proof (cases "d = []")
        case True
        with Some lt less.prems show ?thesis
          by (intro stop [of c 0]) (simp_all add: send_file.simps [of read_at c file_len off])
      next
        case ne: False
        obtain w c1 where w: "sys_write c d = (w, c1)" by (cases "sys_write c d")
        note p = sys_write_prefix [OF w]
        note x = read_extends [OF Some less.prems]
        have dd: "d = take (length d) (drop off content)" using read_content [OF Some] by simp
        note st = send_file_step [OF lt Some ne, of c, unfolded w Let_def prod.case]
        show ?thesis
        proof (cases "w = int (length d)")
          case False
          have "take (nat w) d = take (min (nat w) (length d)) (drop off content)"
            by (subst dd) (simp only: take_take)
          with st False p x show ?thesis
            by (intro stop [of c1 "min (nat w) (length d)"]) auto
        next
          case True
          have "file_len - (off + length d) < file_len - off" using lt ne by (cases d) auto
          from less.hyps [OF this, of c1] x obtain k r c' where
            ih: "send_file read_at c1 file_len (off + length d) = Inr (r, c')"
            "csent c' = csent c1 @ take k (drop (off + length d) content)" "off + length d + k \<le> length content"
            "r = - 1 \<and> \<not> copen c' \<or> r = int (off + length d + k) \<and> file_len \<le> off + length d + k \<and> copen c' = copen c1"
            by blast
          have "d @ take k (drop (off + length d) content) = take (length d + k) (drop off content)"
            using dd by (metis add.commute drop_drop take_add)
          with ih p True st show ?thesis
            by (intro exI [of _ "length d + k"] exI [of _ r] exI [of _ c']) (auto simp: add.assoc)
        qed
      qed
    qed
  qed
qed

definition yields :: bool where
  "yields \<longleftrightarrow> (\<forall>off < length content. \<exists>d. read_at off BUFFER_SIZE = Some d \<and> d \<noteq> [])"

text \<open>A source that always yields something and a willing peer: the whole content is sent.\<close>

lemma send_file_complete:
  assumes yields and "willing c" and "off \<le> length content"
  shows "send_file read_at c (length content) off =
    Inr (int (length content), c\<lparr>csent := csent c @ drop off content\<rparr>)"
  using assms(2-)
proof (induction "length content - off" arbitrary: off c rule: less_induct)
  case less
  show ?case
  proof (cases "off < length content")
    case False
    then have "off = length content" using less.prems(2) by simp
    then show ?thesis by (simp add: send_file.simps [of read_at c "length content" "length content"])
  next
    case lt: True
    with assms(1) obtain d where d: "read_at off BUFFER_SIZE = Some d" "d \<noteq> []" by (auto simp: yields_def)
    note x = read_extends [OF d(1) less.prems(2)]
    have dd: "d = take (length d) (drop off content)" using read_content [OF d(1)] by simp
    have "send_file read_at (c\<lparr>csent := csent c @ d\<rparr>) (length content) (off + length d) =
        Inr (int (length content), c\<lparr>csent := (csent c @ d) @ drop (off + length d) content\<rparr>)"
      using less.hyps [of "off + length d" "c\<lparr>csent := csent c @ d\<rparr>"] less.prems lt d(2) x
      by (cases d) auto
    moreover have "d @ drop (off + length d) content = drop off content"
      using dd by (metis add.commute append_take_drop_id drop_drop)
    ultimately show ?thesis
      using less.prems(1) by (simp add: send_file_step [OF lt d])
  qed
qed

end

interpretation fd: byte_source "read_fd fs plan i" "case fdata fs i of None \<Rightarrow> [] | Some d \<Rightarrow> d" for fs plan i
  by unfold_locales (auto simp: read_fd_def dest: pread.read_content split: option.splits)

section \<open>The whole handler\<close>

text \<open>Descriptors of the entries are open on the files named by the index.\<close>

definition store_ok :: "store \<Rightarrow> bool" where
  "store_ok st \<longleftrightarrow> content_ok (st_content st) \<and>
     (\<forall>(k, fd) \<in> set (entries (st_content st)). \<exists>d. fdata (st_fs st) fd = Some d \<and> length d < 2 ^ 63)"

lemma size_of_int_nat: "size_of_int (int n) = size_of_nat n"
  by (simp add: size_of_int_def size_of_nat_def)

lemma fdata_lseek [simp]: "fdata (lseek_set fs fd n) = fdata fs"
  by (simp add: lseek_set_def)

text \<open>The state after a hit: only file offsets moved.\<close>

lemma handler_get_hit:
  assumes "content_get (st_content st) path (st_fs st) = Inr (fd, fs1)" and "0 \<le> fd"
    and "fdata fs1 fd = Some d" and "length d < 2 ^ 63"
  shows "handler_get junk st ctx path =
    bindE (send_file (read_fd (lseek_set fs1 fd (length d)) (st_plan st) fd)
        (snd (sys_write ctx (ok_header (length d)))) (length d) 0)
      (\<lambda>(r, c2). Inr (r, c2, st\<lparr>st_fs := lseek_set fs1 fd (length d)\<rparr>))"
proof -
  have "unat (size_of_int (int (length d))) = length d"
    using assms(4) by (simp add: size_of_int_nat unat_size_of_nat)
  then show ?thesis
    using assms(1-3) by (simp add: handler_get_def lseek_end_def gfs_sendheader_ok split: prod.splits)
qed

lemma store_ok_lookup:
  assumes "store_ok st" and "NUL \<notin> set k" and "k \<in> fst ` set (entries (st_content st))"
  obtains fd d where "content_get (st_content st) (Some k) (st_fs st) = Inr (fd, lseek_set (st_fs st) fd 0)"
    and "(k, fd) \<in> set (entries (st_content st))" and "0 \<le> fd"
    and "fdata (st_fs st) fd = Some d" and "length d < 2 ^ 63"
proof -
  from assms(1) have ok: "content_ok (st_content st)" by (simp add: store_ok_def)
  from content_get_hit [OF ok assms(2,3)] obtain fd where
    fd: "content_get (st_content st) (Some k) (st_fs st) = Inr (fd, lseek_set (st_fs st) fd 0)"
    "(k, fd) \<in> set (entries (st_content st))" "0 \<le> fd" by blast
  from assms(1) fd(2) obtain d where "fdata (st_fs st) fd = Some d" "length d < 2 ^ 63"
    by (auto simp: store_ok_def)
  with fd that show thesis by blast
qed

lemma handler_get_sends_file:
  assumes "store_ok st" and "NUL \<notin> set k" and "k \<in> fst ` set (entries (st_content st))"
    and "willing c" and "\<forall>fd off. \<exists>n > 0. st_plan st fd off = Some n"
  shows "\<exists>fd d st'. (k, fd) \<in> set (entries (st_content st)) \<and> fdata (st_fs st) fd = Some d \<and>
    handler_get junk st c (Some k) =
      Inr (int (length d), c\<lparr>csent := csent c @ ok_header (length d) @ d\<rparr>, st') \<and>
    st_content st' = st_content st \<and> fdata (st_fs st') = fdata (st_fs st) \<and> st_plan st' = st_plan st"
proof -
  obtain fd d where g: "content_get (st_content st) (Some k) (st_fs st) = Inr (fd, lseek_set (st_fs st) fd 0)"
    and e: "(k, fd) \<in> set (entries (st_content st))" "0 \<le> fd"
    and d: "fdata (st_fs st) fd = Some d" "length d < 2 ^ 63"
    by (rule store_ok_lookup [OF assms(1-3)])
  let ?fs = "lseek_set (lseek_set (st_fs st) fd 0) fd (length d)"
  let ?rd = "read_fd ?fs (st_plan st) fd"
  have content: "(case fdata ?fs fd of None \<Rightarrow> [] | Some d \<Rightarrow> d) = d" using d by simp
  have y: "byte_source.yields ?rd d"
    unfolding fd.yields_def [of ?fs "st_plan st" fd, unfolded content]
  proof (intro allI impI)
    fix off assume "off < length d"
    moreover obtain n where "0 < n" "st_plan st fd off = Some n" using assms(5) by blast
    ultimately show "\<exists>x. ?rd off BUFFER_SIZE = Some x \<and> x \<noteq> []"
      using d by (simp add: read_fd_def sys_pread_def BUFFER_SIZE_def)
  qed
  have "send_file ?rd (c\<lparr>csent := csent c @ ok_header (length d)\<rparr>) (length d) 0 =
      Inr (int (length d), c\<lparr>csent := (csent c @ ok_header (length d)) @ d\<rparr>)"
    using fd.send_file_complete [of ?fs "st_plan st" fd "c\<lparr>csent := csent c @ ok_header (length d)\<rparr>" 0,
        unfolded content] y assms(4) by simp
  then have "handler_get junk st c (Some k) =
      Inr (int (length d), c\<lparr>csent := csent c @ ok_header (length d) @ d\<rparr>, st\<lparr>st_fs := ?fs\<rparr>)"
    using handler_get_hit [OF g e(2)] d assms(4) by simp
  with e d show ?thesis by (intro exI [of _ fd] exI [of _ d] exI [of _ "st\<lparr>st_fs := ?fs\<rparr>"]) simp
qed

lemma handler_get_missing:
  assumes "content_ok (st_content st)" and "NUL \<notin> set k" and "k \<notin> fst ` set (entries (st_content st))"
    and "willing c"
  shows "handler_get junk st c (Some k) =
    Inr (int (length not_found_reply) + 1,
      c\<lparr>csent := csent c @ not_found_reply @ [NUL], copen := False\<rparr>, st)"
  using content_get_miss [OF assms(1-3)] gfs_sendheader_not_found [OF assms(4)]
  by (simp add: handler_get_def)

section \<open>Properties\<close>

definition copy_plan :: "int \<Rightarrow> nat \<Rightarrow> nat option" where
  "copy_plan fd off = Some 3"

definition sample_store :: store where
  "sample_store = \<lparr>st_content = \<lparr>nitems = 1, items = Some [\<lparr>fildes = 4, key = ''/a.txt'' @ [NUL]\<rparr>]\<rparr>,
     st_fs = \<lparr>fdata = [4 \<mapsto> ''hello''], foff = (\<lambda>_. 0)\<rparr>, st_plan = copy_plan\<rparr>"

lemma sample_store_entries: "entries (st_content sample_store) = [(''/a.txt'', 4)]"
  by (simp add: sample_store_def entries_def entry_of_def key_of_def cstr_at_start [of "''/a.txt''" "[]", simplified])

lemma sample_store_ok: "store_ok sample_store"
  unfolding store_ok_def sample_store_entries
  by (simp add: sample_store_def content_ok_def items_ok_def)

lemma sample_store_data: "fdata (st_fs sample_store) = [4 \<mapsto> ''hello'']"
  by (simp add: sample_store_def)

lemma hello_length: "Suc (Suc (Suc (Suc (Suc 0)))) = 5"
  by simp

definition sample_conn :: conn where
  "sample_conn = \<lparr>csent = [], copen = True, cplan = []\<rparr>"

text \<open>
  C8: For a path of the index, however small the chunks \<open>pread\<close> returns, a peer that takes
  what it is sent gets the OK header with the file's length and then exactly the bytes of
  the file; the handler returns that length and changes neither files nor index.
\<close>

theorem handler_sends_whole_file:
  assumes "store_ok st" and "NUL \<notin> set k" and "k \<in> fst ` set (entries (st_content st))"
    and "willing c" and "\<forall>fd off. \<exists>n > 0. st_plan st fd off = Some n"
  shows "\<exists>fd d st'. (k, fd) \<in> set (entries (st_content st)) \<and> fdata (st_fs st) fd = Some d \<and>
    handler_get junk st c (Some k) =
      Inr (int (length d), c\<lparr>csent := csent c @ ok_header (length d) @ d\<rparr>, st') \<and>
    st_content st' = st_content st \<and> fdata (st_fs st') = fdata (st_fs st)"
  using handler_get_sends_file [OF assms, of junk] by blast

theorem handler_sends_whole_file_witness:
  "\<exists>st'. handler_get (\<lambda>_. NUL) sample_store sample_conn (Some ''/a.txt'') =
    Inr (5, sample_conn\<lparr>csent := ok_header 5 @ ''hello''\<rparr>, st')"
proof -
  have "\<forall>fd off. \<exists>n > 0. st_plan sample_store fd off = Some n"
    by (auto simp: sample_store_def copy_plan_def)
  from handler_sends_whole_file [OF sample_store_ok _ _ _ this, of "''/a.txt''" sample_conn "\<lambda>_. NUL"]
  show ?thesis
    unfolding sample_store_entries sample_store_data
    by (auto simp: sample_conn_def willing_def hello_length)
qed

text \<open>
  C26: Whatever \<open>pread\<close> and \<open>write\<close> answer, the handler terminates without a fault, and what
  it sends is a prefix of the header followed by a prefix of the file. It returns \<open>-1\<close> with
  the connection closed, or the file's length after every byte of the file was accepted.
\<close>

theorem handler_any_io:
  assumes "store_ok st" and "NUL \<notin> set k" and "k \<in> fst ` set (entries (st_content st))"
  shows "\<exists>fd d r c' st' i j. (k, fd) \<in> set (entries (st_content st)) \<and> fdata (st_fs st) fd = Some d \<and>
    handler_get junk st c (Some k) = Inr (r, c', st') \<and>
    csent c' = csent c @ take i (ok_header (length d)) @ take j d \<and>
    (r = - 1 \<and> \<not> copen c' \<or> r = int (length d) \<and> length d \<le> j)"
proof -
  obtain fd d where g: "content_get (st_content st) (Some k) (st_fs st) = Inr (fd, lseek_set (st_fs st) fd 0)"
    and e: "(k, fd) \<in> set (entries (st_content st))" "0 \<le> fd"
    and d: "fdata (st_fs st) fd = Some d" "length d < 2 ^ 63"
    by (rule store_ok_lookup [OF assms])
  let ?fs = "lseek_set (lseek_set (st_fs st) fd 0) fd (length d)"
  obtain w c1 where w: "sys_write c (ok_header (length d)) = (w, c1)" by (cases "sys_write c (ok_header (length d))")
  have content: "(case fdata ?fs fd of None \<Rightarrow> [] | Some d \<Rightarrow> d) = d" using d by simp
  obtain j r c' where
    "send_file (read_fd ?fs (st_plan st) fd) c1 (length d) 0 = Inr (r, c')"
    "csent c' = csent c1 @ take j d" "j \<le> length d"
    "r = - 1 \<and> \<not> copen c' \<or> r = int j \<and> length d \<le> j \<and> copen c' = copen c1"
    using fd.send_file_prefix [of 0 ?fs fd "st_plan st" c1 "length d", unfolded content] by auto
  moreover have "csent c1 = csent c @ take (nat w) (ok_header (length d))" using sys_write_prefix [OF w] by simp
  moreover have "handler_get junk st c (Some k) = bindE (send_file (read_fd ?fs (st_plan st) fd) c1 (length d) 0)
      (\<lambda>(r, c2). Inr (r, c2, st\<lparr>st_fs := ?fs\<rparr>))"
    using handler_get_hit [OF g e(2)] d w by simp
  ultimately show ?thesis
    using e d by (intro exI [of _ fd] exI [of _ d] exI [of _ r] exI [of _ c'] exI [of _ "st\<lparr>st_fs := ?fs\<rparr>"]
        exI [of _ "nat w"] exI [of _ j]) auto
qed

theorem handler_any_io_witness:
  "\<exists>r c' st' i j. handler_get (\<lambda>_. NUL) sample_store (sample_conn\<lparr>cplan := [3, 100, 1]\<rparr>) (Some ''/a.txt'') =
      Inr (r, c', st') \<and> csent c' = take i (ok_header 5) @ take j ''hello''"
proof -
  have k: "NUL \<notin> set ''/a.txt''" "''/a.txt'' \<in> fst ` set (entries (st_content sample_store))"
    unfolding sample_store_entries by auto
  from handler_any_io [OF sample_store_ok k, of "\<lambda>_. NUL" "sample_conn\<lparr>cplan := [3, 100, 1]\<rparr>"]
  show ?thesis
    unfolding sample_store_entries sample_store_data by (auto simp: sample_conn_def hello_length)
qed

text \<open>
  A path that is not in the index is answered with FILE_NOT_FOUND on a connection that
  is then closed; nothing else changes. A null path is followed and faults when the index
  is not empty.
\<close>

lemma handler_missing_path:
  assumes "content_ok (st_content st)" and "willing c"
  shows "(\<forall>k. NUL \<notin> set k \<longrightarrow> k \<notin> fst ` set (entries (st_content st)) \<longrightarrow>
      handler_get junk st c (Some k) = Inr (int (length not_found_reply) + 1,
        c\<lparr>csent := csent c @ not_found_reply @ [NUL], copen := False\<rparr>, st)) \<and>
    (entries (st_content st) \<noteq> [] \<longrightarrow> handler_get junk st c None = Inl Null_deref)"
proof -
  from entries_ok [OF assms(1)] obtain its where its: "items (st_content st) = Some its"
    "nitems (st_content st) = int (length its)" "entries (st_content st) = map entry_of its" by blast
  have "handler_get junk st c None = Inl Null_deref" if "entries (st_content st) \<noteq> []"
    using content_get_null [OF its(1,2)] its(3) that by (simp add: handler_get_def)
  then show ?thesis using handler_get_missing [OF assms(1) _ _ assms(2)] by blast
qed

end
