(* ===== verification/Gfclient.thy ===== *)
theory Gfclient
  imports Socket
begin

text \<open>
  The GETFILE client library \<open>gfclient.c\<close>. A request object is a record whose fields hold
  whatever \<open>malloc\<close> left there until a setter writes them. \<open>gfc_perform\<close> is the message it
  sends, the parser of the reply's header and the receive loop, run over the answers of
  \<open>recv\<close>. Every call of a callback is an entry of a log; handing a callback a length
  beyond the receive buffer is an out-of-bounds read.
\<close>

section \<open>Status values\<close>

datatype gfstatus_t = OK | FILE_NOT_FOUND | ERROR | INVALID

definition gfc_strstatus :: "gfstatus_t \<Rightarrow> string" where
  "gfc_strstatus status =
     (if status = OK then ''OK''
      else if status = FILE_NOT_FOUND then ''FILE_NOT_FOUND''
      else if status = ERROR then ''ERROR''
      else ''INVALID'')"

definition status_of_text :: "string \<Rightarrow> gfstatus_t" where
  "status_of_text s =
     (if strcmp s ''OK'' = 0 then OK
      else if strcmp s ''FILE_NOT_FOUND'' = 0 then FILE_NOT_FOUND
      else if strcmp s ''ERROR'' = 0 then ERROR
      else INVALID)"

section \<open>The request object\<close>

text \<open>
  \<open>statusText\<close> is a pointer: following it faults while it is uninitialised or after the
  block it points into was freed. The callbacks are given by whether a function was set.
\<close>

record gfcrequest_t =
  server :: string
  path :: string
  port :: "16 word"
  status :: gfstatus_t
  statusText :: "cfault + string"
  bytesOfFileReceived :: size_t
  filelength :: size_t
  headerargument :: "nat option"
  headerfunc :: bool
  writerfunc :: bool

definition gfc_create :: "gfcrequest_t \<Rightarrow> gfcrequest_t" where
  "gfc_create garbage = garbage\<lparr>statusText := Inl Uninitialised, headerfunc := False, writerfunc := False\<rparr>"

definition gfc_set_server :: "gfcrequest_t \<Rightarrow> string \<Rightarrow> gfcrequest_t" where
  "gfc_set_server gfr s = gfr\<lparr>server := s\<rparr>"

definition gfc_set_path :: "gfcrequest_t \<Rightarrow> string \<Rightarrow> gfcrequest_t" where
  "gfc_set_path gfr p = gfr\<lparr>path := p\<rparr>"

definition gfc_set_port :: "gfcrequest_t \<Rightarrow> 16 word \<Rightarrow> gfcrequest_t" where
  "gfc_set_port gfr p = gfr\<lparr>port := p\<rparr>"

definition gfc_set_headerfunc :: "gfcrequest_t \<Rightarrow> gfcrequest_t" where
  "gfc_set_headerfunc gfr = gfr\<lparr>headerfunc := True\<rparr>"

definition gfc_set_headerarg :: "gfcrequest_t \<Rightarrow> nat option \<Rightarrow> gfcrequest_t" where
  "gfc_set_headerarg gfr a = gfr\<lparr>headerargument := a\<rparr>"

definition gfc_set_writefunc :: "gfcrequest_t \<Rightarrow> gfcrequest_t" where
  "gfc_set_writefunc gfr = gfr\<lparr>writerfunc := True\<rparr>"

text \<open>A request that was freed is \<open>None\<close>.\<close>

definition live :: "gfcrequest_t option \<Rightarrow> cfault + gfcrequest_t" where
  "live p = (case p of None \<Rightarrow> Inl Use_after_free | Some g \<Rightarrow> Inr g)"

definition gfc_get_status :: "gfcrequest_t option \<Rightarrow> cfault + gfstatus_t" where
  "gfc_get_status p = bindE (live p) (\<lambda>g. bindE (statusText g) (\<lambda>s. Inr (status_of_text s)))"

definition gfc_get_filelen :: "gfcrequest_t option \<Rightarrow> cfault + size_t" where
  "gfc_get_filelen p = bindE (live p) (\<lambda>g. Inr (filelength g))"

definition gfc_get_bytesreceived :: "gfcrequest_t option \<Rightarrow> cfault + size_t" where
  "gfc_get_bytesreceived p = bindE (live p) (\<lambda>g. Inr (bytesOfFileReceived g))"

text \<open>\<open>free\<close> of a live object; freeing twice is a fault.\<close>

definition gfc_cleanup :: "gfcrequest_t option \<Rightarrow> cfault + gfcrequest_t option" where
  "gfc_cleanup p = bindE (live p) (\<lambda>_. Inr None)"

section \<open>The request message\<close>

definition CLIENT_BUFSIZE :: nat where
  "CLIENT_BUFSIZE = 4096"

definition CRLF2 :: string where
  "CRLF2 = [CHR 0x0D, CHR 0x0A, CHR 0x0D, CHR 0x0A]"

definition make_message :: "(nat \<Rightarrow> char) \<Rightarrow> string \<Rightarrow> cfault + string" where
  "make_message junk p =
     bindE (strcpy_to (fresh_block junk (18 + length p)) 0 ''GETFILE GET '') (\<lambda>m1.
     bindE (strcat_to m1 0 p) (\<lambda>m2.
     bindE (strcat_to m2 0 CRLF2) (\<lambda>m3. cstr_at m3 0)))"

section \<open>Receiving\<close>

datatype event =
    Header_cb string                \<comment> \<open>\<open>headerfunc\<close> was called with this header\<close>
  | Write_cb "char list"            \<comment> \<open>\<open>writerfunc\<close> was called with these bytes\<close>

text \<open>The variables of the receive loop.\<close>

record perform_state =
  req :: gfcrequest_t
  headerComplete :: bool
  bytesTotal :: size_t
  bytesTotalOfFile :: size_t
  evlog :: "event list"

text \<open>How \<open>gfc_perform\<close> ends: it returns a value (the object freed or not), or it waits for ever.\<close>

datatype outcome =
    Returned int "gfcrequest_t option" "event list"
  | Waiting perform_state

datatype header_result =
    Return_now int gfcrequest_t "event list"
  | Continue perform_state
  | Transfer_done perform_state

definition call_header :: "gfcrequest_t \<Rightarrow> string \<Rightarrow> event list \<Rightarrow> cfault + event list" where
  "call_header gfr h ev =
     (if headerargument gfr = None then Inr ev
      else if headerfunc gfr then Inr (ev @ [Header_cb h]) else Inl Uninitialised)"

definition call_writer :: "gfcrequest_t \<Rightarrow> block \<Rightarrow> nat \<Rightarrow> size_t \<Rightarrow> event list \<Rightarrow> cfault + event list" where
  "call_writer gfr buffer off len ev =
     bindE (assertE Uninitialised (writerfunc gfr)) (\<lambda>_.
     bindE (get_bytes buffer off (unat len)) (\<lambda>d. Inr (ev @ [Write_cb d])))"

text \<open>The assignments every rejection of a header makes.\<close>

definition set_status :: "gfcrequest_t \<Rightarrow> string \<Rightarrow> gfcrequest_t" where
  "set_status gfr s = gfr\<lparr>statusText := Inr s, status := status_of_text s\<rparr>"

definition reject :: "gfcrequest_t \<Rightarrow> gfcrequest_t" where
  "reject gfr = (set_status gfr ''INVALID'')\<lparr>bytesOfFileReceived := 0\<rparr>"

definition str_of :: "block \<Rightarrow> nat option \<Rightarrow> cfault + string" where
  "str_of b t = (case t of None \<Rightarrow> Inl Null_deref | Some p \<Rightarrow> cstr_at b p)"

definition SPACE_CRLF :: string where
  "SPACE_CRLF = [CHR '' '', CHR 0x0D, CHR 0x0A]"

text \<open>
  The OK branch. \<open>filecontent\<close> is computed from \<open>strlen(filelength)\<close> before the test for
  null, so a missing length faults. The length given to the callback is computed in
  \<open>size_t\<close>. When the block the texts point into is freed, \<open>statusText\<close> dangles.
\<close>

definition receive_ok :: "block \<Rightarrow> block \<Rightarrow> nat \<Rightarrow> size_t \<Rightarrow> string \<Rightarrow> perform_state \<Rightarrow> cfault + header_result" where
  "receive_ok buffer dfa pos bytesRead statustext st =
     (let gfr1 = set_status (req st) statustext in
      bindE (strtok_at dfa pos []) (\<lambda>(everythingAfterStatus, p3, dfa3).
      bindE (strtok_at dfa3 (case everythingAfterStatus of None \<Rightarrow> p3 | Some q \<Rightarrow> q) SPACE_CRLF)
        (\<lambda>(flen, _, dfa4).
      bindE (str_of dfa4 flen) (\<lambda>fl.
      let gfr2 = gfr1\<lparr>filelength := word_of_int (atol fl)\<rparr>;
          filecontentlength = bytesRead - size_of_nat (length fl) - 15 in
      bindE (call_writer gfr2 buffer (length fl + 15) filecontentlength (evlog st)) (\<lambda>ev.
      let total = bytesTotalOfFile st + filecontentlength;
          gfr3 = gfr2\<lparr>bytesOfFileReceived := total, statusText := Inl Use_after_free\<rparr>;
          st' = st\<lparr>req := gfr3, headerComplete := True, bytesTotalOfFile := total, evlog := ev\<rparr> in
      Inr (if total = filelength gfr3 then Transfer_done st' else Continue st'))))))"

text \<open>The first chunk, taken to hold the whole header.\<close>

definition receive_header :: "(nat \<Rightarrow> char) \<Rightarrow> block \<Rightarrow> size_t \<Rightarrow> perform_state \<Rightarrow> cfault + header_result" where
  "receive_header junk buffer bytesRead st =
     bindE (get_bytes buffer 0 (unat bytesRead)) (\<lambda>d.
     bindE (put_bytes (fresh_block junk (unat (bytesRead + 1))) 0 d) (\<lambda>dfa.
     if bytesRead \<le> 7 then
       let gfr = reject (req st) in
       bindE (call_header gfr ''INVALID'' (evlog st)) (\<lambda>ev. Inr (Return_now (- 1) gfr ev))
     else
       bindE (strtok_at dfa 0 '' '') (\<lambda>(scheme, p1, dfa1).
       bindE (str_of dfa1 scheme) (\<lambda>sc.
       if strcmp sc ''GETFILE'' \<noteq> 0 then Inr (Return_now (- 1) (reject (req st)) (evlog st))
       else if bytesRead \<le> 10 then Inr (Return_now (- 1) (reject (req st)) (evlog st))
       else
         bindE (strtok_at dfa1 p1 SPACE_CRLF) (\<lambda>(statustok, p2, dfa2).
         bindE (str_of dfa2 statustok) (\<lambda>sx.
         if strcmp sx ''OK'' \<noteq> 0 then
           if strcmp sx ''FILE_NOT_FOUND'' = 0 then
             bindE (call_header (set_status (req st) sx) ''GETFILE FILE_NOT_FOUND'' (evlog st)) (\<lambda>ev.
             Inr (Return_now 0 (set_status (req st) sx) ev))
           else if strcmp sx ''ERROR'' = 0 then
             bindE (call_header (set_status (req st) sx) ''GETFILE ERROR'' (evlog st)) (\<lambda>ev.
             Inr (Return_now 0 (set_status (req st) sx) ev))
           else Inr (Return_now (- 1) (reject (req st)) (evlog st))
         else receive_ok buffer dfa2 p2 bytesRead sx st))))))"

text \<open>
  The loop over the answers of \<open>recv\<close>. \<open>bytesRead\<close> is a \<open>size_t\<close>, so the test for a
  negative value never holds and \<open>-1\<close> is treated as a length. All returns free the object.
\<close>

primrec receive_loop :: "(nat \<Rightarrow> char) \<Rightarrow> recv_result list \<Rightarrow> block \<Rightarrow> perform_state \<Rightarrow> cfault + outcome" where
  "receive_loop junk [] buffer st = Inr (Waiting st)"
| "receive_loop junk (r # rs) buffer st =
     (let (bytesRead, buffer1) = recv_into buffer r;
          st1 = st\<lparr>bytesTotal := bytesTotal st + bytesRead\<rparr> in
      if bytesRead = 0 then
        Inr (Returned (if bytesTotalOfFile st1 < filelength (req st1) then - 1 else 0) None (evlog st1))
      else if \<not> headerComplete st1 then
        bindE (receive_header junk buffer1 bytesRead st1) (\<lambda>h.
          case h of
            Return_now v gfr ev \<Rightarrow> Inr (Returned v None ev)
          | Transfer_done st2 \<Rightarrow> Inr (Returned 0 None (evlog st2))
          | Continue st2 \<Rightarrow> receive_loop junk rs buffer1 st2)
      else
        bindE (call_writer (req st1) buffer1 0 bytesRead (evlog st1)) (\<lambda>ev.
        let total = bytesTotalOfFile st1 + bytesRead;
            st2 = st1\<lparr>bytesTotalOfFile := total, evlog := ev,
                      req := (req st1)\<lparr>bytesOfFileReceived := total\<rparr>\<rparr> in
        if total = filelength (req st2) then Inr (Returned 0 None (evlog st2))
        else receive_loop junk rs buffer1 st2))"

text \<open>What the network does with the request.\<close>

record network =
  socket_ok :: bool
  host_known :: bool
  connect_ok :: bool
  answers :: "string \<Rightarrow> recv_result list"   \<comment> \<open>of \<open>recv\<close>, after this message was sent\<close>
  net_junk :: "nat \<Rightarrow> nat \<Rightarrow> char"

definition gfc_perform :: "network \<Rightarrow> gfcrequest_t \<Rightarrow> cfault + outcome" where
  "gfc_perform net gfr =
     (if \<not> socket_ok net then Inr (Returned (- 1) (Some gfr) [])
      else if \<not> host_known net then Inl Null_deref
      else if \<not> connect_ok net then Inr (Returned (- 1) (Some gfr) [])
      else bindE (make_message (net_junk net 0) (path gfr)) (\<lambda>message.
        receive_loop (net_junk net 1) (answers net message) (fresh_block (net_junk net 2) CLIENT_BUFSIZE)
          \<lparr>req = gfr, headerComplete = False, bytesTotal = 0, bytesTotalOfFile = 0, evlog = []\<rparr>))"

section \<open>Status texts and the message\<close>

lemma status_of_text_str: "status_of_text (gfc_strstatus s) = s"
  by (cases s) (simp_all add: gfc_strstatus_def status_of_text_def byte_code_def)

definition get_request :: "string \<Rightarrow> string" where
  "get_request p = ''GETFILE GET '' @ p @ CRLF2"

lemma CRLF2_no_NUL [simp]: "NUL \<notin> set CRLF2"
  by (simp add: CRLF2_def)

lemma length_CRLF2 [simp]: "length CRLF2 = 4"
  by (simp add: CRLF2_def)

lemma make_message_known:
  assumes "NUL \<notin> set p"
  shows "make_message junk p = Inr (get_request p)"
proof -
  let ?b = "fresh_block junk (18 + length p)"
  have 1: "strcpy_to ?b 0 ''GETFILE GET '' = Inr (''GETFILE GET '' @ NUL # drop 13 ?b)"
    by (simp add: strcpy_to_start eval_nat_numeral)
  have 2: "strcat_to (''GETFILE GET '' @ NUL # drop 13 ?b) 0 p =
      Inr ((''GETFILE GET '' @ p) @ NUL # drop (length p) (drop 13 ?b))"
    by (subst strcat_to_known) auto
  have 3: "strcat_to ((''GETFILE GET '' @ p) @ NUL # drop (length p) (drop 13 ?b)) 0 CRLF2 =
      Inr ((''GETFILE GET '' @ p) @ CRLF2 @ NUL # drop 4 (drop (length p) (drop 13 ?b)))"
    using assms by (subst strcat_to_known) auto
  have 4: "cstr_at ((''GETFILE GET '' @ p) @ CRLF2 @ NUL # r) 0 = Inr (get_request p)" for r
    using cstr_at_start [of "get_request p" r] assms by (simp add: get_request_def)
  show ?thesis by (simp only: make_message_def 1 2 3 4 bindE_Inr)
qed

section \<open>The header of an OK reply\<close>

definition ok_reply :: "nat \<Rightarrow> string" where
  "ok_reply n = ''GETFILE OK '' @ show_nat n @ CRLF2"

lemma length_ok_reply: "length (ok_reply n) = length (show_nat n) + 15"
  by (simp add: ok_reply_def)

lemma strtok_at_rest:
  "p < length b \<Longrightarrow> b ! p \<noteq> NUL \<Longrightarrow> NUL \<in> set (drop p b) \<Longrightarrow> \<exists>e. strtok_at b p [] = Inr (Some p, e, b)"
proof -
  assume p: "p < length b" "b ! p \<noteq> NUL" "NUL \<in> set (drop p b)"
  then obtain c r where c: "drop p b = c # r" "c \<noteq> NUL" by (metis Cons_nth_drop_Suc)
  obtain m where m: "span_len (\<lambda>_. True) (drop p b) = Inr m"
    using p(3) by (cases "span_len (\<lambda>_. True) (drop p b)") (auto simp: span_len_Inl)
  then have "b ! (p + m) = NUL" using p(1) by (auto simp: span_len_Inr)
  with c m p show ?thesis by (simp add: strtok_at_def)
qed

lemma digits_token:
  "set (show_nat n) \<inter> set SPACE_CRLF = {}"
  using show_nat_digits [of n] digit_neq(5-7) by (auto simp: SPACE_CRLF_def)

lemma size_of_nat_diff: "size_of_nat (m + k + 15) - size_of_nat k - 15 = size_of_nat m"
  by (simp add: size_of_nat_def)

text \<open>
  The first chunk holds the header and the bytes \<open>c0\<close> of the file; the byte behind the
  copy of the chunk is NUL.
\<close>

lemma receive_header_ok:
  assumes d: "d = ok_reply n @ c0" and lens: "length d \<le> 4096" "n < 2 ^ 63"
    and junk: "junk (length d) = NUL" and wf: "writerfunc (req st)"
  shows "\<exists>st'. receive_header junk (d @ r) (size_of_nat (length d)) st =
      Inr (if bytesTotalOfFile st + size_of_nat (length c0) = size_of_nat n
           then Transfer_done st' else Continue st') \<and>
    headerComplete st' \<and> bytesTotalOfFile st' = bytesTotalOfFile st + size_of_nat (length c0) \<and>
    filelength (req st') = size_of_nat n \<and> writerfunc (req st') \<and> evlog st' = evlog st @ [Write_cb c0] \<and>
    status (req st') = OK"
proof -
  let ?k = "length (show_nat n)"
  let ?w = "size_of_nat (length d)"
  have ld: "length d = length c0 + ?k + 15" by (simp add: d ok_reply_def)
  have u: "unat ?w = length d" "unat (?w + 1) = Suc (length d)"
    using lens(1) by (simp_all add: size_of_nat_def unat_word_ariths unat_of_nat)
  have nle: "\<not> ?w \<le> 7" "\<not> ?w \<le> 10"
    using u(1) ld by (auto simp: word_le_nat_alt)
  have g: "get_bytes (d @ r) 0 (length d) = Inr d" by (simp add: get_bytes_def)
  have fr: "drop (length d) (fresh_block junk (Suc (length d))) = [NUL]"
    using junk by (simp add: fresh_block_def drop_map)
  have pb: "put_bytes (fresh_block junk (Suc (length d))) 0 d = Inr (d @ [NUL])"
    by (simp add: put_bytes_at_start fr)
  have dd: "d @ [NUL] = [] @ [] @ ''GETFILE'' @ CHR '' '' # (''OK '' @ show_nat n @ CRLF2 @ c0 @ [NUL])"
    by (simp add: d ok_reply_def)
  have 1: "strtok_at (d @ [NUL]) 0 '' '' =
      Inr (Some 0, 8, ''GETFILE'' @ NUL # ''OK '' @ show_nat n @ CRLF2 @ c0 @ [NUL])"
    unfolding dd by (subst strtok_at_token) auto
  have s1: "cstr_at (''GETFILE'' @ NUL # x) 0 = Inr ''GETFILE''" for x by (rule cstr_at_start) simp
  have b2: "''GETFILE'' @ NUL # ''OK '' @ show_nat n @ CRLF2 @ c0 @ [NUL] =
      (''GETFILE'' @ [NUL]) @ [] @ ''OK'' @ CHR '' '' # (show_nat n @ CRLF2 @ c0 @ [NUL])" by simp
  have 2: "strtok_at (''GETFILE'' @ NUL # ''OK '' @ show_nat n @ CRLF2 @ c0 @ [NUL]) 8 SPACE_CRLF =
      Inr (Some 8, 11, (''GETFILE'' @ [NUL]) @ [] @ ''OK'' @ NUL # show_nat n @ CRLF2 @ c0 @ [NUL])"
    unfolding b2 by (subst strtok_at_token) (auto simp: SPACE_CRLF_def)
  let ?pre = "''GETFILE'' @ NUL # ''OK'' @ [NUL]"
  let ?b3 = "?pre @ show_nat n @ CRLF2 @ c0 @ [NUL]"
  have s2: "cstr_at ?b3 8 = Inr ''OK''"
    using cstr_at_known [of "''OK''" 8 "''GETFILE'' @ [NUL]" "show_nat n @ CRLF2 @ c0 @ [NUL]"] by simp
  obtain x xs where dg: "show_nat n = x # xs" by (cases "show_nat n") auto
  have "x \<noteq> NUL" using show_nat_digits [of n] dg digit_neq(1) by auto
  then obtain e where 3: "strtok_at ?b3 11 [] = Inr (Some 11, e, ?b3)"
    using strtok_at_rest [of 11 ?b3] dg by (auto simp: nth_append)
  have b4: "?b3 = ?pre @ [] @ show_nat n @ CHR 0x0D # ([CHR 0x0A, CHR 0x0D, CHR 0x0A] @ c0 @ [NUL])"
    by (simp add: CRLF2_def)
  have 4: "strtok_at ?b3 11 SPACE_CRLF = Inr (Some 11, Suc (11 + ?k),
      ?pre @ show_nat n @ NUL # [CHR 0x0A, CHR 0x0D, CHR 0x0A] @ c0 @ [NUL])"
    unfolding b4 by (subst strtok_at_token) (use digits_token in \<open>auto simp: SPACE_CRLF_def\<close>)
  have s3: "cstr_at (?pre @ show_nat n @ NUL # z) 11 = Inr (show_nat n)" for z
    by (rule cstr_at_known) auto
  have len: "?w - size_of_nat ?k - 15 = size_of_nat (length c0)"
    unfolding ld by (rule size_of_nat_diff)
  have uc: "unat (size_of_nat (length c0)) = length c0"
    using lens(1) ld by (intro unat_size_of_nat) simp
  have wr: "get_bytes (d @ r) (?k + 15) (length c0) = Inr c0"
    unfolding d length_ok_reply [symmetric] by (simp add: get_bytes_def)
  have fl: "word_of_int (atol (show_nat n)) = size_of_nat n"
    using lens(2) by (simp add: atol_show_nat size_of_nat_def)
  have b3: "(''GETFILE'' @ [NUL]) @ [] @ ''OK'' @ NUL # show_nat n @ CRLF2 @ c0 @ [NUL] = ?b3" by simp
  have "receive_header junk (d @ r) ?w st = receive_ok (d @ r) ?b3 11 ?w ''OK'' st"
    unfolding receive_header_def u g bindE_Inr pb 1 2 prod.case str_of_def option.case s1 b3 s2
    by (simp add: nle)
  also have "\<dots> = (let gfr2 = (set_status (req st) ''OK'')\<lparr>filelength := size_of_nat n\<rparr>;
        total = bytesTotalOfFile st + size_of_nat (length c0);
        gfr3 = gfr2\<lparr>bytesOfFileReceived := total, statusText := Inl Use_after_free\<rparr>;
        st' = st\<lparr>req := gfr3, headerComplete := True, bytesTotalOfFile := total, evlog := evlog st @ [Write_cb c0]\<rparr>
      in Inr (if total = size_of_nat n then Transfer_done st' else Continue st'))"
    unfolding receive_ok_def Let_def 3 4 bindE_Inr prod.case option.case str_of_def s3 len fl
    by (simp add: call_writer_def set_status_def wf uc wr)
  finally show ?thesis
    by (auto simp: Let_def set_status_def wf status_of_text_def)
qed

section \<open>The body of the reply\<close>

text \<open>After the header: \<open>m\<close> of the \<open>n\<close> bytes of the file have been handed to the callback.\<close>

definition body_state :: "perform_state \<Rightarrow> nat \<Rightarrow> nat \<Rightarrow> event list \<Rightarrow> bool" where
  "body_state st n m ev \<longleftrightarrow> headerComplete st \<and> writerfunc (req st) \<and> filelength (req st) = size_of_nat n \<and>
     bytesTotalOfFile st = size_of_nat m \<and> evlog st = ev \<and> m \<le> n \<and> n < 2 ^ 63"

lemma size_of_nat_eq: "m < 2 ^ 64 \<Longrightarrow> n < 2 ^ 64 \<Longrightarrow> size_of_nat m = size_of_nat n \<longleftrightarrow> m = n"
  by (metis unat_size_of_nat)

lemma size_of_nat_less: "m < 2 ^ 64 \<Longrightarrow> n < 2 ^ 64 \<Longrightarrow> size_of_nat m < size_of_nat n \<longleftrightarrow> m < n"
  by (simp add: word_less_nat_alt unat_size_of_nat)

lemma size_of_nat_add: "size_of_nat m + size_of_nat n = size_of_nat (m + n)"
  by (simp add: size_of_nat_def)

lemma size_of_nat_0: "size_of_nat n = 0 \<longleftrightarrow> n = 0" if "n < 2 ^ 64"
  using size_of_nat_eq [of n 0] that by (simp add: size_of_nat_def)

lemma body_chunk:
  assumes b: "body_state st n m ev" and d: "d \<noteq> []" "length d \<le> length buffer" "m + length d \<le> n"
  shows "\<exists>st' b'. length b' = length buffer \<and> body_state st' n (m + length d) (ev @ [Write_cb d]) \<and>
    receive_loop junk (Some d # rs) buffer st =
      (if m + length d = n then Inr (Returned 0 None (ev @ [Write_cb d])) else receive_loop junk rs b' st')"
proof -
  let ?w = "size_of_nat (length d)"
  let ?b = "d @ drop (length d) buffer"
  let ?st1 = "st\<lparr>bytesTotal := bytesTotal st + ?w\<rparr>"
  define st' where "st' = ?st1\<lparr>bytesTotalOfFile := size_of_nat (m + length d), evlog := ev @ [Write_cb d],
      req := (req st)\<lparr>bytesOfFileReceived := size_of_nat (m + length d)\<rparr>\<rparr>"
  from b have n: "n < 2 ^ 63" by (simp add: body_state_def)
  with d(3) have small: "length d < 2 ^ 64" "m + length d < 2 ^ 64" "n < 2 ^ 64" by auto
  have nz: "?w \<noteq> 0" using size_of_nat_0 [OF small(1)] d(1) by simp
  have eq: "size_of_nat (m + length d) = size_of_nat n \<longleftrightarrow> m + length d = n"
    using small by (intro size_of_nat_eq)
  have wr: "get_bytes ?b 0 (unat ?w) = Inr d"
    using unat_size_of_nat [OF small(1)] by (simp add: get_bytes_def)
  have "receive_loop junk (Some d # rs) buffer st =
      (if m + length d = n then Inr (Returned 0 None (ev @ [Write_cb d])) else receive_loop junk rs ?b st')"
    using b nz wr d(2) by (simp add: body_state_def call_writer_def size_of_nat_add eq st'_def Let_def)
  moreover have "body_state st' n (m + length d) (ev @ [Write_cb d])"
    using b d(3) by (simp add: body_state_def st'_def)
  moreover have "length ?b = length buffer" using d(2) by simp
  ultimately show ?thesis by blast
qed

definition chunks_ok :: "nat \<Rightarrow> char list list \<Rightarrow> bool" where
  "chunks_ok k ds \<longleftrightarrow> (\<forall>d \<in> set ds. d \<noteq> [] \<and> length d \<le> k)"

lemma receive_body_complete:
  "body_state st n m ev \<Longrightarrow> chunks_ok (length buffer) ds \<Longrightarrow> ds \<noteq> [] \<Longrightarrow> m + length (concat ds) = n \<Longrightarrow>
   receive_loop junk (map Some ds @ rs) buffer st = Inr (Returned 0 None (ev @ map Write_cb ds))"
proof (induction ds arbitrary: st m ev buffer)
  case (Cons d ds)
  from Cons.prems have d: "d \<noteq> []" "length d \<le> length buffer" "m + length d \<le> n"
    and ds: "chunks_ok (length buffer) ds" by (auto simp: chunks_ok_def)
  obtain st' b' where st': "length b' = length buffer" "body_state st' n (m + length d) (ev @ [Write_cb d])"
    and run: "receive_loop junk (Some d # (map Some ds @ rs)) buffer st = (if m + length d = n
      then Inr (Returned 0 None (ev @ [Write_cb d])) else receive_loop junk (map Some ds @ rs) b' st')"
    using body_chunk [OF Cons.prems(1) d, of junk "map Some ds @ rs"] by blast
  show ?case
  proof (cases "ds = []")
    case True
    with run Cons.prems(4) show ?thesis by simp
  next
    case False
    with ds Cons.prems(4) have "m + length d \<noteq> n" by (cases ds) (auto simp: chunks_ok_def)
    with run Cons.IH [OF st'(2) _ False, of b'] ds st'(1) Cons.prems(4) show ?thesis by simp
  qed
qed simp

lemma receive_body_closed:
  "body_state st n m ev \<Longrightarrow> chunks_ok (length buffer) ds \<Longrightarrow> m + length (concat ds) < n \<Longrightarrow>
   receive_loop junk (map Some ds @ Some [] # rs) buffer st = Inr (Returned (- 1) None (ev @ map Write_cb ds))"
proof (induction ds arbitrary: st m ev buffer)
  case Nil
  then have "size_of_nat m < size_of_nat n" by (simp add: body_state_def size_of_nat_less)
  with Nil show ?case by (simp add: body_state_def size_of_nat_def)
next
  case (Cons d ds)
  from Cons.prems have d: "d \<noteq> []" "length d \<le> length buffer" "m + length d \<le> n"
    and ds: "chunks_ok (length buffer) ds" by (auto simp: chunks_ok_def)
  obtain st' b' where st': "length b' = length buffer" "body_state st' n (m + length d) (ev @ [Write_cb d])"
    and run: "receive_loop junk (Some d # (map Some ds @ Some [] # rs)) buffer st = (if m + length d = n
      then Inr (Returned 0 None (ev @ [Write_cb d])) else receive_loop junk (map Some ds @ Some [] # rs) b' st')"
    using body_chunk [OF Cons.prems(1) d, of junk "map Some ds @ Some [] # rs"] by blast
  with Cons.IH [OF st'(2), of b'] ds Cons.prems(3) show ?case by simp
qed

section \<open>Whole transfers\<close>

text \<open>A connection that is established, and a request the setters have filled in.\<close>

definition reachable :: "network \<Rightarrow> gfcrequest_t \<Rightarrow> bool" where
  "reachable net gfr \<longleftrightarrow> socket_ok net \<and> host_known net \<and> connect_ok net \<and> writerfunc gfr \<and> NUL \<notin> set (path gfr)"

definition first_state :: "gfcrequest_t \<Rightarrow> perform_state" where
  "first_state gfr = \<lparr>req = gfr, headerComplete = False, bytesTotal = 0, bytesTotalOfFile = 0, evlog = []\<rparr>"

lemma gfc_perform_known:
  "reachable net gfr \<Longrightarrow> gfc_perform net gfr =
     receive_loop (net_junk net 1) (answers net (get_request (path gfr)))
       (fresh_block (net_junk net 2) 4096) (first_state gfr)"
  by (simp add: gfc_perform_def reachable_def make_message_known first_state_def CLIENT_BUFSIZE_def)

lemma receive_first:
  assumes "d \<noteq> []" and "length d \<le> 4096" and "\<not> headerComplete st" and "length buffer = 4096"
  shows "receive_loop junk (Some d # rs) buffer st =
    bindE (receive_header junk (d @ drop (length d) buffer) (size_of_nat (length d))
        (st\<lparr>bytesTotal := bytesTotal st + size_of_nat (length d)\<rparr>)) (\<lambda>h.
      case h of
        Return_now v gfr ev \<Rightarrow> Inr (Returned v None ev)
      | Transfer_done st2 \<Rightarrow> Inr (Returned 0 None (evlog st2))
      | Continue st2 \<Rightarrow> receive_loop junk rs (d @ drop (length d) buffer) st2)"
  using assms size_of_nat_0 [of "length d"] by simp

lemma perform_header_ok:
  assumes r: "reachable net gfr" and ans: "answers net (get_request (path gfr)) = Some d # rs"
    and d: "d = ok_reply n @ c0" and lens: "length d \<le> 4096" "n < 2 ^ 63" "length c0 \<le> n"
    and junk: "net_junk net 1 (length d) = NUL"
  shows "\<exists>st b. length b = 4096 \<and> body_state st n (length c0) [Write_cb c0] \<and>
    gfc_perform net gfr = (if length c0 = n then Inr (Returned 0 None [Write_cb c0])
      else receive_loop (net_junk net 1) rs b st)"
proof -
  let ?b = "fresh_block (net_junk net 2) 4096"
  let ?st = "(first_state gfr)\<lparr>bytesTotal := bytesTotal (first_state gfr) + size_of_nat (length d)\<rparr>"
  have ne: "d \<noteq> []" by (simp add: d ok_reply_def)
  have wf: "writerfunc (req ?st)" using r by (simp add: reachable_def first_state_def)
  obtain st' where
    h: "receive_header (net_junk net 1) (d @ drop (length d) ?b) (size_of_nat (length d)) ?st =
      Inr (if bytesTotalOfFile ?st + size_of_nat (length c0) = size_of_nat n then Transfer_done st' else Continue st')"
    and st': "headerComplete st'" "bytesTotalOfFile st' = bytesTotalOfFile ?st + size_of_nat (length c0)"
      "filelength (req st') = size_of_nat n" "writerfunc (req st')" "evlog st' = evlog ?st @ [Write_cb c0]"
    using receive_header_ok [where junk = "net_junk net 1" and st = ?st, OF d lens(1,2) junk wf] by blast
  have eq: "size_of_nat (length c0) = size_of_nat n \<longleftrightarrow> length c0 = n"
    using lens(2,3) by (intro size_of_nat_eq) auto
  have "gfc_perform net gfr = receive_loop (net_junk net 1) (Some d # rs) ?b (first_state gfr)"
    using gfc_perform_known [OF r] ans by simp
  also have "\<dots> = (if length c0 = n then Inr (Returned 0 None [Write_cb c0])
      else receive_loop (net_junk net 1) rs (d @ drop (length d) ?b) st')"
    using h st'(5) eq ne lens(1) by (subst receive_first) (simp_all add: first_state_def)
  finally have run: "gfc_perform net gfr = \<dots>" .
  have "body_state st' n (length c0) [Write_cb c0]"
    using st' lens by (simp add: body_state_def first_state_def)
  moreover have "length (d @ drop (length d) ?b) = 4096" using lens(1) by simp
  ultimately show ?thesis using run by blast
qed

text \<open>The chunks a reply arrives in: the header and the first bytes, then the rest.\<close>

definition reply_chunks :: "network \<Rightarrow> nat \<Rightarrow> char list \<Rightarrow> char list list \<Rightarrow> bool" where
  "reply_chunks net n c0 ds \<longleftrightarrow> length (ok_reply n @ c0) \<le> 4096 \<and> n < 2 ^ 63 \<and> chunks_ok 4096 ds \<and>
     net_junk net 1 (length (ok_reply n @ c0)) = NUL"

lemma perform_complete:
  assumes r: "reachable net gfr" and ch: "reply_chunks net (length f) c0 ds"
    and ans: "answers net (get_request (path gfr)) = Some (ok_reply (length f) @ c0) # map Some ds @ rs"
    and f: "f = c0 @ concat ds"
  shows "gfc_perform net gfr = Inr (Returned 0 None (map Write_cb (c0 # ds)))"
proof -
  have le: "length c0 \<le> length f" by (simp add: f)
  obtain st b where st: "length b = 4096" "body_state st (length f) (length c0) [Write_cb c0]"
    and run: "gfc_perform net gfr = (if length c0 = length f then Inr (Returned 0 None [Write_cb c0])
      else receive_loop (net_junk net 1) (map Some ds @ rs) b st)"
    using perform_header_ok [OF r ans refl] ch le unfolding reply_chunks_def by blast
  show ?thesis
  proof (cases "ds = []")
    case True
    with run f show ?thesis by simp
  next
    case False
    then have "length c0 \<noteq> length f" using ch f by (cases ds) (auto simp: reply_chunks_def chunks_ok_def)
    moreover have "receive_loop (net_junk net 1) (map Some ds @ rs) b st =
        Inr (Returned 0 None ([Write_cb c0] @ map Write_cb ds))"
      using receive_body_complete [OF st(2) _ False] ch st(1) f by (simp add: reply_chunks_def)
    ultimately show ?thesis using run by simp
  qed
qed

lemma perform_closed_early:
  assumes r: "reachable net gfr" and ch: "reply_chunks net n c0 ds"
    and ans: "answers net (get_request (path gfr)) = Some (ok_reply n @ c0) # map Some ds @ Some [] # rs"
    and short: "length (c0 @ concat ds) < n"
  shows "gfc_perform net gfr = Inr (Returned (- 1) None (map Write_cb (c0 # ds)))"
proof -
  have le: "length c0 \<le> n" "length c0 \<noteq> n" using short by auto
  obtain st b where st: "length b = 4096" "body_state st n (length c0) [Write_cb c0]"
    and run: "gfc_perform net gfr = (if length c0 = n then Inr (Returned 0 None [Write_cb c0])
      else receive_loop (net_junk net 1) (map Some ds @ Some [] # rs) b st)"
    using perform_header_ok [OF r ans refl] ch le(1) unfolding reply_chunks_def by blast
  with receive_body_closed [OF st(2), of b ds] ch short le(2) show ?thesis
    by (simp add: reply_chunks_def)
qed

section \<open>Replies without a file\<close>

lemma strcmp_const_eq: "NUL \<notin> set s \<Longrightarrow> NUL \<notin> set t \<Longrightarrow> strcmp s t = 0 \<longleftrightarrow> s = t"
  by (rule strcmp_eq_0)

text \<open>The copy of a first chunk that starts with the scheme and a status of its own.\<close>

lemma receive_header_status:
  assumes d: "d = ''GETFILE '' @ s @ c # z" and s: "s \<noteq> []" "set s \<inter> set SPACE_CRLF = {}" "NUL \<notin> set s"
    and c: "c \<in> set SPACE_CRLF" and len: "length d \<le> 4096" "10 < length d" and ne: "s \<noteq> ''OK''"
  shows "receive_header junk (d @ r) (size_of_nat (length d)) st =
    (if s = ''FILE_NOT_FOUND'' \<or> s = ''ERROR''
     then bindE (call_header (set_status (req st) s) (''GETFILE '' @ s) (evlog st))
       (\<lambda>ev. Inr (Return_now 0 (set_status (req st) s) ev))
     else Inr (Return_now (- 1) (reject (req st)) (evlog st)))"
proof -
  let ?w = "size_of_nat (length d)"
  have u: "unat ?w = length d" "unat (?w + 1) = Suc (length d)"
    using len(1) by (simp_all add: size_of_nat_def unat_word_ariths unat_of_nat)
  have nle: "\<not> ?w \<le> 7" "\<not> ?w \<le> 10" using u(1) len(2) by (auto simp: word_le_nat_alt)
  have g: "get_bytes (d @ r) 0 (length d) = Inr d" by (simp add: get_bytes_def)
  define x where "x = drop (length d) (fresh_block junk (Suc (length d)))"
  have pb: "put_bytes (fresh_block junk (Suc (length d))) 0 d = Inr (d @ x)"
    by (simp add: put_bytes_at_start x_def)
  define y where "y = z @ x"
  have dd: "d @ x = [] @ [] @ ''GETFILE'' @ CHR '' '' # (s @ c # y)" by (simp add: d y_def)
  have 1: "strtok_at (d @ x) 0 '' '' = Inr (Some 0, 8, ''GETFILE'' @ NUL # s @ c # y)"
    unfolding dd by (subst strtok_at_token) auto
  have s1: "cstr_at (''GETFILE'' @ NUL # t) 0 = Inr ''GETFILE''" for t by (rule cstr_at_start) simp
  have b2: "''GETFILE'' @ NUL # s @ c # y = (''GETFILE'' @ [NUL]) @ [] @ s @ c # y" by simp
  have 2: "strtok_at (''GETFILE'' @ NUL # s @ c # y) 8 SPACE_CRLF =
      Inr (Some 8, 8 + Suc (length s), (''GETFILE'' @ [NUL]) @ [] @ s @ NUL # y)"
    unfolding b2 by (subst strtok_at_token) (use s c in \<open>auto simp: SPACE_CRLF_def\<close>)
  have s2: "cstr_at ((''GETFILE'' @ [NUL]) @ [] @ s @ NUL # y) 8 = Inr s"
    using cstr_at_known [of s 8 "''GETFILE'' @ [NUL]" y] s(3) by simp
  have cmp: "strcmp s ''OK'' \<noteq> 0" "strcmp s ''FILE_NOT_FOUND'' = 0 \<longleftrightarrow> s = ''FILE_NOT_FOUND''"
    "strcmp s ''ERROR'' = 0 \<longleftrightarrow> s = ''ERROR''"
    using s(3) ne by (simp_all add: strcmp_const_eq)
  show ?thesis
    unfolding receive_header_def u g bindE_Inr pb 1 2 prod.case str_of_def option.case s1 s2
    by (simp add: nle cmp)
qed

lemma receive_error_answer:
  assumes "length buffer < 2 ^ 64 - 1" and "writerfunc (req st)"
  shows "receive_loop junk (None # rs) buffer st = Inl Out_of_bounds"
proof -
  have "unat (- 1 :: size_t) = 2 ^ 64 - 1" by (simp add: unsigned_minus_1_eq_mask mask_eq_exp_minus_1)
  then have "get_bytes buffer 0 (unat (- 1 :: size_t)) = Inl Out_of_bounds"
    using assms(1) by (simp add: get_bytes_def)
  with assms(2) show ?thesis
    by (simp add: recv_into_def receive_header_def call_writer_def Let_def)
qed

lemma receive_loop_frees:
  "receive_loop junk rs buffer st = Inr (Returned v p ev) \<Longrightarrow> p = None"
  by (induction rs arbitrary: buffer st)
    (auto simp: Let_def elim!: bindE_eq_InrE split: prod.splits if_splits header_result.splits)

lemma receive_body_failed:
  "body_state st n m ev \<Longrightarrow> chunks_ok (length buffer) ds \<Longrightarrow> m + length (concat ds) < n \<Longrightarrow>
   length buffer < 2 ^ 64 - 1 \<Longrightarrow>
   receive_loop junk (map Some ds @ None # rs) buffer st = Inl Out_of_bounds"
proof (induction ds arbitrary: st m ev buffer)
  case Nil
  then show ?case by (simp add: receive_error_answer body_state_def del: receive_loop.simps)
next
  case (Cons d ds)
  from Cons.prems have d: "d \<noteq> []" "length d \<le> length buffer" "m + length d \<le> n"
    and ds: "chunks_ok (length buffer) ds" by (auto simp: chunks_ok_def)
  obtain st' b' where st': "length b' = length buffer" "body_state st' n (m + length d) (ev @ [Write_cb d])"
    and run: "receive_loop junk (Some d # (map Some ds @ None # rs)) buffer st = (if m + length d = n
      then Inr (Returned 0 None (ev @ [Write_cb d])) else receive_loop junk (map Some ds @ None # rs) b' st')"
    using body_chunk [OF Cons.prems(1) d, of junk "map Some ds @ None # rs"] by blast
  with Cons.IH [OF st'(2), of b'] ds Cons.prems(3,4) show ?case by simp
qed

section \<open>First chunks that end inside the header\<close>

lemma receive_header_short:
  assumes d: "d = ''GETFILE OK '' @ show_nat n @ take j CRLF2" and j: "0 < j" "j < 4"
    and len: "length d \<le> 4096" and junk: "junk (length d) = NUL" and wf: "writerfunc (req st)"
    and r: "length (d @ r) \<le> 4096"
  shows "receive_header junk (d @ r) (size_of_nat (length d)) st = Inl Out_of_bounds"
proof -
  let ?k = "length (show_nat n)"
  let ?w = "size_of_nat (length d)"
  have ld: "length d = ?k + 11 + j" using j by (simp add: d)
  have u: "unat ?w = length d" "unat (?w + 1) = Suc (length d)"
    using len by (simp_all add: size_of_nat_def unat_word_ariths unat_of_nat)
  have nle: "\<not> ?w \<le> 7" "\<not> ?w \<le> 10" using u(1) ld by (auto simp: word_le_nat_alt)
  have g: "get_bytes (d @ r) 0 (length d) = Inr d" by (simp add: get_bytes_def)
  have fr: "drop (length d) (fresh_block junk (Suc (length d))) = [NUL]"
    using junk by (simp add: fresh_block_def drop_map)
  have pb: "put_bytes (fresh_block junk (Suc (length d))) 0 d = Inr (d @ [NUL])"
    by (simp add: put_bytes_at_start fr)
  define q where "q = take (j - 1) [CHR 0x0A, CHR 0x0D, CHR 0x0A] @ [NUL]"
  have tj: "take j CRLF2 @ [NUL] = CHR 0x0D # q" using j by (cases j) (simp_all add: CRLF2_def q_def)
  have dd: "d @ [NUL] = [] @ [] @ ''GETFILE'' @ CHR '' '' # (''OK '' @ show_nat n @ CHR 0x0D # q)"
    using tj by (simp add: d)
  have 1: "strtok_at (d @ [NUL]) 0 '' '' = Inr (Some 0, 8, ''GETFILE'' @ NUL # ''OK '' @ show_nat n @ CHR 0x0D # q)"
    unfolding dd by (subst strtok_at_token) auto
  have s1: "cstr_at (''GETFILE'' @ NUL # x) 0 = Inr ''GETFILE''" for x by (rule cstr_at_start) simp
  have b2: "''GETFILE'' @ NUL # ''OK '' @ show_nat n @ CHR 0x0D # q =
      (''GETFILE'' @ [NUL]) @ [] @ ''OK'' @ CHR '' '' # (show_nat n @ CHR 0x0D # q)" by simp
  have 2: "strtok_at (''GETFILE'' @ NUL # ''OK '' @ show_nat n @ CHR 0x0D # q) 8 SPACE_CRLF =
      Inr (Some 8, 11, (''GETFILE'' @ [NUL]) @ [] @ ''OK'' @ NUL # show_nat n @ CHR 0x0D # q)"
    unfolding b2 by (subst strtok_at_token) (auto simp: SPACE_CRLF_def)
  let ?pre = "''GETFILE'' @ NUL # ''OK'' @ [NUL]"
  let ?b3 = "?pre @ show_nat n @ CHR 0x0D # q"
  have s2: "cstr_at ?b3 8 = Inr ''OK''"
    using cstr_at_known [of "''OK''" 8 "''GETFILE'' @ [NUL]" "show_nat n @ CHR 0x0D # q"] by simp
  obtain x xs where dg: "show_nat n = x # xs" by (cases "show_nat n") auto
  have "x \<noteq> NUL" using show_nat_digits [of n] dg digit_neq(1) by auto
  then obtain e where 3: "strtok_at ?b3 11 [] = Inr (Some 11, e, ?b3)"
    using strtok_at_rest [of 11 ?b3] dg by (auto simp: nth_append q_def)
  have b4: "?b3 = ?pre @ [] @ show_nat n @ CHR 0x0D # q" by simp
  have 4: "strtok_at ?b3 11 SPACE_CRLF = Inr (Some 11, Suc (11 + ?k), ?pre @ show_nat n @ NUL # q)"
    unfolding b4 by (subst strtok_at_token) (use digits_token in \<open>auto simp: SPACE_CRLF_def\<close>)
  have s3: "cstr_at (?pre @ show_nat n @ NUL # z) 11 = Inr (show_nat n)" for z
    by (rule cstr_at_known) auto
  have b3: "(''GETFILE'' @ [NUL]) @ [] @ ''OK'' @ NUL # show_nat n @ CHR 0x0D # q = ?b3" by simp
  have "?w - size_of_nat ?k - 15 = size_of_nat (2 ^ 64 - (4 - j))"
    using j by (simp add: ld size_of_nat_def of_nat_diff)
  then have big: "unat (?w - size_of_nat ?k - 15) = 2 ^ 64 - (4 - j)"
    using j by (simp add: unat_size_of_nat)
  have oob: "get_bytes (d @ r) (?k + 15) (unat (?w - size_of_nat ?k - 15)) = Inl Out_of_bounds"
    using r j unfolding big by (simp add: get_bytes_def)
  have "receive_header junk (d @ r) ?w st = receive_ok (d @ r) ?b3 11 ?w ''OK'' st"
    unfolding receive_header_def u g bindE_Inr pb 1 2 prod.case str_of_def option.case s1 b3 s2
    by (simp add: nle)
  also have "\<dots> = Inl Out_of_bounds"
    unfolding receive_ok_def Let_def 3 4 bindE_Inr prod.case option.case str_of_def s3
    by (simp add: call_writer_def set_status_def wf oob)
  finally show ?thesis .
qed

section \<open>Properties\<close>

definition sample_request :: gfcrequest_t where
  "sample_request = gfc_set_writefunc (gfc_set_path (gfc_set_port (gfc_set_server (gfc_create
     \<lparr>server = [], path = [], port = 0, status = OK, statusText = Inl Uninitialised,
      bytesOfFileReceived = 0, filelength = 0, headerargument = None, headerfunc = False, writerfunc = False\<rparr>)
     ''localhost'') 8888) ''/a.txt'')"

definition sample_net :: "recv_result list \<Rightarrow> network" where
  "sample_net rs = \<lparr>socket_ok = True, host_known = True, connect_ok = True, answers = (\<lambda>m. rs),
     net_junk = (\<lambda>_ _. NUL)\<rparr>"

lemma sample_reachable: "reachable (sample_net rs) sample_request"
  by (simp add: reachable_def sample_net_def sample_request_def gfc_set_writefunc_def gfc_set_path_def)

lemma sample_answers: "answers (sample_net rs) m = rs"
  by (simp add: sample_net_def)

lemma sample_junk: "net_junk (sample_net rs) i j = NUL"
  by (simp add: sample_net_def)

lemmas sample_simps = sample_answers sample_junk chunks_ok_def reply_chunks_def

lemma length_show_small: "n < 10 \<Longrightarrow> length (show_nat n) = 1"
  by (simp add: show_nat.simps)

text \<open>
  The message \<open>gfc_perform\<close> builds is exactly \<open>GETFILE GET path\<close> and the end mark; the
  block of 18 bytes more than the path holds it with its NUL for every path.
\<close>

lemma client_message_fits:
  assumes "NUL \<notin> set p"
  shows "make_message junk p = Inr (''GETFILE GET '' @ p @ CRLF2)"
  using make_message_known [OF assms] by (simp add: get_request_def)

text \<open>
  C21: When the first chunk holds the whole OK header (and the byte behind its copy happens
  to be NUL), the client hands the callback exactly the bytes of the file, in order, however
  the rest is split into chunks, returns 0 at the last byte and reads nothing behind it.
\<close>

theorem client_receives_file:
  assumes "reachable net gfr" and "reply_chunks net (length f) c0 ds" and "f = c0 @ concat ds"
    and "answers net (get_request (path gfr)) = Some (ok_reply (length f) @ c0) # map Some ds @ rs"
  shows "gfc_perform net gfr = Inr (Returned 0 None (map Write_cb (c0 # ds)))"
  using perform_complete [OF assms(1,2,4,3)] .

theorem client_receives_file_witness:
  "gfc_perform (sample_net [Some (ok_reply 5 @ ''he''), Some ''l'', Some ''lo'', None]) sample_request =
     Inr (Returned 0 None [Write_cb ''he'', Write_cb ''l'', Write_cb ''lo''])"
proof -
  let ?net = "sample_net [Some (ok_reply 5 @ ''he''), Some ''l'', Some ''lo'', None]"
  have "reply_chunks ?net (length ''hello'') ''he'' [''l'', ''lo'']"
    by (simp add: reply_chunks_def chunks_ok_def sample_junk length_ok_reply length_show_small)
  moreover have l: "length ''hello'' = 5" by simp
  ultimately show ?thesis
    using client_receives_file [OF sample_reachable, of "[Some (ok_reply 5 @ ''he''), Some ''l'', Some ''lo'', None]" "''hello''" "''he''" "[''l'', ''lo'']" "[None]"]
    unfolding l by (simp add: sample_answers)
qed

text \<open>
  When the peer closes the connection before the announced length has arrived, the
  client has handed over what came and returns -1.
\<close>

lemma client_detects_short_file:
  assumes "reachable net gfr" and "reply_chunks net n c0 ds" and "length (c0 @ concat ds) < n"
    and "answers net (get_request (path gfr)) = Some (ok_reply n @ c0) # map Some ds @ Some [] # rs"
  shows "gfc_perform net gfr = Inr (Returned (- 1) None (map Write_cb (c0 # ds)))"
  using perform_closed_early [OF assms(1,2,4,3)] .

text \<open>
  A reply with status FILE_NOT_FOUND or ERROR makes the client return 0 without calling
  the writer; with any other status but OK it returns -1.
\<close>

lemma client_error_replies:
  assumes "reachable net gfr" and "headerargument gfr = None"
    and "s \<noteq> []" and "set s \<inter> set SPACE_CRLF = {}" and "NUL \<notin> set s" and "s \<noteq> ''OK''"
    and "c \<in> set SPACE_CRLF" and "length (''GETFILE '' @ s @ c # z) \<le> 4096" and "2 < length (s @ c # z)"
    and "answers net (get_request (path gfr)) = Some (''GETFILE '' @ s @ c # z) # rs"
  shows "gfc_perform net gfr =
    Inr (Returned (if s = ''FILE_NOT_FOUND'' \<or> s = ''ERROR'' then 0 else - 1) None [])"
proof -
  let ?d = "''GETFILE '' @ s @ c # z"
  let ?b = "fresh_block (net_junk net 2) 4096"
  define st where "st = (first_state gfr)\<lparr>bytesTotal := bytesTotal (first_state gfr) + size_of_nat (length ?d)\<rparr>"
  have st: "req st = gfr" "evlog st = []" by (simp_all add: st_def first_state_def)
  have "gfc_perform net gfr = receive_loop (net_junk net 1) (Some ?d # rs) ?b (first_state gfr)"
    using gfc_perform_known [OF assms(1)] assms(10) by simp
  also have "\<dots> = bindE (receive_header (net_junk net 1) (?d @ drop (length ?d) ?b) (size_of_nat (length ?d)) st)
      (\<lambda>h. case h of Return_now v gfr ev \<Rightarrow> Inr (Returned v None ev)
        | Transfer_done st2 \<Rightarrow> Inr (Returned 0 None (evlog st2))
        | Continue st2 \<Rightarrow> receive_loop (net_junk net 1) rs (?d @ drop (length ?d) ?b) st2)"
    unfolding st_def using assms(8) by (intro receive_first) (simp_all add: first_state_def)
  also have "\<dots> = Inr (Returned (if s = ''FILE_NOT_FOUND'' \<or> s = ''ERROR'' then 0 else - 1) None [])"
  proof (subst receive_header_status [OF refl assms(3-5,7) assms(8) _ assms(6)])
    show "10 < length ?d" using assms(9) by simp
  qed (use assms(2) in \<open>simp add: st call_header_def set_status_def\<close>)
  finally show ?thesis .
qed

text \<open>
  The client takes the first chunk to hold the whole header. When the stream happens to
  be cut inside the end mark, the length of what follows the header wraps around in
  \<open>size_t\<close> and the callback is told to read far beyond the receive buffer.
\<close>

lemma client_short_first_chunk:
  assumes "reachable net gfr" and "0 < j" and "j < 4" and "n < 10 ^ 20"
    and "net_junk net 1 (length (show_nat n) + 11 + j) = NUL"
    and "answers net (get_request (path gfr)) = Some (''GETFILE OK '' @ show_nat n @ take j CRLF2) # rs"
  shows "gfc_perform net gfr = Inl Out_of_bounds"
proof -
  let ?d = "''GETFILE OK '' @ show_nat n @ take j CRLF2"
  let ?b = "fresh_block (net_junk net 2) 4096"
  let ?st = "(first_state gfr)\<lparr>bytesTotal := bytesTotal (first_state gfr) + size_of_nat (length ?d)\<rparr>"
  have ld: "length ?d = length (show_nat n) + 11 + j" using assms(2,3) by simp
  have "length (show_nat n) \<le> 20" using assms(4) by (intro show_nat_length) auto
  with ld assms(3) have le: "length ?d \<le> 4096" by linarith
  have bl: "length (x @ drop (length x) ?b) \<le> 4096" if "length x \<le> 4096" for x
    using that by simp
  have wf: "writerfunc (req ?st)" using assms(1) by (simp add: reachable_def first_state_def)
  have "receive_header (net_junk net 1) (?d @ drop (length ?d) ?b) (size_of_nat (length ?d)) ?st = Inl Out_of_bounds"
    using assms(5) by (intro receive_header_short [OF refl assms(2,3) le _ wf bl [OF le]]) (simp only: ld)
  moreover have "receive_loop (net_junk net 1) (Some ?d # rs) ?b (first_state gfr) =
    bindE (receive_header (net_junk net 1) (?d @ drop (length ?d) ?b) (size_of_nat (length ?d)) ?st)
      (\<lambda>h. case h of Return_now v gfr ev \<Rightarrow> Inr (Returned v None ev)
        | Transfer_done st2 \<Rightarrow> Inr (Returned 0 None (evlog st2))
        | Continue st2 \<Rightarrow> receive_loop (net_junk net 1) rs (?d @ drop (length ?d) ?b) st2)"
    using le by (intro receive_first) (simp_all add: first_state_def)
  ultimately show ?thesis using gfc_perform_known [OF assms(1)] assms(6) by simp
qed

text \<open>
  C39: A failing \<open>recv\<close> is never noticed: the result is stored in an unsigned variable, so
  the test for a negative value cannot hold and \<open>-1\<close> is used as the number of bytes read,
  at the first chunk and at any later one.
\<close>

theorem client_recv_error_overflows:
  assumes "reachable net gfr" and "reply_chunks net n c0 ds" and "length (c0 @ concat ds) < n"
    and "ev \<in> {None # rs, Some (ok_reply n @ c0) # map Some ds @ None # rs}"
    and "answers net (get_request (path gfr)) = ev"
  shows "gfc_perform net gfr = Inl Out_of_bounds"
proof (cases "ev = None # rs")
  case True
  have "receive_loop (net_junk net 1) (None # rs) (fresh_block (net_junk net 2) 4096) (first_state gfr) = Inl Out_of_bounds"
    using assms(1) by (intro receive_error_answer) (simp_all add: reachable_def first_state_def)
  with True gfc_perform_known [OF assms(1)] assms(5) show ?thesis by simp
next
  case False
  with assms(4,5) have ans: "answers net (get_request (path gfr)) = Some (ok_reply n @ c0) # map Some ds @ None # rs"
    by auto
  have le: "length c0 \<le> n" "length c0 \<noteq> n" using assms(3) by auto
  obtain st b where st: "length b = 4096" "body_state st n (length c0) [Write_cb c0]"
    and run: "gfc_perform net gfr = (if length c0 = n then Inr (Returned 0 None [Write_cb c0])
      else receive_loop (net_junk net 1) (map Some ds @ None # rs) b st)"
    using perform_header_ok [OF assms(1) ans refl] assms(2) le(1) unfolding reply_chunks_def by blast
  have "chunks_ok (length b) ds" using assms(2) st(1) by (simp add: reply_chunks_def)
  moreover have "length c0 + length (concat ds) < n" using assms(3) by simp
  ultimately have "receive_loop (net_junk net 1) (map Some ds @ None # rs) b st = Inl Out_of_bounds"
    using receive_body_failed [OF st(2)] st(1) by simp
  with run le(2) show ?thesis by simp
qed

theorem client_recv_error_overflows_witness:
  "gfc_perform (sample_net [Some (ok_reply 5 @ ''he''), Some ''l'', None]) sample_request = Inl Out_of_bounds"
proof -
  let ?net = "sample_net [Some (ok_reply 5 @ ''he''), Some ''l'', None]"
  have "reply_chunks ?net 5 ''he'' [''l'']"
    by (simp add: reply_chunks_def chunks_ok_def sample_junk length_ok_reply length_show_small)
  from client_recv_error_overflows [OF sample_reachable this, of _ "[]"] show ?thesis
    by (simp add: sample_answers)
qed

text \<open>
  Whenever \<open>gfc_perform\<close> returns after the connection was made, it has freed the request
  object. Every getter the documentation offers for the finished transfer, and
  \<open>gfc_cleanup\<close> itself, then uses freed memory.
\<close>

lemma client_getters_after_perform:
  assumes "reachable net gfr" and "gfc_perform net gfr = Inr (Returned v p ev)"
  shows "gfc_get_status p = Inl Use_after_free \<and> gfc_get_filelen p = Inl Use_after_free \<and>
    gfc_get_bytesreceived p = Inl Use_after_free \<and> gfc_cleanup p = Inl Use_after_free"
proof -
  have "p = None" using assms gfc_perform_known [OF assms(1)] by (auto intro: receive_loop_frees)
  then show ?thesis
    by (simp add: gfc_get_status_def gfc_get_filelen_def gfc_get_bytesreceived_def gfc_cleanup_def live_def)
qed

end
