(* ===== verification/Workload.thy ===== *)
theory Workload
  imports CString
begin

text \<open>
  The list of paths the download clients request, \<open>workload.c\<close> (the same file in
  \<open>getfile\<close> and \<open>multithreadgetfile\<close>): an array of 100 strings filled with
  \<open>fscanf("%s")\<close>, and a counter that picks the next path. Running off the array or the
  buffer for a word, and a remainder by zero, are faults.
\<close>

section \<open>State\<close>

datatype workload_mode = WORKLOAD_SEQ | WORKLOAD_RND

record workload =
  gWorkloadPathArray :: "string list"    \<comment> \<open>the entries filled so far, of 100\<close>
  gUniqueWorkloadPaths :: "16 word"
  counter :: int
  mode :: workload_mode

definition workload_start :: workload where
  "workload_start = \<lparr>gWorkloadPathArray = [], gUniqueWorkloadPaths = 0, counter = 0, mode = WORKLOAD_SEQ\<rparr>"

definition PATH_SLOTS :: nat where "PATH_SLOTS = 100"

definition WORD_BUF :: nat where "WORD_BUF = 256"

definition EXIT_SUCCESS :: int where "EXIT_SUCCESS = 0"

definition EXIT_FAILURE :: int where "EXIT_FAILURE = 1"

section \<open>Loading\<close>

text \<open>\<open>fscanf\<close> with \<open>%s\<close>: the next word and the bytes behind it, \<open>None\<close> for \<open>EOF\<close>.\<close>

definition scan_word :: "string \<Rightarrow> (string \<times> string) option" where
  "scan_word s =
     (let t = dropWhile is_space s in
      if t = [] then None else Some (takeWhile (\<lambda>c. \<not> is_space c) t, dropWhile (\<lambda>c. \<not> is_space c) t))"

lemma scan_word_shorter: "scan_word s = Some (w, s') \<Longrightarrow> length s' < length s"
proof -
  assume "scan_word s = Some (w, s')"
  then have t: "dropWhile is_space s \<noteq> []" "s' = dropWhile (\<lambda>c. \<not> is_space c) (dropWhile is_space s)"
    by (auto simp: scan_word_def Let_def split: if_splits)
  then obtain c r where c: "dropWhile is_space s = c # r" by (cases "dropWhile is_space s") auto
  then have "\<not> is_space c" using hd_dropWhile [OF t(1)] by simp
  with t(2) c have "length s' < length (dropWhile is_space s)"
    by (simp add: le_imp_less_Suc length_dropWhile_le)
  also have "\<dots> \<le> length s" by (rule length_dropWhile_le)
  finally show ?thesis .
qed

function workload_read :: "string list \<Rightarrow> string \<Rightarrow> cfault + string list" where
  "workload_read ws s =
     (case scan_word s of
        None \<Rightarrow> Inr ws
      | Some (w, s') \<Rightarrow>
          bindE (assertE Out_of_bounds (length w < WORD_BUF)) (\<lambda>_.
          bindE (assertE Out_of_bounds (length ws < PATH_SLOTS)) (\<lambda>_.
          workload_read (ws @ [w]) s')))"
  by pat_completeness auto
termination
  by (relation "measure (\<lambda>(_, s). length s)") (auto dest: scan_word_shorter)

declare workload_read.simps [simp del]

text \<open>The file is \<open>None\<close> when it cannot be opened. The count is stored in an unsigned short.\<close>

definition workload_init :: "string option \<Rightarrow> workload \<Rightarrow> cfault + int \<times> workload" where
  "workload_init file w =
     (case file of
        None \<Rightarrow> Inr (EXIT_FAILURE, w)
      | Some bytes \<Rightarrow> bindE (workload_read [] bytes) (\<lambda>ws.
          Inr (EXIT_SUCCESS, w\<lparr>gWorkloadPathArray := ws, gUniqueWorkloadPaths := of_nat (length ws)\<rparr>)))"

definition workload_num_unique_paths :: "workload \<Rightarrow> 16 word" where
  "workload_num_unique_paths w = gUniqueWorkloadPaths w"

section \<open>Picking a path\<close>

text \<open>The slots of the array behind the entries are null.\<close>

definition path_at :: "workload \<Rightarrow> int \<Rightarrow> cfault + string option" where
  "path_at w i =
     (if i < 0 \<or> int PATH_SLOTS \<le> i then Inl Out_of_bounds
      else Inr (if nat i < length (gWorkloadPathArray w) then Some (gWorkloadPathArray w ! nat i) else None))"

text \<open>The increment, made with the lock held, and the read of the counter after it was released.\<close>

definition bump_counter :: "workload \<Rightarrow> cfault + workload" where
  "bump_counter w = bindE (c_int (counter w + 1)) (\<lambda>n. Inr (w\<lparr>counter := n\<rparr>))"

definition read_counter :: "workload \<Rightarrow> cfault + string option" where
  "read_counter w =
     (if gUniqueWorkloadPaths w = 0 then Inl Div_by_zero
      else path_at w (counter w mod int (unat (gUniqueWorkloadPaths w))))"

text \<open>\<open>rnd\<close> is what \<open>rand()\<close> returns; the product is exact in a double.\<close>

definition workload_get_path :: "int \<Rightarrow> workload \<Rightarrow> cfault + string option \<times> workload" where
  "workload_get_path rnd w =
     (if mode w = WORKLOAD_RND
      then bindE (path_at w (int (unat (gUniqueWorkloadPaths w)) * rnd div 2 ^ 31)) (\<lambda>p. Inr (p, w))
      else bindE (bump_counter w) (\<lambda>w1. bindE (read_counter w1) (\<lambda>p. Inr (p, w1))))"

primrec get_paths :: "nat \<Rightarrow> workload \<Rightarrow> cfault + string option list \<times> workload" where
  "get_paths 0 w = Inr ([], w)"
| "get_paths (Suc n) w =
     bindE (workload_get_path 0 w) (\<lambda>(p, w1). bindE (get_paths n w1) (\<lambda>(ps, w2). Inr (p # ps, w2)))"

section \<open>Loading a file of one path per line\<close>

definition path_word :: "string \<Rightarrow> bool" where
  "path_word w \<longleftrightarrow> w \<noteq> [] \<and> length w < WORD_BUF \<and> (\<forall>c \<in> set w. \<not> is_space c)"

definition path_lines :: "string list \<Rightarrow> string" where
  "path_lines ws = concat (map (\<lambda>w. w @ [CHR 0x0A]) ws)"

lemma scan_word_sep:
  assumes "path_word w" and "is_space x"
  shows "scan_word (w @ x # r) = Some (w, x # r)"
proof -
  obtain c cs where "w = c # cs" "\<not> is_space c" using assms by (cases w) (auto simp: path_word_def)
  then have "dropWhile is_space (w @ x # r) = w @ x # r" by simp
  then show ?thesis
    using assms by (simp add: scan_word_def path_word_def takeWhile_tail dropWhile_append3)
qed

lemma scan_word_space: "is_space x \<Longrightarrow> scan_word (x # r) = scan_word r"
  by (simp add: scan_word_def)

lemma newline_space: "is_space (CHR 0x0A)" "is_space (CHR 0x20)"
  by (simp_all add: is_space_def)

lemma scan_word_newline: "scan_word (CHR 0x0A # r) = scan_word r"
  by (simp add: scan_word_space newline_space)

lemma workload_read_newline: "workload_read ws (CHR 0x0A # r) = workload_read ws r"
  by (simp add: workload_read.simps [of ws "CHR 0x0A # r"] workload_read.simps [of ws r] scan_word_newline)

lemma workload_read_lines:
  "\<forall>w \<in> set ws. path_word w \<Longrightarrow> length acc \<le> PATH_SLOTS \<Longrightarrow>
   workload_read acc (path_lines ws) =
     (if length acc + length ws \<le> PATH_SLOTS then Inr (acc @ ws) else Inl Out_of_bounds)"
proof (induction ws arbitrary: acc)
  case Nil
  then show ?case by (simp add: path_lines_def workload_read.simps [of acc "[]"] scan_word_def)
next
  case (Cons w ws)
  then have w: "path_word w" by simp
  have "workload_read acc (path_lines (w # ws)) =
      (if length acc < PATH_SLOTS then workload_read (acc @ [w]) (path_lines ws) else Inl Out_of_bounds)"
    using w by (simp add: path_lines_def workload_read.simps [of acc "w @ x" for x] scan_word_sep
        newline_space workload_read_newline) (simp add: path_word_def)
  with Cons show ?case by auto
qed

section \<open>The order of the requests\<close>

definition loaded :: "string list \<Rightarrow> int \<Rightarrow> workload \<Rightarrow> bool" where
  "loaded ws i w \<longleftrightarrow> gWorkloadPathArray w = ws \<and> gUniqueWorkloadPaths w = of_nat (length ws) \<and>
     counter w = i \<and> mode w = WORKLOAD_SEQ"

lemma unat_count: "n \<le> PATH_SLOTS \<Longrightarrow> unat (of_nat n :: 16 word) = n"
  by (simp add: PATH_SLOTS_def unat_of_nat)

lemma read_loaded:
  assumes "loaded ws i w" and "0 \<le> i" and "ws \<noteq> []" and "length ws \<le> PATH_SLOTS"
  shows "read_counter w = Inr (Some (ws ! nat (i mod int (length ws))))"
proof -
  let ?n = "int (length ws)"
  have n: "0 < ?n" "length ws \<le> 100" using assms(3,4) by (auto simp: PATH_SLOTS_def)
  have r: "0 \<le> i mod ?n" "i mod ?n < ?n" using n by simp_all
  then have lt: "nat (i mod ?n) < length ws" by linarith
  have u: "unat (of_nat (length ws) :: 16 word) = length ws" using assms(4) by (rule unat_count)
  then have nz: "(of_nat (length ws) :: 16 word) \<noteq> 0" using assms(3) by (metis length_0_conv unat_0)
  show ?thesis using assms(1) r lt n(2) nz u by (simp add: loaded_def read_counter_def path_at_def PATH_SLOTS_def)
qed

lemma bump_loaded:
  "loaded ws i w \<Longrightarrow> 0 \<le> i \<Longrightarrow> i < int_max \<Longrightarrow> \<exists>w'. bump_counter w = Inr w' \<and> loaded ws (i + 1) w'"
  by (simp add: loaded_def bump_counter_def c_int_def)

lemma get_path_next:
  assumes "loaded ws i w" and "0 \<le> i" and "i < int_max" and "ws \<noteq> []" and "length ws \<le> PATH_SLOTS"
  shows "\<exists>w'. workload_get_path rnd w = Inr (Some (ws ! nat ((i + 1) mod int (length ws))), w') \<and>
    loaded ws (i + 1) w'"
proof -
  obtain w1 where w1: "bump_counter w = Inr w1" "loaded ws (i + 1) w1"
    using bump_loaded [OF assms(1-3)] by blast
  have "read_counter w1 = Inr (Some (ws ! nat ((i + 1) mod int (length ws))))"
    using assms(2) by (intro read_loaded [OF w1(2) _ assms(4,5)]) simp
  with w1 assms(1) show ?thesis by (simp add: workload_get_path_def loaded_def)
qed

lemma get_paths_loaded:
  "loaded ws i w \<Longrightarrow> 0 \<le> i \<Longrightarrow> i + int m \<le> int_max \<Longrightarrow> ws \<noteq> [] \<Longrightarrow> length ws \<le> PATH_SLOTS \<Longrightarrow>
   \<exists>w'. get_paths m w = Inr (map (\<lambda>j. Some (ws ! nat ((i + 1 + int j) mod int (length ws)))) [0..<m], w') \<and>
     loaded ws (i + int m) w'"
proof (induction m arbitrary: i w)
  case (Suc m)
  have lt: "i < int_max" using Suc.prems(3) by simp
  obtain w1 where w1: "workload_get_path 0 w = Inr (Some (ws ! nat ((i + 1) mod int (length ws))), w1)"
    "loaded ws (i + 1) w1" using get_path_next [OF Suc.prems(1,2) lt Suc.prems(4,5)] by blast
  obtain w2 where w2: "get_paths m w1 =
      Inr (map (\<lambda>j. Some (ws ! nat ((i + 1 + 1 + int j) mod int (length ws)))) [0..<m], w2)"
    "loaded ws (i + 1 + int m) w2"
    using Suc.IH [OF w1(2)] Suc.prems by (auto simp: algebra_simps)
  have "map (\<lambda>j. Some (ws ! nat ((i + 1 + int j) mod int (length ws)))) [0..<Suc m] =
      Some (ws ! nat ((i + 1) mod int (length ws))) #
      map (\<lambda>j. Some (ws ! nat ((i + 1 + 1 + int j) mod int (length ws)))) [0..<m]"
    by (simp add: upt_conv_Cons map_Suc_upt [symmetric] algebra_simps comp_def del: upt_Suc)
  with w1 w2 show ?case by (simp add: algebra_simps)
qed simp

lemma rotate1_nth_list:
  "ws \<noteq> [] \<Longrightarrow> map (\<lambda>j. ws ! (Suc j mod length ws)) [0..<length ws] = rotate1 ws"
  by (rule nth_equalityI) (simp_all add: nth_rotate1)

text \<open>Two callers at once: each increments under the lock, and reads the counter later.\<close>

datatype wl_act = Bump nat | Read nat

primrec run_acts :: "wl_act list \<Rightarrow> workload \<Rightarrow> cfault + (nat \<times> string option) list \<times> workload" where
  "run_acts [] w = Inr ([], w)"
| "run_acts (a # as) w =
     (case a of
        Bump t \<Rightarrow> bindE (bump_counter w) (run_acts as)
      | Read t \<Rightarrow> bindE (read_counter w) (\<lambda>p. bindE (run_acts as w) (\<lambda>(ps, w'). Inr ((t, p) # ps, w'))))"

section \<open>Properties\<close>

text \<open>
  A workload file of one path per line (at most 100 paths of at most 255 bytes) is
  loaded completely, and the requests then go round: the next call returns the second path,
  and as many calls as there are paths return each line exactly once, the first one last.
\<close>

lemma workload_round_robin:
  assumes "\<forall>w \<in> set ws. path_word w" and "ws \<noteq> []" and "length ws \<le> 100"
  shows "\<exists>w w'. workload_init (Some (path_lines ws)) workload_start = Inr (EXIT_SUCCESS, w) \<and>
    get_paths (length ws) w = Inr (map Some (rotate1 ws), w') \<and> counter w' = int (length ws)"
proof -
  let ?w = "workload_start\<lparr>gWorkloadPathArray := ws, gUniqueWorkloadPaths := of_nat (length ws)\<rparr>"
  have "workload_init (Some (path_lines ws)) workload_start = Inr (EXIT_SUCCESS, ?w)"
    using workload_read_lines [OF assms(1), of "[]"] assms(3) by (simp add: workload_init_def PATH_SLOTS_def)
  moreover have l: "loaded ws 0 ?w" by (simp add: loaded_def workload_start_def)
  obtain w' where "get_paths (length ws) ?w =
      Inr (map (\<lambda>j. Some (ws ! nat ((0 + 1 + int j) mod int (length ws)))) [0..<length ws], w')"
    "loaded ws (0 + int (length ws)) w'"
    using get_paths_loaded [OF l, of "length ws"] assms(2,3) by (auto simp: PATH_SLOTS_def int_max_def)
  moreover have "nat ((0 + 1 + int j) mod int (length ws)) = Suc j mod length ws" for j
    by (simp add: nat_mod_distrib flip: of_nat_Suc)
  moreover have "map (\<lambda>j. Some (ws ! (Suc j mod length ws))) [0..<length ws] = map Some (rotate1 ws)"
    using rotate1_nth_list [OF assms(2)] by (metis (no_types, lifting) map_map comp_apply map_eq_conv)
  ultimately show ?thesis by (auto simp: loaded_def)
qed

text \<open>
  A file of more than 100 paths is written past the end of the array; a file without a
  path loads successfully and the first request divides by zero.
\<close>

lemma workload_size_limits:
  assumes "\<forall>w \<in> set ws. path_word w"
  shows "(100 < length ws \<longrightarrow> workload_init (Some (path_lines ws)) workload_start = Inl Out_of_bounds) \<and>
    (ws = [] \<longrightarrow> (\<exists>w. workload_init (Some (path_lines ws)) workload_start = Inr (EXIT_SUCCESS, w) \<and>
      workload_get_path rnd w = Inl Div_by_zero))"
  using workload_read_lines [OF assms, of "[]"]
  by (auto simp: workload_init_def PATH_SLOTS_def workload_start_def workload_get_path_def bump_counter_def
      c_int_def int_max_def read_counter_def)

text \<open>
  The counter is read after the lock was released. When two callers are inside at once,
  both can get the same path, and the path whose turn it was before is skipped.
\<close>

lemma workload_counter_race:
  assumes "loaded ws i w" and "0 \<le> i" and "i + 2 \<le> int_max" and "ws \<noteq> []" and "length ws \<le> 100"
    and "p = ws ! nat ((i + 2) mod int (length ws))"
  shows "\<exists>w'. run_acts [Bump 0, Bump 1, Read 0, Read 1] w = Inr ([(0, Some p), (1, Some p)], w')"
proof -
  have len: "length ws \<le> PATH_SLOTS" using assms(5) by (simp add: PATH_SLOTS_def)
  obtain w1 where w1: "bump_counter w = Inr w1" "loaded ws (i + 1) w1"
    using bump_loaded [OF assms(1,2)] assms(3) by auto
  obtain w2 where w2: "bump_counter w1 = Inr w2" "loaded ws (i + 1 + 1) w2"
    using bump_loaded [OF w1(2)] assms(2,3) by auto
  have "read_counter w2 = Inr (Some p)"
    using read_loaded [OF w2(2) _ assms(4) len] assms(2,6) by (simp add: algebra_simps)
  with w1 w2 show ?thesis by simp
qed

end
