(* ===== verification/Getopt.thy ===== *)
theory Getopt
  imports CString
begin

text \<open>
  What the programs use of the C library's \<open>getopt\<close> and \<open>getopt_long\<close>: the list of the option
  characters they return, with their arguments, for the words of a command line behind the
  program's name. A letter that is not in the option string, a long name that is not in the
  table or is short for several of its entries, and an option that lacks its argument give a
  question mark; words that are no options are skipped, as the GNU functions do.
\<close>

section \<open>Letters\<close>

definition opt_known :: "string \<Rightarrow> char \<Rightarrow> bool" where
  "opt_known os c \<longleftrightarrow> c \<noteq> CHR '':'' \<and> c \<in> set os"

text \<open>A colon behind the letter says that the option takes an argument.\<close>

definition opt_takes_arg :: "string \<Rightarrow> char \<Rightarrow> bool" where
  "opt_takes_arg os c \<longleftrightarrow> (case dropWhile (\<lambda>x. x \<noteq> c) os of _ # d # _ \<Rightarrow> d = CHR '':'' | _ \<Rightarrow> False)"

text \<open>The letters of one word, and the words behind it; the rest of the word or the next word is the argument.\<close>

primrec short_opts :: "string \<Rightarrow> string \<Rightarrow> string list \<Rightarrow> (char \<times> string) list \<times> string list" where
  "short_opts os [] ws = ([], ws)"
| "short_opts os (c # rest) ws =
     (if \<not> opt_known os c then (let (xs, ws') = short_opts os rest ws in ((CHR ''?'', []) # xs, ws'))
      else if opt_takes_arg os c then
        (if rest \<noteq> [] then ([(c, rest)], ws)
         else case ws of [] \<Rightarrow> ([(CHR ''?'', [])], []) | a # ws' \<Rightarrow> ([(c, a)], ws'))
      else (let (xs, ws') = short_opts os rest ws in ((c, []) # xs, ws')))"

section \<open>Long names\<close>

datatype has_arg = No_argument | Required_argument

type_synonym long_option = "string \<times> has_arg \<times> char"

text \<open>The entry of that name, or the one entry it is a beginning of.\<close>

definition find_long :: "long_option list \<Rightarrow> string \<Rightarrow> (has_arg \<times> char) option" where
  "find_long longs name =
     (case map_of longs name of
        Some x \<Rightarrow> Some x
      | None \<Rightarrow> (case remdups (map snd (filter (\<lambda>(n, _). take (length name) n = name) longs)) of
          [x] \<Rightarrow> Some x | _ \<Rightarrow> None))"

lemma short_opts_shorter: "(xs, ws') = short_opts os cs ws \<Longrightarrow> length ws' \<le> length ws"
  by (induction cs arbitrary: xs) (auto split: if_splits list.splits prod.splits)

function getopt_long :: "string \<Rightarrow> long_option list \<Rightarrow> string list \<Rightarrow> (char \<times> string) list" where
  "getopt_long os longs [] = []"
| "getopt_long os longs (w # ws) =
     (case w of
        d # c # rest \<Rightarrow>
          if d \<noteq> CHR ''-'' then getopt_long os longs ws
          else if c = CHR ''-'' \<and> rest = [] then []
          else if c = CHR ''-'' \<and> longs \<noteq> [] then
            (let name = takeWhile (\<lambda>x. x \<noteq> CHR ''='') rest; eq = drop (length name) rest in
             case find_long longs name of
               None \<Rightarrow> (CHR ''?'', []) # getopt_long os longs ws
             | Some (No_argument, v) \<Rightarrow> (if eq = [] then v else CHR ''?'', []) # getopt_long os longs ws
             | Some (Required_argument, v) \<Rightarrow>
                 (if eq \<noteq> [] then (v, tl eq) # getopt_long os longs ws
                  else case ws of [] \<Rightarrow> [(CHR ''?'', [])] | a # ws' \<Rightarrow> (v, a) # getopt_long os longs ws'))
          else (let (xs, ws') = short_opts os (c # rest) ws in xs @ getopt_long os longs ws')
      | _ \<Rightarrow> getopt_long os longs ws)"
  by pat_completeness auto
termination
  by (relation "measure (\<lambda>(_, _, ws). length ws)") (auto dest: short_opts_shorter simp del: short_opts.simps)

declare getopt_long.simps [simp del]

text \<open>\<open>getopt\<close> knows no long names: two dashes are an unknown letter there.\<close>

abbreviation getopt_list :: "string \<Rightarrow> string list \<Rightarrow> (char \<times> string) list" where
  "getopt_list os \<equiv> getopt_long os []"

lemmas getopt_run = getopt_long.simps opt_known_def opt_takes_arg_def

lemma short_opts_known: "(c, a) \<in> set (fst (short_opts os cs ws)) \<Longrightarrow> opt_known os c \<or> c = CHR ''?''"
  by (induction cs) (auto split: if_splits list.splits prod.splits)

lemma getopt_list_known: "(c, a) \<in> set (getopt_list os ws) \<Longrightarrow> opt_known os c \<or> c = CHR ''?''"
proof (induction ws rule: length_induct)
  case (1 ws)
  show ?case
  proof (cases ws)
    case (Cons w vs)
    have IH: "opt_known os c \<or> c = CHR ''?''" if "(c, a) \<in> set (getopt_list os us)" "length us \<le> length vs" for us
      using 1(1) [rule_format, of us] that Cons by simp
    show ?thesis
    proof (cases w rule: remdups_adj.cases)
      case (3 d e rest)
      obtain xs us where x: "short_opts os (e # rest) vs = (xs, us)" by fastforce
      have "length us \<le> length vs" using short_opts_shorter [OF x [symmetric]] .
      moreover have "(c, a) \<in> set xs \<Longrightarrow> opt_known os c \<or> c = CHR ''?''" using short_opts_known [of c a os "e # rest" vs] x by simp
      ultimately show ?thesis
        using 1(2) IH by (auto simp: Cons 3 x getopt_long.simps(2) split: if_splits simp del: short_opts.simps)
    qed (use 1(2) IH in \<open>auto simp: Cons getopt_long.simps(2)\<close>)
  qed (use 1(2) in \<open>simp add: getopt_long.simps\<close>)
qed

text \<open>A word of one unknown letter.\<close>

lemma getopt_unknown: "\<not> opt_known os c \<Longrightarrow> c \<noteq> CHR ''-'' \<Longrightarrow> getopt_list os ([CHR ''-'', c] # ws) = (CHR ''?'', []) # getopt_list os ws"
  by (simp add: getopt_long.simps(2))

text \<open>A long option with an argument does what its letter does.\<close>

lemma getopt_letter:
  assumes "opt_known os c" and "opt_takes_arg os c" and "c \<noteq> CHR ''-''"
  shows "getopt_long os longs ([CHR ''-'', c] # a # ws) = (c, a) # getopt_long os longs ws"
  using assms by (simp add: getopt_long.simps(2) [of os longs "[CHR ''-'', c]"])

lemma getopt_long_word:
  assumes "find_long longs name = Some (Required_argument, c)" and "CHR ''='' \<notin> set name" and "name \<noteq> []"
  shows "getopt_long os longs ((''--'' @ name) # a # ws) = (c, a) # getopt_long os longs ws"
    and "getopt_long os longs ((''--'' @ name @ ''='' @ a) # ws) = (c, a) # getopt_long os longs ws"
proof -
  have l: "longs \<noteq> []" using assms(1) by (auto simp: find_long_def)
  have t: "takeWhile (\<lambda>x. x \<noteq> CHR ''='') name = name" using assms(2) by (auto simp: takeWhile_eq_all_conv)
  have t2: "takeWhile (\<lambda>x. x \<noteq> CHR ''='') (name @ CHR ''='' # a) = name" using assms(2) by (simp add: takeWhile_append t)
  show "getopt_long os longs ((''--'' @ name) # a # ws) = (c, a) # getopt_long os longs ws"
    using assms l unfolding getopt_long.simps(2) [of os longs "''--'' @ name"] by (simp add: t Let_def del: takeWhile_eq_all_conv)
  show "getopt_long os longs ((''--'' @ name @ ''='' @ a) # ws) = (c, a) # getopt_long os longs ws"
    using assms l unfolding getopt_long.simps(2) [of os longs "''--'' @ name @ ''='' @ a"] by (simp add: t2 Let_def)
qed

end
