(* ===== verification/Download.thy ===== *)
theory Download
  imports Workload Gfclient Getopt
begin

text \<open>
  The download client \<open>getfile/gfclient_download.c\<close>: options, local file names, creation of
  directories, and the loop that performs one request after the other with the GETFILE
  client library. The file system is a parameter, given by the four calls the program makes.
\<close>

section \<open>Options\<close>

record dl_opts =
  o_server :: string
  o_port :: "16 word"
  o_workload :: string
  o_nrequests :: int
  o_nthreads :: int

definition dl_defaults :: dl_opts where
  "dl_defaults = \<lparr>o_server = ''localhost'', o_port = 8888, o_workload = ''workload.txt'',
     o_nrequests = 1, o_nthreads = 1\<rparr>"

definition dl_option :: "char \<times> string \<Rightarrow> dl_opts \<Rightarrow> cfault + dl_opts" where
  "dl_option x opts =
     (let (c, optarg) = x in
      if c = CHR ''s'' then Inr (opts\<lparr>o_server := optarg\<rparr>)
      else if c = CHR ''p'' then Inr (opts\<lparr>o_port := word_of_int (atoi optarg)\<rparr>)
      else if c = CHR ''w'' then Inr (opts\<lparr>o_workload := optarg\<rparr>)
      else if c = CHR ''n'' then Inr (opts\<lparr>o_nrequests := atoi optarg\<rparr>)
      else if c = CHR ''t'' then
        if atoi optarg \<noteq> 1 then Inl (Exit_program 0) else Inr (opts\<lparr>o_nthreads := atoi optarg\<rparr>)
      else if c = CHR ''h'' then Inl (Exit_program 0)
      else Inl (Exit_program 1))"

text \<open>The table of the long names.\<close>

definition dl_long :: "long_option list" where
  "dl_long =
    [(''server'', Required_argument, CHR ''s''),
     (''port'', Required_argument, CHR ''p''),
     (''workload-path'', Required_argument, CHR ''w''),
     (''nthreads'', Required_argument, CHR ''t''),
     (''nrequests'', Required_argument, CHR ''n''),
     (''help'', No_argument, CHR ''h'')]"

definition dl_options :: "string list \<Rightarrow> cfault + dl_opts" where
  "dl_options argv = foldE dl_option (getopt_long ''s:p:w:n:t:h'' dl_long argv) dl_defaults"

section \<open>Local names\<close>

definition LOCAL_PATH :: nat where "LOCAL_PATH = 512"

text \<open>
  \<open>sprintf\<close> of \<open>%s-%06d\<close> with \<open>&req_path[1]\<close>; the static counter, which starts at 0 and
  only grows, is threaded through.
\<close>

definition localPath :: "string \<Rightarrow> int \<Rightarrow> (nat \<Rightarrow> char) \<Rightarrow> cfault + block \<times> int" where
  "localPath req_path k junk =
     bindE (assertE Out_of_bounds (req_path \<noteq> [])) (\<lambda>_.
     bindE (strcpy_to (fresh_block junk LOCAL_PATH) 0 (tl req_path @ CHR ''-'' # zero_pad 6 (show_int k))) (\<lambda>b.
     bindE (c_int (k + 1)) (\<lambda>n. Inr (b, n))))"

section \<open>Opening the file\<close>

record 'd os =
  os_mkdir :: "'d \<Rightarrow> string \<Rightarrow> int \<times> 'd"      \<comment> \<open>0, or the error number\<close>
  os_fopen :: "'d \<Rightarrow> string \<Rightarrow> bool \<times> 'd"     \<comment> \<open>for writing; false when it returns null\<close>
  os_fwrite :: "'d \<Rightarrow> string \<Rightarrow> char list \<Rightarrow> 'd"
  os_unlink :: "'d \<Rightarrow> string \<Rightarrow> int \<times> 'd"

definition EEXIST :: int where "EEXIST = 17"

definition strchr_at :: "block \<Rightarrow> nat \<Rightarrow> char \<Rightarrow> cfault + nat option" where
  "strchr_at b p c =
     bindE (span_len (\<lambda>x. x \<noteq> c) (drop p b)) (\<lambda>m. Inr (if b ! (p + m) = c then Some (p + m) else None))"

lemma strchr_at_SomeD: "strchr_at b p c = Inr (Some i) \<Longrightarrow> p \<le> i \<and> i < length b"
  by (auto simp: strchr_at_def elim!: bindE_eq_InrE dest!: span_len_bounds split: if_splits)

function make_dirs :: "('d \<Rightarrow> string \<Rightarrow> int \<times> 'd) \<Rightarrow> block \<Rightarrow> nat \<Rightarrow> 'd \<Rightarrow> cfault + block \<times> 'd" where
  "make_dirs mkdir b prev d =
     (case strchr_at b (prev + 1) CHR ''/'' of
        Inl e \<Rightarrow> Inl e
      | Inr None \<Rightarrow> Inr (b, d)
      | Inr (Some cur) \<Rightarrow>
          let path1 = b[cur := NUL] in
          bindE (cstr_at path1 0) (\<lambda>dir.
          let (errno, d1) = mkdir d dir in
          if errno \<noteq> 0 \<and> errno \<noteq> EEXIST then Inl (Exit_program EXIT_FAILURE)
          else make_dirs mkdir (path1[cur := CHR ''/'']) cur d1))"
  by pat_completeness auto
termination
  by (relation "measure (\<lambda>(_, b, prev, _). length b - prev)") (auto dest!: strchr_at_SomeD)

declare make_dirs.simps [simp del]

definition openFile :: "'d os \<Rightarrow> block \<Rightarrow> 'd \<Rightarrow> cfault + block \<times> 'd" where
  "openFile os b d =
     bindE (make_dirs (os_mkdir os) b 0 d) (\<lambda>(path1, d1).
     bindE (cstr_at path1 0) (\<lambda>name.
     let (ok, d2) = os_fopen os d1 name in
     if ok then Inr (path1, d2) else Inl (Exit_program EXIT_FAILURE)))"

section \<open>One request\<close>

text \<open>\<open>writecb\<close> writes the bytes it gets to the file of the request.\<close>

primrec write_events :: "'d os \<Rightarrow> string \<Rightarrow> event list \<Rightarrow> 'd \<Rightarrow> 'd" where
  "write_events os name [] d = d"
| "write_events os name (e # es) d =
     write_events os name es (case e of Write_cb data \<Rightarrow> os_fwrite os d name data | Header_cb _ \<Rightarrow> d)"

record 'd dl_state =
  dl_workload :: workload
  dl_counter :: int                 \<comment> \<open>the static counter of \<open>localPath\<close>\<close>
  dl_disk :: 'd

definition REQUEST_MAX :: nat where "REQUEST_MAX = 256"

text \<open>The pointer to a request that was freed is still passed to the getters.\<close>

definition print_result :: "gfcrequest_t option \<Rightarrow> cfault + string \<times> size_t \<times> size_t" where
  "print_result gfr =
     bindE (gfc_get_status gfr) (\<lambda>s.
     bindE (gfc_get_bytesreceived gfr) (\<lambda>n.
     bindE (gfc_get_filelen gfr) (\<lambda>m. Inr (gfc_strstatus s, n, m))))"

text \<open>\<open>None\<close>: the request waits for ever for the peer.\<close>

definition download_one :: "'d os \<Rightarrow> (nat \<Rightarrow> char) \<Rightarrow> gfcrequest_t \<Rightarrow> network \<Rightarrow> dl_opts \<Rightarrow> 'd dl_state \<Rightarrow>
    cfault + 'd dl_state option" where
  "download_one os junk garbage net opts st =
     bindE (workload_get_path 0 (dl_workload st)) (\<lambda>(req_path, w).
     case req_path of
       None \<Rightarrow> Inl Null_deref
     | Some rp \<Rightarrow>
         if REQUEST_MAX < length rp then Inl (Exit_program EXIT_FAILURE)
         else
           bindE (localPath rp (dl_counter st) junk) (\<lambda>(local_path, n).
           bindE (openFile os local_path (dl_disk st)) (\<lambda>(local_path1, d).
           bindE (cstr_at local_path1 0) (\<lambda>name.
           let gfr = gfc_set_writefunc (gfc_set_port (gfc_set_path (gfc_set_server
                       (gfc_create garbage) (o_server opts)) rp) (o_port opts)) in
           bindE (gfc_perform net gfr) (\<lambda>r.
           case r of
             Waiting _ \<Rightarrow> Inr None
           | Returned returncode gfr1 ev \<Rightarrow>
               let d1 = write_events os name ev d;
                   d2 = (if returncode < 0 then snd (os_unlink os d1 name) else d1) in
               bindE (gfc_get_status gfr1) (\<lambda>s.
               let d3 = (if s \<noteq> OK then snd (os_unlink os d2 name) else d2) in
               bindE (print_result gfr1) (\<lambda>_.
               Inr (Some \<lparr>dl_workload = w, dl_counter = n, dl_disk = d3\<rparr>))))))))"

primrec download_loop :: "'d os \<Rightarrow> (nat \<Rightarrow> char) \<Rightarrow> gfcrequest_t \<Rightarrow> (nat \<Rightarrow> network) \<Rightarrow> dl_opts \<Rightarrow> nat \<Rightarrow>
    'd dl_state \<Rightarrow> cfault + 'd dl_state option" where
  "download_loop os junk garbage nets opts 0 st = Inr (Some st)"
| "download_loop os junk garbage nets opts (Suc k) st =
     bindE (download_one os junk garbage (nets k) opts st) (\<lambda>r.
       case r of None \<Rightarrow> Inr None | Some st1 \<Rightarrow> download_loop os junk garbage nets opts k st1)"

definition download_main :: "'d os \<Rightarrow> (nat \<Rightarrow> char) \<Rightarrow> gfcrequest_t \<Rightarrow> (nat \<Rightarrow> network) \<Rightarrow>
    (string \<Rightarrow> string option) \<Rightarrow> string list \<Rightarrow> 'd \<Rightarrow> cfault + 'd dl_state option" where
  "download_main os junk garbage nets read_file argv d =
     bindE (dl_options argv) (\<lambda>opts.
     bindE (workload_init (read_file (o_workload opts)) workload_start) (\<lambda>(r, w).
     if r \<noteq> EXIT_SUCCESS then Inl (Exit_program EXIT_FAILURE)
     else bindE (c_int (o_nrequests opts * o_nthreads opts)) (\<lambda>k.
       download_loop os junk garbage nets opts (nat k) \<lparr>dl_workload = w, dl_counter = 0, dl_disk = d\<rparr>)))"

section \<open>Names\<close>

definition local_name :: "string \<Rightarrow> nat \<Rightarrow> string" where
  "local_name r k = tl r @ CHR ''-'' # zero_pad 6 (show_nat k)"

lemma digits_value_zeros: "digits_value (replicate n (CHR ''0'') @ s) = digits_value s"
  by (induction n) (simp_all add: digits_value_def)

lemma zero_pad_digits: "\<forall>c \<in> set (zero_pad w (show_nat k)). is_digit c"
  using show_nat_digits [of k] by (auto simp: zero_pad_def is_digit_def)

lemma zero_pad_inj: "zero_pad w (show_nat j) = zero_pad w (show_nat k) \<Longrightarrow> j = k"
  by (metis zero_pad_def digits_value_zeros digits_value_show_nat)

lemma local_name_inj:
  assumes "local_name r j = local_name s k"
  shows "tl r = tl s \<and> j = k"
proof -
  have suffix: "takeWhile is_digit (rev (local_name r k)) = rev (zero_pad 6 (show_nat k))" for r k
  proof -
    have "\<not> is_digit (CHR ''-'')" by (simp add: is_digit_def)
    then show ?thesis using zero_pad_digits [of 6 k] by (simp add: local_name_def takeWhile_tail)
  qed
  have "rev (zero_pad 6 (show_nat j)) = rev (zero_pad 6 (show_nat k))"
    using suffix [of r j] suffix [of s k] assms by simp
  then have "j = k" using zero_pad_inj by auto
  with assms show ?thesis by (simp add: local_name_def)
qed

lemma length_local_name:
  assumes "length r \<le> 256" and "int k \<le> int_max"
  shows "length (local_name r k) < 512"
proof -
  have "k < 10 ^ 10" using assms(2) by (simp add: int_max_def)
  then have "length (show_nat k) \<le> 10" by (rule show_nat_length) simp
  then show ?thesis using assms(1) by (simp add: local_name_def zero_pad_def)
qed

lemma local_name_no_NUL: "NUL \<notin> set r \<Longrightarrow> NUL \<notin> set (local_name r k)"
  using show_nat_no_NUL [of k] by (cases r) (auto simp: local_name_def zero_pad_def)

lemma localPath_known:
  assumes "r \<noteq> []" and "length r \<le> 256" and "NUL \<notin> set r" and "int k < int_max"
  shows "\<exists>post. localPath r (int k) junk = Inr (local_name r k @ NUL # post, int k + 1)"
proof -
  have l: "length (local_name r k) < length (fresh_block junk 512)"
    using length_local_name [OF assms(2), of k] assms(4) by simp
  have "show_int (int k) = show_nat k" by (simp add: show_int_def)
  then show ?thesis
    using assms l by (auto simp: localPath_def local_name_def [symmetric] strcpy_to_start LOCAL_PATH_def c_int_def)
qed

section \<open>Directories\<close>

text \<open>What the loop is for: one \<open>mkdir\<close> for every prefix that ends before a slash, shortest first.\<close>

definition dir_prefixes :: "nat \<Rightarrow> string \<Rightarrow> string list" where
  "dir_prefixes p s = map (\<lambda>i. take i s) (filter (\<lambda>i. s ! i = CHR ''/'') [p + 1..<length s])"

definition mk_dir :: "('d \<Rightarrow> string \<Rightarrow> int \<times> 'd) \<Rightarrow> string \<Rightarrow> 'd \<Rightarrow> cfault + 'd" where
  "mk_dir mkdir q d =
     (let (errno, d1) = mkdir d q in
      if errno \<noteq> 0 \<and> errno \<noteq> EEXIST then Inl (Exit_program EXIT_FAILURE) else Inr d1)"

lemma strchr_at_string:
  assumes "NUL \<notin> set s" and "p \<le> length s" and "c \<noteq> NUL"
  shows "strchr_at (s @ NUL # post) p c =
    Inr (case filter (\<lambda>i. s ! i = c) [p..<length s] of [] \<Rightarrow> None | i # _ \<Rightarrow> Some i)"
  using assms(2)
proof (induction "length s - p" arbitrary: p)
  case 0
  then show ?case using assms(3) by (simp add: strchr_at_def nth_append)
next
  case (Suc n)
  then have p: "p < length s" by simp
  have dr: "drop p (s @ NUL # post) = s ! p # drop (Suc p) (s @ NUL # post)"
    using p by (simp add: Cons_nth_drop_Suc)
  have up: "[p..<length s] = p # [Suc p..<length s]" using p by (rule upt_conv_Cons)
  have nz: "s ! p \<noteq> NUL" using assms(1) p by (metis nth_mem)
  show ?case
  proof (cases "s ! p = c")
    case True
    then show ?thesis using dr up p by (simp add: strchr_at_def nth_append)
  next
    case False
    have "strchr_at (s @ NUL # post) p c = strchr_at (s @ NUL # post) (Suc p) c"
      using False nz dr by (simp add: strchr_at_def) (cases "span_len (\<lambda>x. x \<noteq> c) (drop (Suc p) (s @ NUL # post))"; simp)
    then show ?thesis using Suc.hyps(1) [of "Suc p"] Suc.hyps(2) p False up by simp
  qed
qed

lemma filter_upt_Cons:
  "filter P [a..<b] = i # js \<Longrightarrow> a \<le> i \<and> i < b \<and> P i \<and> js = filter P [Suc i..<b]"
proof (induction "b - a" arbitrary: a)
  case (Suc n)
  then have "[a..<b] = a # [Suc a..<b]" by (simp add: upt_conv_Cons)
  with Suc show ?case by (cases "P a") (auto dest: Suc.hyps(1) [of "Suc a", rotated])
qed simp

lemma make_dirs_spec:
  assumes "NUL \<notin> set s" and "p < length s"
  shows "make_dirs mkdir (s @ NUL # post) p d =
    bindE (foldE (mk_dir mkdir) (dir_prefixes p s) d) (\<lambda>d'. Inr (s @ NUL # post, d'))"
  using assms(2)
proof (induction "length s - p" arbitrary: p d rule: less_induct)
  case less
  note chr = strchr_at_string [OF assms(1), of "p + 1" "CHR ''/''" post]
  show ?case
  proof (cases "filter (\<lambda>i. s ! i = CHR ''/'') [p + 1..<length s]")
    case Nil
    then show ?thesis
      using chr less.prems by (simp add: make_dirs.simps [of mkdir "s @ NUL # post"] dir_prefixes_def)
  next
    case (Cons i js)
    then have i: "p < i" "i < length s" "s ! i = CHR ''/''"
      and rest: "js = filter (\<lambda>i. s ! i = CHR ''/'') [i + 1..<length s]"
      using filter_upt_Cons [OF Cons] by simp_all
    let ?b = "(s @ NUL # post)[i := NUL]"
    have b: "?b = take i s @ NUL # (drop (Suc i) s @ NUL # post)"
      using i(2) by (simp add: list_update_append upd_conv_take_nth_drop)
    have "NUL \<notin> set (take i s)" using assms(1) by (auto dest: in_set_takeD)
    then have dir: "cstr_at ?b 0 = Inr (take i s)" unfolding b by (rule cstr_at_start)
    have again: "?b[i := CHR ''/''] = s @ NUL # post"
      using i by (metis list_update_id list_update_overwrite nth_append)
    then have again2: "(s @ NUL # post)[i := CHR ''/''] = s @ NUL # post" by simp
    have step: "make_dirs mkdir (s @ NUL # post) p d =
        bindE (mk_dir mkdir (take i s) d) (make_dirs mkdir (s @ NUL # post) i)"
      using chr Cons less.prems
      by (simp add: make_dirs.simps [of mkdir "s @ NUL # post" p] dir again2 mk_dir_def Let_def split: prod.splits)
    have pre: "dir_prefixes p s = take i s # dir_prefixes i s"
      using Cons rest by (simp add: dir_prefixes_def)
    have lt: "length s - i < length s - p" using i less.prems by simp
    have ih: "make_dirs mkdir (s @ NUL # post) i = (\<lambda>d. bindE (foldE (mk_dir mkdir) (dir_prefixes i s) d)
        (\<lambda>d'. Inr (s @ NUL # post, d')))"
      using less.hyps [OF lt i(2)] by blast
    show ?thesis unfolding step pre ih
      by (cases "mk_dir mkdir (take i s) d") simp_all
  qed
qed

section \<open>Properties\<close>

text \<open>
  The 512-byte array holds the local name of every request of at most 256 bytes, for
  every value of the counter below \<open>INT_MAX\<close>, and requests made at different counter values
  get different names, so no download overwrites another one's file.
\<close>

lemma localPath_distinct:
  assumes "r \<noteq> []" and "length r \<le> 256" and "NUL \<notin> set r" and "s \<noteq> []" and "length s \<le> 256" and "NUL \<notin> set s"
    and "int j < int_max" and "int k < int_max" and "j \<noteq> k"
  shows "\<exists>b1 b2 n1 n2. localPath r (int j) junk = Inr (b1, int j + 1) \<and> localPath s (int k) junk = Inr (b2, int k + 1) \<and>
    cstr_at b1 0 = Inr n1 \<and> cstr_at b2 0 = Inr n2 \<and> n1 \<noteq> n2"
proof -
  obtain p1 where 1: "localPath r (int j) junk = Inr (local_name r j @ NUL # p1, int j + 1)"
    using localPath_known [OF assms(1-3,7)] by blast
  obtain p2 where 2: "localPath s (int k) junk = Inr (local_name s k @ NUL # p2, int k + 1)"
    using localPath_known [OF assms(4-6,8)] by blast
  have "cstr_at (local_name r j @ NUL # p1) 0 = Inr (local_name r j)"
    "cstr_at (local_name s k @ NUL # p2) 0 = Inr (local_name s k)"
    using assms(3,6) by (auto intro!: cstr_at_start local_name_no_NUL)
  moreover have "local_name r j \<noteq> local_name s k" using local_name_inj assms(9) by blast
  ultimately show ?thesis using 1 2 by blast
qed

text \<open>
  \<open>openFile\<close> makes one directory for every prefix of the path that ends before a slash
  (the first byte apart), parents before children, accepts directories that exist already,
  exits on any other failure, restores the path it cut up and opens exactly that file.
\<close>

lemma openFile_makes_parents:
  assumes "NUL \<notin> set s" and "s \<noteq> []"
  shows "openFile os (s @ NUL # post) d =
    bindE (foldE (mk_dir (os_mkdir os)) (dir_prefixes 0 s) d) (\<lambda>d1.
      let (ok, d2) = os_fopen os d1 s in
      if ok then Inr (s @ NUL # post, d2) else Inl (Exit_program EXIT_FAILURE))"
proof -
  have "make_dirs (os_mkdir os) (s @ NUL # post) 0 d =
      bindE (foldE (mk_dir (os_mkdir os)) (dir_prefixes 0 s) d) (\<lambda>d'. Inr (s @ NUL # post, d'))"
    using assms by (intro make_dirs_spec) auto
  then show ?thesis
    using cstr_at_start [OF assms(1), of post]
    by (cases "foldE (mk_dir (os_mkdir os)) (dir_prefixes 0 s) d") (simp_all add: openFile_def)
qed

definition log_os :: "string list os" where
  "log_os = \<lparr>os_mkdir = (\<lambda>d p. (if p \<in> set d then EEXIST else 0, d @ [p])), os_fopen = (\<lambda>d p. (True, d @ [p])),
     os_fwrite = (\<lambda>d p x. d), os_unlink = (\<lambda>d p. (0, d))\<rparr>"

text \<open>
  No request is ever completed: the status of the request is read after
  \<open>gfc_perform\<close>, which either freed the object or, when it could not connect, never set the
  status text. Whatever the network, the files and the options, a run that makes at least
  one request waits for ever, exits or faults.
\<close>

lemma download_never_completes:
  "download_loop os junk garbage nets opts (Suc k) st \<noteq> Inr (Some st')"
proof
  assume "download_loop os junk garbage nets opts (Suc k) st = Inr (Some st')"
  then obtain st1 where one: "download_one os junk garbage (nets k) opts st = Inr (Some st1)"
    by (auto elim!: bindE_eq_InrE split: option.splits)
  define gf where "gf rp = gfc_set_writefunc (gfc_set_port (gfc_set_path (gfc_set_server
      (gfc_create garbage) (o_server opts)) rp) (o_port opts))" for rp
  from one obtain rp rc g ev s where g: "gfc_perform (nets k) (gf rp) = Inr (Returned rc g ev)"
    and s: "gfc_get_status g = Inr s"
    by (auto simp: download_one_def Let_def gf_def elim!: bindE_eq_InrE split: option.splits outcome.splits if_splits; blast)
  have "g = None \<or> g = Some (gf rp)"
    using g by (auto simp: gfc_perform_def elim!: bindE_eq_InrE dest: receive_loop_frees split: if_splits)
  then have "gfc_get_status g = Inl Use_after_free \<or> gfc_get_status g = Inl Uninitialised"
    by (auto simp: gfc_get_status_def live_def gf_def gfc_set_writefunc_def gfc_set_port_def gfc_set_path_def
        gfc_set_server_def gfc_create_def)
  with s show False by auto
qed

end
