(* ===== verification/MtServer.thy ===== *)
theory MtServer
  imports Steque Handler
begin

text \<open>
  The multithreaded GETFILE server: \<open>multithreadgetfile/handler.c\<close> and \<open>gfserver_main.c\<close>.
  The server library that accepts connections is not part of the repository there; what the
  workers use of it is the record \<open>gfs_lib\<close>. The boss (the library's thread, calling
  \<open>handler_get\<close>) puts tasks into the queue, workers take them out; both sides are a step
  relation with one step per call that locks, unlocks, waits or touches the queue.
\<close>

section \<open>Serving one task\<close>

record 'c task =
  tk_ctx :: 'c
  tk_path :: "string option"

record ('c, 'n) gfs_lib =
  gl_sendheader :: "'n \<Rightarrow> 'c \<Rightarrow> int \<Rightarrow> int \<Rightarrow> int \<times> 'n"
  gl_send :: "'n \<Rightarrow> 'c \<Rightarrow> block \<Rightarrow> int \<Rightarrow> int \<times> 'n"
  gl_abort :: "'n \<Rightarrow> 'c \<Rightarrow> 'n"

text \<open>
  The copying loop. After a failed read or write it sends an error header and aborts the
  connection, and then goes on with the loop as before.
\<close>

definition read_failed :: "('c, 'n) gfs_lib \<Rightarrow> 'c \<Rightarrow> 'n \<Rightarrow> 'n" where
  "read_failed lib ctx n = gl_abort lib (snd (gl_sendheader lib n ctx GF_ERROR 0)) ctx"

partial_function (option) worker_send :: "('c, 'n) gfs_lib \<Rightarrow> (int \<Rightarrow> nat \<Rightarrow> char list option) \<Rightarrow> 'c \<Rightarrow>
    int \<Rightarrow> int \<Rightarrow> block \<Rightarrow> 'n \<Rightarrow> (int \<times> 'n) option" where
  "worker_send lib pread ctx file_len bytes_transferred buffer n =
     (if bytes_transferred < file_len then
        let r = pread bytes_transferred BUFFER_SIZE;
            read_len = (case r of None \<Rightarrow> - 1 | Some d \<Rightarrow> int (length d));
            buffer1 = (case r of None \<Rightarrow> buffer | Some d \<Rightarrow> d @ drop (length d) buffer);
            n1 = (if read_len \<le> 0 then read_failed lib ctx n else n);
            w = gl_send lib n1 ctx buffer1 read_len;
            n2 = (if fst w \<noteq> read_len then read_failed lib ctx (snd w) else snd w)
        in worker_send lib pread ctx file_len (bytes_transferred + fst w) buffer1 n2
      else Some (bytes_transferred, n))"

datatype serve_end = Next_task | Thread_returns

text \<open>
  The body of the worker's loop behind the unlock. A path that is not found makes the
  thread function return; \<open>None\<close> is a loop that never ends.
\<close>

definition worker_serve :: "('c, 'n) gfs_lib \<Rightarrow> 'c task \<Rightarrow> block \<Rightarrow> store \<Rightarrow> 'n \<Rightarrow>
    (cfault + serve_end \<times> store \<times> 'n) option" where
  "worker_serve lib job buffer st n =
     (case content_get (st_content st) (tk_path job) (st_fs st) of
        Inl e \<Rightarrow> Some (Inl e)
      | Inr (fd, fs1) \<Rightarrow>
          if fd < 0 then
            Some (Inr (Thread_returns, st\<lparr>st_fs := fs1\<rparr>, snd (gl_sendheader lib n (tk_ctx job) GF_FILE_NOT_FOUND 0)))
          else
            let (file_len, fs2) = lseek_end fs1 fd;
                n1 = snd (gl_sendheader lib n (tk_ctx job) GF_OK file_len)
            in map_option (\<lambda>(r, n2). Inr (Next_task, st\<lparr>st_fs := fs2\<rparr>, n2))
                 (worker_send lib (\<lambda>off k. if off < 0 then None else read_fd fs2 (st_plan st) fd (nat off) k)
                    (tk_ctx job) file_len 0 buffer n1))"

section \<open>Threads\<close>

datatype thread = Boss | Worker nat

datatype 'c boss_pc =
    Boss_idle
  | Boss_lock "'c task"           \<comment> \<open>\<open>handler_get\<close> was called, waits for the lock\<close>
  | Boss_enqueue "'c task"        \<comment> \<open>holds the lock\<close>
  | Boss_unlock
  | Boss_broadcast

datatype 'c worker_pc =
    W_lock                        \<comment> \<open>at \<open>pthread_mutex_lock\<close>\<close>
  | W_test                        \<comment> \<open>holds the lock, tests the queue\<close>
  | W_wait                        \<comment> \<open>inside \<open>pthread_cond_wait\<close>, lock released\<close>
  | W_wake                        \<comment> \<open>woken, has to lock again\<close>
  | W_pop
  | W_unlock "'c task"
  | W_serve "'c task"
  | W_exit                        \<comment> \<open>the thread function has returned\<close>

record 'c mt_state =
  mt_queue :: "'c task qstate"
  mt_lock :: "thread option"
  mt_boss :: "'c boss_pc"
  mt_worker :: "nat \<Rightarrow> 'c worker_pc"
  mt_accepted :: "'c task list"   \<comment> \<open>history: tasks enqueued\<close>
  mt_taken :: "'c task list"      \<comment> \<open>history: tasks popped\<close>
  mt_served :: "'c task list"     \<comment> \<open>history: tasks whose serving ended\<close>

text \<open>After \<open>main\<close> has created \<open>n\<close> workers.\<close>

definition mt_start :: "nat \<Rightarrow> 'c mt_state" where
  "mt_start n = \<lparr>mt_queue = (steque_init, empty_heap), mt_lock = None, mt_boss = Boss_idle,
     mt_worker = (\<lambda>w. if w < n then W_lock else W_exit), mt_accepted = [], mt_taken = [], mt_served = []\<rparr>"

definition set_worker :: "nat \<Rightarrow> 'c worker_pc \<Rightarrow> 'c mt_state \<Rightarrow> 'c mt_state" where
  "set_worker w pc s = s\<lparr>mt_worker := (mt_worker s)(w := pc)\<rparr>"

definition wake_all :: "'c mt_state \<Rightarrow> 'c mt_state" where
  "wake_all s = s\<lparr>mt_worker := (\<lambda>w. if mt_worker s w = W_wait then W_wake else mt_worker s w)\<rparr>"

text \<open>The steps the program makes; \<open>job\<close> says how serving a task ends (\<open>None\<close>: never).\<close>

inductive mt_internal :: "('c task \<Rightarrow> serve_end option) \<Rightarrow> 'c mt_state \<Rightarrow> 'c mt_state \<Rightarrow> bool"
  for job :: "'c task \<Rightarrow> serve_end option" where
  boss_lock: "mt_boss s = Boss_lock t \<Longrightarrow> mt_lock s = None \<Longrightarrow>
    mt_internal job s (s\<lparr>mt_lock := Some Boss, mt_boss := Boss_enqueue t\<rparr>)"
| boss_enqueue: "mt_boss s = Boss_enqueue t \<Longrightarrow> steque_enqueue (mt_queue s) t = Inr q \<Longrightarrow>
    mt_internal job s (s\<lparr>mt_queue := q, mt_accepted := mt_accepted s @ [t], mt_boss := Boss_unlock\<rparr>)"
| boss_unlock: "mt_boss s = Boss_unlock \<Longrightarrow>
    mt_internal job s (s\<lparr>mt_lock := None, mt_boss := Boss_broadcast\<rparr>)"
| boss_broadcast: "mt_boss s = Boss_broadcast \<Longrightarrow>
    mt_internal job s ((wake_all s)\<lparr>mt_boss := Boss_idle\<rparr>)"
| w_lock: "mt_worker s w \<in> {W_lock, W_wake} \<Longrightarrow> mt_lock s = None \<Longrightarrow>
    mt_internal job s ((set_worker w W_test s)\<lparr>mt_lock := Some (Worker w)\<rparr>)"
| w_wait: "mt_worker s w = W_test \<Longrightarrow> steque_isempty (mt_queue s) \<Longrightarrow>
    mt_internal job s ((set_worker w W_wait s)\<lparr>mt_lock := None\<rparr>)"
| w_nonempty: "mt_worker s w = W_test \<Longrightarrow> \<not> steque_isempty (mt_queue s) \<Longrightarrow>
    mt_internal job s (set_worker w W_pop s)"
| w_pop: "mt_worker s w = W_pop \<Longrightarrow> steque_pop (mt_queue s) = Inr (t, q) \<Longrightarrow>
    mt_internal job s ((set_worker w (W_unlock t) s)\<lparr>mt_queue := q, mt_taken := mt_taken s @ [t]\<rparr>)"
| w_unlock: "mt_worker s w = W_unlock t \<Longrightarrow>
    mt_internal job s ((set_worker w (W_serve t) s)\<lparr>mt_lock := None\<rparr>)"
| w_next: "mt_worker s w = W_serve t \<Longrightarrow> job t = Some Next_task \<Longrightarrow>
    mt_internal job s ((set_worker w W_lock s)\<lparr>mt_served := mt_served s @ [t]\<rparr>)"
| w_return: "mt_worker s w = W_serve t \<Longrightarrow> job t = Some Thread_returns \<Longrightarrow>
    mt_internal job s ((set_worker w W_exit s)\<lparr>mt_served := mt_served s @ [t]\<rparr>)"

text \<open>A request arrives when the boss is idle; a waiting worker may wake up spuriously.\<close>

inductive mt_step :: "('c task \<Rightarrow> serve_end option) \<Rightarrow> 'c mt_state \<Rightarrow> 'c mt_state \<Rightarrow> bool"
  for job :: "'c task \<Rightarrow> serve_end option" where
  internal: "mt_internal job s s' \<Longrightarrow> mt_step job s s'"
| arrival: "mt_boss s = Boss_idle \<Longrightarrow> mt_step job s (s\<lparr>mt_boss := Boss_lock t\<rparr>)"
| spurious: "mt_worker s w = W_wait \<Longrightarrow> mt_step job s (set_worker w W_wake s)"

definition mt_reachable :: "('c task \<Rightarrow> serve_end option) \<Rightarrow> nat \<Rightarrow> 'c mt_state \<Rightarrow> bool" where
  "mt_reachable job n s \<longleftrightarrow> (mt_step job)\<^sup>*\<^sup>* (mt_start n) s"

section \<open>Invariant\<close>

definition boss_inside :: "'c boss_pc \<Rightarrow> bool" where
  "boss_inside pc \<longleftrightarrow> (case pc of Boss_enqueue _ \<Rightarrow> True | Boss_unlock \<Rightarrow> True | _ \<Rightarrow> False)"

definition worker_inside :: "'c worker_pc \<Rightarrow> bool" where
  "worker_inside pc \<longleftrightarrow> (case pc of W_test \<Rightarrow> True | W_pop \<Rightarrow> True | W_unlock _ \<Rightarrow> True | _ \<Rightarrow> False)"

definition inside :: "'c mt_state \<Rightarrow> thread \<Rightarrow> bool" where
  "inside s th \<longleftrightarrow> (case th of Boss \<Rightarrow> boss_inside (mt_boss s) | Worker w \<Rightarrow> worker_inside (mt_worker s w))"

definition mt_inv :: "'c mt_state \<Rightarrow> bool" where
  "mt_inv s \<longleftrightarrow>
     steque_inv (mt_queue s) \<and>
     mt_accepted s = mt_taken s @ steque_elems (mt_queue s) \<and>
     (\<forall>th. inside s th \<longleftrightarrow> mt_lock s = Some th) \<and>
     (\<forall>w. mt_worker s w = W_pop \<longrightarrow> steque_elems (mt_queue s) \<noteq> []) \<and>
     (steque_elems (mt_queue s) \<noteq> [] \<longrightarrow>
        mt_boss s \<in> {Boss_unlock, Boss_broadcast} \<or> (\<forall>w. mt_worker s w \<noteq> W_wait))"

text \<open>The task a worker holds, and the tasks all workers hold.\<close>

definition in_hand :: "'c worker_pc \<Rightarrow> 'c task multiset" where
  "in_hand pc = (case pc of W_unlock t \<Rightarrow> {#t#} | W_serve t \<Rightarrow> {#t#} | _ \<Rightarrow> {#})"

definition mt_conserved :: "nat \<Rightarrow> 'c mt_state \<Rightarrow> bool" where
  "mt_conserved n s \<longleftrightarrow>
     (\<forall>w \<ge> n. mt_worker s w = W_exit) \<and>
     mset (mt_taken s) = mset (mt_served s) + (\<Sum>w<n. in_hand (mt_worker s w))"

lemmas mt_defs = set_worker_def wake_all_def inside_def boss_inside_def worker_inside_def in_hand_def

lemma mt_inv_start: "mt_inv (mt_start n)"
  by (auto simp: mt_inv_def mt_start_def steque_init_inv steque_init_elems mt_defs split: thread.splits)

lemma enqueue_Inr_elems:
  assumes "steque_inv s" and "steque_enqueue s x = Inr s'"
  shows "steque_inv s' \<and> steque_elems s' = steque_elems s @ [x]"
proof -
  have "N (fst s) < int_max"
  proof (rule ccontr)
    assume "\<not> N (fst s) < int_max"
    with assms(2) show False
      by (auto simp: steque_enqueue_def c_int_def Let_def elim!: bindE_eq_InrE split: prod.splits if_splits)
  qed
  then have "int (length (steque_elems s)) < int_max"
    using steque_size_elems [OF assms(1)] by (simp add: steque_size_def)
  from enqueue_elems [OF assms(1) this, of x] assms(2) show ?thesis by auto
qed

lemma insideD: "mt_inv s \<Longrightarrow> inside s th \<Longrightarrow> mt_lock s = Some th"
  by (simp add: mt_inv_def)

lemma inside_unique: "mt_inv s \<Longrightarrow> inside s th \<Longrightarrow> inside s th' \<Longrightarrow> th' = th"
  by (metis insideD option.inject)

text \<open>A worker outside the critical section moves on to another such point.\<close>

lemma mt_inv_outside:
  assumes "mt_inv s" and "\<not> worker_inside (mt_worker s w)" and "\<not> worker_inside pc" and "pc \<noteq> W_wait"
  shows "mt_inv ((set_worker w pc s)\<lparr>mt_served := ts\<rparr>)"
proof -
  have "inside ((set_worker w pc s)\<lparr>mt_served := ts\<rparr>) th = inside s th" for th
    using assms(2,3) by (cases th) (simp_all add: inside_def set_worker_def)
  moreover have "pc \<noteq> W_pop" using assms(3) by (auto simp: worker_inside_def)
  ultimately show ?thesis using assms(1,4) by (auto simp: mt_inv_def set_worker_def)
qed

lemma mt_inv_internal:
  assumes "mt_internal job s s'" and "mt_inv s"
  shows "mt_inv s'"
  using assms(1)
proof cases
  case (boss_lock t)
  with assms(2) show ?thesis by (auto simp: mt_inv_def mt_defs split: thread.splits)
next
  case (boss_enqueue t q)
  have "mt_lock s = Some Boss" using boss_enqueue(2) assms(2) by (intro insideD) (simp_all add: mt_defs)
  moreover have "steque_inv q \<and> steque_elems q = steque_elems (mt_queue s) @ [t]"
    using enqueue_Inr_elems [OF _ boss_enqueue(3)] assms(2) by (simp add: mt_inv_def)
  ultimately show ?thesis
    using boss_enqueue assms(2) by (auto simp: mt_inv_def mt_defs split: thread.splits)
next
  case boss_unlock
  with assms(2) have l: "mt_lock s = Some Boss" by (intro insideD) (simp_all add: mt_defs)
  have "\<not> inside s (Worker w)" for w using assms(2) l by (simp add: mt_inv_def)
  with boss_unlock assms(2) l show ?thesis
    by (auto simp: mt_inv_def inside_def boss_inside_def split: thread.splits)
next
  case boss_broadcast
  with assms(2) show ?thesis
    by (auto simp: mt_inv_def mt_defs split: thread.splits worker_pc.splits if_splits)
next
  case (w_lock w)
  with assms(2) show ?thesis by (auto simp: mt_inv_def mt_defs split: thread.splits worker_pc.splits)
next
  case (w_wait w)
  have l: "mt_lock s = Some (Worker w)" using w_wait(2) assms(2) by (intro insideD) (simp_all add: mt_defs)
  have "steque_elems (mt_queue s) = []" using w_wait(3) assms(2) by (simp add: mt_inv_def sq.isempty_iff)
  moreover have "\<not> inside s th" if "th \<noteq> Worker w" for th using assms(2) l that by (simp add: mt_inv_def)
  ultimately show ?thesis
    using w_wait assms(2) by (auto simp: mt_inv_def mt_defs split: thread.splits)
next
  case (w_nonempty w)
  have l: "mt_lock s = Some (Worker w)" using w_nonempty(2) assms(2) by (intro insideD) (simp_all add: mt_defs)
  have "\<not> inside s Boss" using assms(2) l by (simp add: mt_inv_def)
  moreover have "steque_elems (mt_queue s) \<noteq> []" using w_nonempty(3) assms(2) by (simp add: mt_inv_def sq.isempty_iff)
  ultimately show ?thesis
    using w_nonempty assms(2) l by (auto simp: mt_inv_def mt_defs split: thread.splits)
next
  case (w_pop w t q)
  have l: "mt_lock s = Some (Worker w)" using w_pop(2) assms(2) by (intro insideD) (simp_all add: mt_defs)
  have others: "mt_worker s v \<noteq> W_pop" if "v \<noteq> w" for v
    using inside_unique [OF assms(2), of "Worker w" "Worker v"] w_pop(2) that by (auto simp: mt_defs)
  have "steque_elems (mt_queue s) \<noteq> []" using w_pop(2) assms(2) by (auto simp: mt_inv_def)
  then obtain x xs where x: "steque_elems (mt_queue s) = x # xs" by (cases "steque_elems (mt_queue s)") auto
  with sq.deq_elems [OF _ x] w_pop(3) assms(2) have q: "t = x" "steque_inv q" "steque_elems q = xs"
    by (auto simp: mt_inv_def)
  have "\<not> inside s Boss" using assms(2) l by (simp add: mt_inv_def)
  with q w_pop assms(2) x others l show ?thesis by (auto simp: mt_inv_def mt_defs split: thread.splits)
next
  case (w_unlock w t)
  have l: "mt_lock s = Some (Worker w)" using w_unlock(2) assms(2) by (intro insideD) (simp_all add: mt_defs)
  have "\<not> inside s th" if "th \<noteq> Worker w" for th using assms(2) l that by (simp add: mt_inv_def)
  with w_unlock assms(2) show ?thesis by (auto simp: mt_inv_def mt_defs split: thread.splits)
next
  case (w_next w t)
  have "mt_inv ((set_worker w W_lock s)\<lparr>mt_served := mt_served s @ [t]\<rparr>)"
    using w_next(2) by (intro mt_inv_outside [OF assms(2)]) (simp_all add: worker_inside_def)
  with w_next show ?thesis by simp
next
  case (w_return w t)
  have "mt_inv ((set_worker w W_exit s)\<lparr>mt_served := mt_served s @ [t]\<rparr>)"
    using w_return(2) by (intro mt_inv_outside [OF assms(2)]) (simp_all add: worker_inside_def)
  with w_return show ?thesis by simp
qed

lemma mt_inv_step: "mt_step job s s' \<Longrightarrow> mt_inv s \<Longrightarrow> mt_inv s'"
proof (induction rule: mt_step.induct)
  case (internal s s')
  then show ?case by (rule mt_inv_internal)
next
  case (arrival s t)
  then show ?case by (auto simp: mt_inv_def mt_defs split: thread.splits)
next
  case (spurious s w)
  have "mt_inv ((set_worker w W_wake s)\<lparr>mt_served := mt_served (set_worker w W_wake s)\<rparr>)"
    using spurious(1) by (intro mt_inv_outside [OF spurious(2)]) (simp_all add: worker_inside_def)
  then show ?case by simp
qed

lemma mt_inv_reachable: "mt_reachable job n s \<Longrightarrow> mt_inv s"
  unfolding mt_reachable_def by (induction rule: rtranclp_induct) (auto intro: mt_inv_start mt_inv_step)

section \<open>Every task is in one place\<close>

lemma sum_in_hand_upd:
  fixes w n :: nat
  assumes "w < n"
  shows "(\<Sum>v<n. in_hand ((g(w := pc)) v)) + in_hand (g w) = (\<Sum>v<n. in_hand (g v)) + in_hand pc"
proof -
  have "(\<lambda>v. in_hand ((g(w := pc)) v)) = (\<lambda>v. in_hand (g v))(w := in_hand pc)" by auto
  then show ?thesis
    using sum_upd [OF assms, of "\<lambda>v. in_hand (g v)" "in_hand (g w)" "in_hand pc"] by metis
qed

lemma conserved_move:
  assumes "mt_conserved n s" and "w < n" and "in_hand pc = in_hand (mt_worker s w)"
  shows "mt_conserved n (set_worker w pc s)"
  using assms sum_in_hand_upd [OF assms(2), of "mt_worker s" pc]
  by (simp add: mt_conserved_def set_worker_def)

lemma conserved_lt: "mt_conserved n s \<Longrightarrow> mt_worker s w \<noteq> W_exit \<Longrightarrow> w < n"
  by (metis mt_conserved_def not_le)

lemma conserved_same:
  "mt_conserved n (s\<lparr>mt_lock := l\<rparr>) = mt_conserved n s" "mt_conserved n (s\<lparr>mt_boss := b\<rparr>) = mt_conserved n s"
  "mt_conserved n (s\<lparr>mt_queue := q\<rparr>) = mt_conserved n s" "mt_conserved n (s\<lparr>mt_accepted := a\<rparr>) = mt_conserved n s"
  by (simp_all add: mt_conserved_def)

lemma conserved_wake: "mt_conserved n s \<Longrightarrow> mt_conserved n (wake_all s)"
proof -
  have "in_hand (if pc = W_wait then W_wake else pc) = in_hand pc" for pc :: "'a worker_pc"
    by (simp add: in_hand_def)
  then show "mt_conserved n s \<Longrightarrow> mt_conserved n (wake_all s)"
    by (simp add: mt_conserved_def wake_all_def)
qed

lemma conserved_internal:
  assumes "mt_internal job s s'" and c: "mt_conserved n s"
  shows "mt_conserved n s'"
  using assms(1)
proof cases
  case (boss_broadcast)
  with conserved_wake [OF c] show ?thesis by (simp add: conserved_same)
next
  case (w_lock w)
  have "w < n" using w_lock(2) by (intro conserved_lt [OF c]) auto
  with w_lock show ?thesis by (auto simp: conserved_same in_hand_def intro!: conserved_move [OF c])
next
  case (w_wait w)
  have "w < n" using w_wait(2) by (intro conserved_lt [OF c]) auto
  with w_wait show ?thesis by (auto simp: conserved_same in_hand_def intro!: conserved_move [OF c])
next
  case (w_nonempty w)
  have "w < n" using w_nonempty(2) by (intro conserved_lt [OF c]) auto
  with w_nonempty show ?thesis by (auto simp: conserved_same in_hand_def intro!: conserved_move [OF c])
next
  case (w_unlock w t)
  have "w < n" using w_unlock(2) by (intro conserved_lt [OF c]) auto
  with w_unlock show ?thesis by (auto simp: conserved_same in_hand_def intro!: conserved_move [OF c])
next
  case (w_pop w t q)
  have "w < n" using w_pop(2) by (intro conserved_lt [OF c]) auto
  with w_pop c sum_in_hand_upd [of w n "mt_worker s" "W_unlock t"] show ?thesis
    by (simp add: mt_conserved_def set_worker_def in_hand_def)
next
  case (w_next w t)
  have "w < n" using w_next(2) by (intro conserved_lt [OF c]) auto
  with w_next c sum_in_hand_upd [of w n "mt_worker s" W_lock] show ?thesis
    by (simp add: mt_conserved_def set_worker_def in_hand_def)
next
  case (w_return w t)
  have "w < n" using w_return(2) by (intro conserved_lt [OF c]) auto
  with w_return c sum_in_hand_upd [of w n "mt_worker s" W_exit] show ?thesis
    by (simp add: mt_conserved_def set_worker_def in_hand_def)
qed (use c in \<open>simp_all add: conserved_same\<close>)

lemma conserved_step: "mt_step job s s' \<Longrightarrow> mt_conserved n s \<Longrightarrow> mt_conserved n s'"
proof (induction rule: mt_step.induct)
  case (internal s s')
  then show ?case by (rule conserved_internal)
next
  case (spurious s w)
  have "w < n" using spurious by (intro conserved_lt [OF spurious(2)]) auto
  with spurious show ?case by (intro conserved_move) (auto simp: in_hand_def)
qed (simp add: conserved_same)

lemma conserved_reachable: "mt_reachable job n s \<Longrightarrow> mt_conserved n s"
  unfolding mt_reachable_def
proof (induction rule: rtranclp_induct)
  case base
  show ?case by (simp add: mt_conserved_def mt_start_def in_hand_def)
qed (rule conserved_step)

section \<open>Progress\<close>

text \<open>Threads that are not between two waits: a task to serve, or a lock to take.\<close>

definition worker_awake :: "'c worker_pc \<Rightarrow> bool" where
  "worker_awake pc \<longleftrightarrow> pc \<in> {W_lock, W_wake} \<or> worker_inside pc"

lemma progress:
  assumes inv: "mt_inv s" and ne: "steque_elems (mt_queue s) \<noteq> []"
    and room: "int (length (steque_elems (mt_queue s))) < int_max"
    and w: "\<exists>w. worker_awake (mt_worker s w) \<or> mt_worker s w = W_wait"
  shows "\<exists>s'. mt_internal job s s'"
proof (cases "mt_lock s")
  have qi: "steque_inv (mt_queue s)" using inv by (simp add: mt_inv_def)
  case (Some th)
  then have "inside s th" using inv by (simp add: mt_inv_def)
  then show ?thesis
  proof (cases th)
    case Boss
    with \<open>inside s th\<close> consider t where "mt_boss s = Boss_enqueue t" | "mt_boss s = Boss_unlock"
      by (auto simp: inside_def boss_inside_def split: boss_pc.splits)
    then show ?thesis
    proof cases
      case 1
      obtain q where "steque_enqueue (mt_queue s) t = Inr q"
        using enqueue_elems [OF qi room, of t] by blast
      with 1 show ?thesis by (blast intro: boss_enqueue)
    qed (blast intro: boss_unlock)
  next
    case (Worker v)
    with \<open>inside s th\<close> consider "mt_worker s v = W_test" | "mt_worker s v = W_pop" | t where "mt_worker s v = W_unlock t"
      by (auto simp: inside_def worker_inside_def split: worker_pc.splits)
    then show ?thesis
    proof cases
      case 1
      then show ?thesis by (cases "steque_isempty (mt_queue s)") (blast intro: w_wait w_nonempty)+
    next
      case 2
      obtain x xs where "steque_elems (mt_queue s) = x # xs" using ne by (cases "steque_elems (mt_queue s)") auto
      then obtain q where "steque_pop (mt_queue s) = Inr (x, q)"
        using sq.deq_elems [OF qi] by blast
      with 2 show ?thesis by (blast intro: w_pop)
    qed (blast intro: w_unlock)
  qed
next
  case None
  have no_inside: "\<not> inside s th" for th using inv None by (simp add: mt_inv_def)
  show ?thesis
  proof (cases "mt_boss s = Boss_broadcast")
    case True
    then show ?thesis by (blast intro: boss_broadcast)
  next
    case False
    moreover have "mt_boss s \<noteq> Boss_unlock" using no_inside [of Boss] by (auto simp: inside_def boss_inside_def)
    ultimately have "mt_worker s v \<noteq> W_wait" for v using inv ne by (auto simp: mt_inv_def)
    with w obtain v where "worker_awake (mt_worker s v)" by blast
    then have "mt_worker s v \<in> {W_lock, W_wake}"
      using no_inside [of "Worker v"] by (auto simp: worker_awake_def inside_def)
    with None show ?thesis by (blast intro: w_lock)
  qed
qed

section \<open>Workers that return\<close>

text \<open>All threads that are not gone are at the start of their loop, nothing is pending.\<close>

definition quiet :: "nat \<Rightarrow> nat \<Rightarrow> 'c mt_state \<Rightarrow> bool" where
  "quiet k n s \<longleftrightarrow> mt_inv s \<and> steque_elems (mt_queue s) = [] \<and> mt_lock s = None \<and> mt_boss s = Boss_idle \<and>
     mt_worker s = (\<lambda>w. if k \<le> w \<and> w < n then W_lock else W_exit)"

lemma internal_steps:
  "mt_internal job s s' \<Longrightarrow> (mt_step job)\<^sup>*\<^sup>* s' s'' \<Longrightarrow> (mt_step job)\<^sup>*\<^sup>* s s''"
  by (meson converse_rtranclp_into_rtranclp mt_step.internal)

lemma one_returns:
  assumes q: "quiet k n s" and k: "k < n" and job: "job t = Some Thread_returns"
  shows "\<exists>s'. (mt_step job)\<^sup>*\<^sup>* s s' \<and> quiet (Suc k) n s' \<and> mt_served s' = mt_served s @ [t]"
proof -
  from q have qi: "steque_inv (mt_queue s)" and e: "steque_elems (mt_queue s) = []"
    by (simp_all add: quiet_def mt_inv_def)
  obtain q1 where q1: "steque_enqueue (mt_queue s) t = Inr q1" "steque_inv q1" "steque_elems q1 = [t]"
    using enqueue_elems [OF qi, of t] e by (auto simp: int_max_def)
  obtain q2 where q2: "steque_pop q1 = Inr (t, q2)" "steque_inv q2" "steque_elems q2 = []"
    using sq.deq_elems [OF q1(2,3)] by blast
  define s1 where "s1 = s\<lparr>mt_boss := Boss_lock t\<rparr>"
  define s2 where "s2 = s1\<lparr>mt_lock := Some Boss, mt_boss := Boss_enqueue t\<rparr>"
  define s3 where "s3 = s2\<lparr>mt_queue := q1, mt_accepted := mt_accepted s2 @ [t], mt_boss := Boss_unlock\<rparr>"
  define s4 where "s4 = s3\<lparr>mt_lock := None, mt_boss := Boss_broadcast\<rparr>"
  define s5 where "s5 = (wake_all s4)\<lparr>mt_boss := Boss_idle\<rparr>"
  define s6 where "s6 = (set_worker k W_test s5)\<lparr>mt_lock := Some (Worker k)\<rparr>"
  define s7 where "s7 = set_worker k W_pop s6"
  define s8 where "s8 = (set_worker k (W_unlock t) s7)\<lparr>mt_queue := q2, mt_taken := mt_taken s7 @ [t]\<rparr>"
  define s9 where "s9 = (set_worker k (W_serve t) s8)\<lparr>mt_lock := None\<rparr>"
  define s10 where "s10 = (set_worker k W_exit s9)\<lparr>mt_served := mt_served s9 @ [t]\<rparr>"
  note defs = s1_def s2_def s3_def s4_def s5_def s6_def s7_def s8_def s9_def s10_def set_worker_def wake_all_def
  have st: "mt_boss s = Boss_idle" "mt_lock s = None"
    "mt_worker s = (\<lambda>w. if k \<le> w \<and> w < n then W_lock else W_exit)" using q by (simp_all add: quiet_def)
  have 1: "mt_step job s s1" unfolding s1_def using st by (intro arrival)
  have 2: "mt_internal job s1 s2" unfolding s2_def by (rule boss_lock) (simp_all add: s1_def st)
  have 3: "mt_internal job s2 s3" unfolding s3_def by (rule boss_enqueue) (simp_all add: s1_def s2_def q1)
  have 4: "mt_internal job s3 s4" unfolding s4_def by (rule boss_unlock) (simp add: s3_def)
  have 5: "mt_internal job s4 s5" unfolding s5_def by (rule boss_broadcast) (simp add: s4_def)
  have ne: "\<not> steque_isempty q1" using q1 by (simp add: sq.isempty_iff)
  have 6: "mt_internal job s5 s6" unfolding s6_def using k by (intro w_lock) (simp_all add: defs st)
  have 7: "mt_internal job s6 s7" unfolding s7_def using ne by (intro w_nonempty) (simp_all add: defs)
  have 8: "mt_internal job s7 s8" unfolding s8_def using q2(1) by (intro w_pop) (simp_all add: defs)
  have 9: "mt_internal job s8 s9" unfolding s9_def by (rule w_unlock) (simp add: defs)
  have 10: "mt_internal job s9 s10" unfolding s10_def by (rule w_return) (simp_all add: defs job)
  have steps: "(mt_step job)\<^sup>*\<^sup>* s s10"
    using 1 internal_steps [OF 2 internal_steps [OF 3 internal_steps [OF 4 internal_steps [OF 5
      internal_steps [OF 6 internal_steps [OF 7 internal_steps [OF 8 internal_steps [OF 9
      internal_steps [OF 10 rtranclp.rtrancl_refl]]]]]]]]]
    by (rule converse_rtranclp_into_rtranclp)
  have "mt_inv s10"
    using steps q by (induction rule: rtranclp_induct) (auto simp: quiet_def intro: mt_inv_step)
  moreover have "mt_worker s10 = (\<lambda>w. if Suc k \<le> w \<and> w < n then W_lock else W_exit)"
    by (rule ext) (simp add: defs st)
  ultimately have "quiet (Suc k) n s10"
    using q2 by (simp add: quiet_def) (simp add: defs)
  moreover have "mt_served s10 = mt_served s @ [t]" by (simp add: defs)
  ultimately show ?thesis using steps by blast
qed

lemma all_return:
  assumes "job t = Some Thread_returns" and "k \<le> n"
  shows "\<exists>s. mt_reachable job n s \<and> quiet k n s \<and> length (mt_served s) = k"
  using assms(2)
proof (induction k)
  case 0
  have "quiet 0 n (mt_start n)"
    using mt_inv_start by (auto simp: quiet_def mt_start_def steque_init_elems)
  then show ?case by (intro exI [of _ "mt_start n"]) (simp add: mt_reachable_def mt_start_def)
next
  case (Suc k)
  then obtain s where s: "mt_reachable job n s" "quiet k n s" "length (mt_served s) = k" by auto
  obtain s' where s': "(mt_step job)\<^sup>*\<^sup>* s s'" "quiet (Suc k) n s'" "mt_served s' = mt_served s @ [t]"
    using one_returns [of k n s job, OF s(2) _ assms(1)] Suc.prems by auto
  moreover have "mt_reachable job n s'"
    using s(1) s'(1) unfolding mt_reachable_def by (rule rtranclp_trans)
  ultimately show ?case using s(3) by auto
qed

lemma all_gone_step:
  assumes "mt_step job s s'" and "\<forall>w. mt_worker s w = W_exit"
  shows "(\<forall>w. mt_worker s' w = W_exit) \<and> mt_taken s' = mt_taken s \<and> mt_served s' = mt_served s"
  using assms
proof (induction rule: mt_step.induct)
  case (internal s s')
  then show ?case by (auto elim!: mt_internal.cases simp: wake_all_def)
qed auto

lemma all_gone:
  "(mt_step job)\<^sup>*\<^sup>* s s' \<Longrightarrow> \<forall>w. mt_worker s w = W_exit \<Longrightarrow>
   (\<forall>w. mt_worker s' w = W_exit) \<and> mt_taken s' = mt_taken s \<and> mt_served s' = mt_served s"
proof (induction rule: rtranclp_induct)
  case (step y z)
  with all_gone_step [OF step(2)] show ?case by auto
qed simp

section \<open>The copying loop of a worker\<close>

text \<open>
  What the loop relies on in a connection that works: a send of some bytes of the buffer
  takes them all.
\<close>

locale reply_sink =
  fixes send :: "'n \<Rightarrow> block \<Rightarrow> int \<Rightarrow> int \<times> 'n"
    and sent :: "'n \<Rightarrow> char list"
    and good :: "'n \<Rightarrow> bool"
  assumes send_all: "good n \<Longrightarrow> 0 \<le> k \<Longrightarrow> k \<le> int (length b) \<Longrightarrow> k \<le> int BUFFER_SIZE \<Longrightarrow>
      fst (send n b k) = k \<and> good (snd (send n b k)) \<and> sent (snd (send n b k)) = sent n @ take (nat k) b"
begin

lemma worker_send_complete:
  assumes src: "byte_source read_at content"
    and yields: "\<forall>off < length content. \<exists>d. read_at off BUFFER_SIZE = Some d \<and> d \<noteq> []"
    and lib: "\<And>n. gl_send lib n c = send n"
  shows "good n \<Longrightarrow> off \<le> length content \<Longrightarrow>
    \<exists>n'. worker_send lib (\<lambda>off k. if off < 0 then None else read_at (nat off) k) c (int (length content)) (int off) buf n =
      Some (int (length content), n') \<and> good n' \<and> sent n' = sent n @ drop off content"
proof (induction "length content - off" arbitrary: off n buf rule: less_induct)
  case less
  show ?case
  proof (cases "off < length content")
    case False
    with less.prems show ?thesis by (simp add: worker_send.simps)
  next
    case True
    with yields obtain d where d: "read_at off BUFFER_SIZE = Some d" "d \<noteq> []" by blast
    note x = byte_source.read_extends [OF src d(1) less.prems(2)]
    from byte_source.read_content [OF src d(1)] have dd: "d = take (length d) (drop off content)"
      and ld: "length d \<le> BUFFER_SIZE" by auto
    define w where "w = send n (d @ drop (length d) buf) (int (length d))"
    have w: "fst w = int (length d)" "good (snd w)" "sent (snd w) = sent n @ d"
      using send_all [OF less.prems(1), of "int (length d)" "d @ drop (length d) buf"] ld by (simp_all add: w_def)
    have pos: "0 < length d" using d(2) by simp
    have step: "worker_send lib (\<lambda>off k. if off < 0 then None else read_at (nat off) k) c (int (length content)) (int off) buf n =
        worker_send lib (\<lambda>off k. if off < 0 then None else read_at (nat off) k) c (int (length content))
          (int (off + length d)) (d @ drop (length d) buf) (snd w)"
      using True d pos w(1) by (subst worker_send.simps) (simp add: lib w_def [symmetric] Let_def)
    have lt: "length content - (off + length d) < length content - off" using True d(2) by (cases d) auto
    obtain n' where "worker_send lib (\<lambda>off k. if off < 0 then None else read_at (nat off) k) c (int (length content))
          (int (off + length d)) (d @ drop (length d) buf) (snd w) = Some (int (length content), n')"
      "good n'" "sent n' = sent (snd w) @ drop (off + length d) content"
      using less.hyps [OF lt w(2)] x by blast
    moreover have "d @ drop (off + length d) content = drop off content"
      using dd by (metis add.commute append_take_drop_id drop_drop)
    ultimately show ?thesis using step w(3) by (simp add: add.commute)
  qed
qed

end

text \<open>The single-threaded server's functions, as such a library.\<close>

definition gfs_or_fail :: "conn \<Rightarrow> cfault + int \<times> conn \<Rightarrow> int \<times> conn" where
  "gfs_or_fail c r = (case r of Inl _ \<Rightarrow> (- 1, c) | Inr x \<Rightarrow> x)"

definition getfile_lib :: "(unit, conn) gfs_lib" where
  "getfile_lib = \<lparr>gl_sendheader = (\<lambda>c _ status len. gfs_or_fail c (gfs_sendheader (\<lambda>_. NUL) c status (size_of_int len))),
     gl_send = (\<lambda>c _ b k. gfs_or_fail c (gfs_send c b (size_of_int k))), gl_abort = (\<lambda>c _. gfs_abort c)\<rparr>"

interpretation getfile: reply_sink "\<lambda>c. gl_send getfile_lib c ctx" csent willing for ctx
proof unfold_locales
  fix n :: conn and k and b :: block
  assume "willing n" "0 \<le> k" "k \<le> int (length b)" "k \<le> int BUFFER_SIZE"
  moreover from this have "size_of_int k = size_of_nat (nat k)" "nat k \<le> length b" "nat k < 2 ^ 63"
    by (simp_all add: size_of_int_def size_of_nat_def BUFFER_SIZE_def)
  ultimately show "fst (gl_send getfile_lib n ctx b k) = k \<and> willing (snd (gl_send getfile_lib n ctx b k)) \<and>
      csent (snd (gl_send getfile_lib n ctx b k)) = csent n @ take (nat k) b"
    by (simp add: getfile_lib_def gfs_or_fail_def gfs_send_buffer)
qed

text \<open>A loop that makes no progress does not end.\<close>

lemma worker_send_diverges:
  assumes stuck: "\<And>off n b r. off \<le> b0 \<Longrightarrow> r = pread off BUFFER_SIZE \<Longrightarrow>
      fst (gl_send lib n c b (case r of None \<Rightarrow> - 1 | Some d \<Rightarrow> int (length d))) \<le> 0"
    and "b0 < file_len"
  shows "worker_send lib pread c file_len b0 buf n = None"
proof -
  let ?P = "\<lambda>lib' pread' c' fl bt buf n y. \<not> (lib' = lib \<and> pread' = pread \<and> c' = c \<and> fl = file_len \<and> bt \<le> b0)"
  have "?P lib' pread' c' fl bt buf n y" if "worker_send lib' pread' c' fl bt buf n = Some y"
    for lib' pread' c' fl bt buf n y
  proof (rule worker_send.raw_induct [where P = ?P, OF _ that])
    fix ws lib' pread' c' fl bt buf n y
    assume ih: "\<And>lib' pread' c' fl bt buf n y. ws lib' pread' c' fl bt buf n = Some y \<Longrightarrow> ?P lib' pread' c' fl bt buf n y"
      and run: "(if bt < fl then
        let r = pread' bt BUFFER_SIZE;
            read_len = (case r of None \<Rightarrow> - 1 | Some d \<Rightarrow> int (length d));
            buffer1 = (case r of None \<Rightarrow> buf | Some d \<Rightarrow> d @ drop (length d) buf);
            n1 = (if read_len \<le> 0 then read_failed lib' c' n else n);
            w = gl_send lib' n1 c' buffer1 read_len;
            n2 = (if fst w \<noteq> read_len then read_failed lib' c' (snd w) else snd w)
        in ws lib' pread' c' fl (bt + fst w) buffer1 n2
      else Some (bt, n)) = Some y"
    show "?P lib' pread' c' fl bt buf n y"
    proof
      assume eq: "lib' = lib \<and> pread' = pread \<and> c' = c \<and> fl = file_len \<and> bt \<le> b0"
      with assms(2) run obtain n1 b1 n2 where
        "ws lib pread c file_len (bt + fst (gl_send lib n1 c b1
          (case pread bt BUFFER_SIZE of None \<Rightarrow> - 1 | Some d \<Rightarrow> int (length d)))) b1 n2 = Some y"
        by (auto simp: Let_def)
      from ih [OF this] stuck [OF _ refl, of bt n1 b1] eq show False by auto
    qed
  qed
  then have "worker_send lib pread c file_len b0 buf n \<noteq> Some y" for y by blast
  then show ?thesis by (metis not_None_eq)
qed

section \<open>Properties\<close>



text \<open>
  C16: No wake-up is lost: as long as a task is pending (and the queue is not full) and some
  worker has neither returned nor is busy serving, the program can make a step of its own;
  in particular it never rests with a pending task and a worker waiting.
\<close>

theorem mt_no_lost_wakeup:
  assumes "mt_reachable job n s" and "steque_elems (mt_queue s) \<noteq> []"
    and "int (length (steque_elems (mt_queue s))) < int_max"
    and "\<exists>w. mt_worker s w \<noteq> W_exit \<and> (\<forall>t. mt_worker s w \<noteq> W_serve t)"
  shows "(\<exists>s'. mt_internal job s s') \<and>
    (mt_boss s \<in> {Boss_unlock, Boss_broadcast} \<or> (\<forall>w. mt_worker s w \<noteq> W_wait))"
proof -
  have inv: "mt_inv s" using assms(1) by (rule mt_inv_reachable)
  have "\<exists>w. worker_awake (mt_worker s w) \<or> mt_worker s w = W_wait"
    using assms(4) unfolding worker_awake_def worker_inside_def by (metis (no_types, lifting) insertCI worker_pc.exhaust worker_pc.simps(57-64))
  with progress [OF inv assms(2,3)] inv assms(2) show ?thesis by (auto simp: mt_inv_def)
qed

theorem mt_no_lost_wakeup_witness:
  "\<exists>s s'. mt_reachable (\<lambda>_ :: nat task. None) 1 s \<and> steque_elems (mt_queue s) = [\<lparr>tk_ctx = 0, tk_path = None\<rparr>] \<and>
    mt_internal (\<lambda>_. None) s s'"
proof -
  define job where "job = (\<lambda>_ :: nat task. None :: serve_end option)"
  define t where "t = \<lparr>tk_ctx = 0 :: nat, tk_path = None\<rparr>"
  obtain q where q: "steque_enqueue (steque_init, empty_heap) t = Inr q" "steque_elems q = [t]"
    using enqueue_elems [OF steque_init_inv, of t] by (auto simp: steque_init_elems int_max_def)
  define s1 where "s1 = (mt_start 1)\<lparr>mt_boss := Boss_lock t\<rparr>"
  define s2 where "s2 = s1\<lparr>mt_lock := Some Boss, mt_boss := Boss_enqueue t\<rparr>"
  define s3 where "s3 = s2\<lparr>mt_queue := q, mt_accepted := mt_accepted s2 @ [t], mt_boss := Boss_unlock\<rparr>"
  have 1: "mt_step job (mt_start 1) s1" unfolding s1_def by (rule arrival) (simp add: mt_start_def)
  have 2: "mt_internal job s1 s2" unfolding s2_def by (rule boss_lock) (simp_all add: s1_def mt_start_def)
  have 3: "mt_internal job s2 s3" unfolding s3_def
    by (rule boss_enqueue) (simp_all add: s2_def s1_def mt_start_def q)
  have r: "mt_reachable job 1 s3" unfolding mt_reachable_def
    using 1 internal_steps [OF 2 internal_steps [OF 3 rtranclp.rtrancl_refl]] by (rule converse_rtranclp_into_rtranclp)
  have s3: "steque_elems (mt_queue s3) = [t]" "mt_worker s3 0 = W_lock"
    by (simp_all add: s3_def s2_def s1_def mt_start_def q)
  then have "\<exists>w. mt_worker s3 w \<noteq> W_exit \<and> (\<forall>t. mt_worker s3 w \<noteq> W_serve t)" by (intro exI [of _ 0]) simp
  from mt_no_lost_wakeup [OF r _ _ this] s3(1) have "\<exists>s'. mt_internal job s3 s'" by (simp add: int_max_def)
  with r s3(1) show ?thesis unfolding job_def t_def by blast
qed



text \<open>
  Over a library whose sends take everything they are given, a worker answers a task
  for a path of the index with the header and exactly the bytes of the file, and goes on
  with the next task; a path that is not in the index makes its thread return.
\<close>

lemma mt_worker_sends_file:
  assumes "store_ok st" and "NUL \<notin> set k"
    and "\<forall>fd off. \<exists>n > 0. st_plan st fd off = Some n"
    and "reply_sink (\<lambda>n. gl_send lib n c) sent good" and "good n"
    and "\<forall>len. 0 \<le> len \<and> len < 2 ^ 63 \<longrightarrow> good (snd (gl_sendheader lib n c GF_OK len)) \<and>
      sent (snd (gl_sendheader lib n c GF_OK len)) = sent n @ ok_header (nat len)"
  shows "if k \<in> fst ` set (entries (st_content st)) then
      \<exists>fd d st' n'. (k, fd) \<in> set (entries (st_content st)) \<and> fdata (st_fs st) fd = Some d \<and>
        worker_serve lib \<lparr>tk_ctx = c, tk_path = Some k\<rparr> buf st n = Some (Inr (Next_task, st', n')) \<and>
        sent n' = sent n @ ok_header (length d) @ d
    else worker_serve lib \<lparr>tk_ctx = c, tk_path = Some k\<rparr> buf st n =
        Some (Inr (Thread_returns, st, snd (gl_sendheader lib n c GF_FILE_NOT_FOUND 0)))"
proof (cases "k \<in> fst ` set (entries (st_content st))")
  case False
  have "content_ok (st_content st)" using assms(1) by (simp add: store_ok_def)
  from content_get_miss [OF this assms(2) False] False show ?thesis by (simp add: worker_serve_def)
next
  case True
  obtain fd d where g: "content_get (st_content st) (Some k) (st_fs st) = Inr (fd, lseek_set (st_fs st) fd 0)"
    and e: "(k, fd) \<in> set (entries (st_content st))" "0 \<le> fd"
    and d: "fdata (st_fs st) fd = Some d" "length d < 2 ^ 63"
    by (rule store_ok_lookup [OF assms(1,2) True])
  let ?fs = "lseek_set (lseek_set (st_fs st) fd 0) fd (length d)"
  let ?rd = "read_fd ?fs (st_plan st) fd"
  let ?n1 = "snd (gl_sendheader lib n c GF_OK (int (length d)))"
  have content: "(case fdata ?fs fd of None \<Rightarrow> [] | Some d \<Rightarrow> d) = d" using d by simp
  have src: "byte_source ?rd d" using fd.byte_source_axioms [of ?fs "st_plan st" fd] by (simp only: content)
  have "\<exists>x. ?rd off BUFFER_SIZE = Some x \<and> x \<noteq> []" if "off < length d" for off
  proof -
    obtain m where "0 < m" "st_plan st fd off = Some m" using assms(3) by blast
    with that d show ?thesis by (simp add: read_fd_def sys_pread_def BUFFER_SIZE_def)
  qed
  moreover have "good ?n1" "sent ?n1 = sent n @ ok_header (length d)"
    using assms(6) d(2) by (auto dest: spec [of _ "int (length d)"])
  ultimately obtain n' where
    "worker_send lib (\<lambda>off k. if off < 0 then None else ?rd (nat off) k) c (int (length d)) (int 0) buf ?n1 =
      Some (int (length d), n')" "sent n' = (sent n @ ok_header (length d)) @ d"
    using reply_sink.worker_send_complete [OF assms(4) src, of lib c ?n1 0 buf] by auto
  then have "worker_serve lib \<lparr>tk_ctx = c, tk_path = Some k\<rparr> buf st n = Some (Inr (Next_task, st\<lparr>st_fs := ?fs\<rparr>, n'))"
    using g e(2) d by (simp add: worker_serve_def lseek_end_def)
  with True e d \<open>sent n' = _\<close> show ?thesis by (simp only: if_True) (metis append.assoc)
qed

text \<open>
  After a failed read or write the copying loop goes on as if nothing had happened. When
  every send fails (the peer is gone), or when nothing can be read from the start of the
  file on, a worker that was given a non-empty file never comes back for another task.
\<close>

lemma mt_worker_hangs:
  assumes "content_get (st_content st) (tk_path job) (st_fs st) = Inr (fd, fs1)" and "0 \<le> fd"
    and "fdata fs1 fd = Some d" and "d \<noteq> []"
    and "(\<forall>n b k. fst (gl_send lib n (tk_ctx job) b k) \<le> 0) \<or>
      st_plan st fd 0 \<in> {None, Some 0} \<and> (\<forall>n b k. k \<le> 0 \<longrightarrow> fst (gl_send lib n (tk_ctx job) b k) \<le> 0)"
  shows "worker_serve lib job buf st n = None"
proof -
  let ?fs = "lseek_set fs1 fd (length d)"
  let ?rd = "\<lambda>off k. if off < 0 then None else read_fd ?fs (st_plan st) fd (nat off) k"
  have "fst (gl_send lib n (tk_ctx job) b (case r of None \<Rightarrow> - 1 | Some x \<Rightarrow> int (length x))) \<le> 0"
    if "off \<le> 0" "r = ?rd off BUFFER_SIZE" for off n b r
    using assms(3,5) that by (auto simp: read_fd_def sys_pread_def split: option.splits if_splits)
  then have "worker_send lib ?rd (tk_ctx job) (int (length d)) 0 buf n1 = None" for n1
    using assms(4) by (intro worker_send_diverges) auto
  with assms(1-3) show ?thesis by (simp add: worker_serve_def lseek_end_def Let_def)
qed

end
