(* ===== verification/ShmPool.thy ===== *)
theory ShmPool
  imports Steque CString
begin

text \<open>
  The proxy's side of the cache, \<open>handle_with_cache.c\<close>, up to the transfer itself: the pool
  of shared memory names that handler threads take from and give back, and the message to the
  cache daemon. \<open>simplecached.c\<close>'s main loop, which queues
  pointers to the message it received, is here too. A critical section under
  \<open>fldes_mutex\<close> is one step; it is not enabled while its \<open>while\<close> loop would wait.
\<close>

section \<open>The pool of names\<close>

definition SHAREDMPATH :: string where "SHAREDMPATH = ''/sharedmpath''"

record pool =
  fldes_queue :: "string qstate"
  fldes_queue_size :: int
  max_fldes_queue_size :: int

definition segment_id :: "int \<Rightarrow> string" where
  "segment_id i = SHAREDMPATH @ show_int i"

text \<open>The name is built in a block of the exact size with \<open>strcpy\<close> and \<open>strcat\<close>.\<close>

definition make_segment_id :: "int \<Rightarrow> cfault + string" where
  "make_segment_id i =
     bindE (strcpy_to (fresh_block (\<lambda>_. NUL) 16) 0 (show_int i)) (\<lambda>str_id.
     bindE (cstr_at str_id 0) (\<lambda>s.
     let blk = fresh_block (\<lambda>_. NUL) (length s + length SHAREDMPATH + 1) in
     bindE (strcpy_to blk 0 SHAREDMPATH) (\<lambda>b1.
     bindE (strcat_to b1 0 s) (\<lambda>b2. cstr_at b2 0))))"

definition init_proxy :: "int \<Rightarrow> cfault + pool" where
  "init_proxy segments =
     bindE (foldE (\<lambda>i q. bindE (make_segment_id (int i)) (\<lambda>name. steque_enqueue q name))
              [0..<nat segments] (steque_init, empty_heap)) (\<lambda>q.
     Inr \<lparr>fldes_queue = q, fldes_queue_size = steque_size q, max_fldes_queue_size = steque_size q\<rparr>)"

text \<open>\<open>None\<close>: the thread has to wait.\<close>

definition pool_acquire :: "pool \<Rightarrow> (cfault + string \<times> pool) option" where
  "pool_acquire p =
     (if fldes_queue_size p = 0 then None
      else Some (bindE (steque_pop (fldes_queue p)) (\<lambda>(fldes, q).
        bindE (c_int (fldes_queue_size p - 1)) (\<lambda>n.
        Inr (fldes, p\<lparr>fldes_queue := q, fldes_queue_size := n\<rparr>)))))"

definition pool_release :: "string \<Rightarrow> pool \<Rightarrow> (cfault + pool) option" where
  "pool_release fldes p =
     (if fldes_queue_size p = max_fldes_queue_size p then None
      else Some (bindE (steque_enqueue (fldes_queue p) fldes) (\<lambda>q.
        bindE (c_int (fldes_queue_size p + 1)) (\<lambda>n.
        Inr (p\<lparr>fldes_queue := q, fldes_queue_size := n\<rparr>)))))"

section \<open>Handler threads over the pool\<close>

text \<open>
  \<open>Returned_early\<close> is the return after a failed \<open>gfs_send\<close>, which does not call
  \<open>destroy_shm_seg\<close>; a thread that comes back to serve another request is a new number.
\<close>

datatype handler_pc = Waiting_for_name | Holds string | Gave_back | Returned_early string

record proxy_state =
  px_pool :: pool
  px_handler :: "nat \<Rightarrow> handler_pc"

inductive proxy_step :: "proxy_state \<Rightarrow> proxy_state \<Rightarrow> bool" where
  acquire: "px_handler s h = Waiting_for_name \<Longrightarrow> pool_acquire (px_pool s) = Some (Inr (fldes, p)) \<Longrightarrow>
    proxy_step s \<lparr>px_pool = p, px_handler = (px_handler s)(h := Holds fldes)\<rparr>"
| release: "px_handler s h = Holds fldes \<Longrightarrow> pool_release fldes (px_pool s) = Some (Inr p) \<Longrightarrow>
    proxy_step s \<lparr>px_pool = p, px_handler = (px_handler s)(h := Gave_back)\<rparr>"
| write_error: "px_handler s h = Holds fldes \<Longrightarrow>
    proxy_step s (s\<lparr>px_handler := (px_handler s)(h := Returned_early fldes)\<rparr>)"

definition proxy_reachable :: "int \<Rightarrow> proxy_state \<Rightarrow> bool" where
  "proxy_reachable segments s \<longleftrightarrow> (\<exists>p. init_proxy segments = Inr p \<and>
     proxy_step\<^sup>*\<^sup>* \<lparr>px_pool = p, px_handler = (\<lambda>_. Waiting_for_name)\<rparr> s)"

section \<open>Messages\<close>

text \<open>\<open>path\<close> and \<open>fldes\<close> are arrays of 256 bytes; the int and both arrays make 516 bytes.\<close>

record msgq_data =
  md_segment_size :: int
  md_path :: block
  md_fldes :: block

definition MSG_FIELD :: nat where "MSG_FIELD = 256"

definition MSG_SIZE :: nat where "MSG_SIZE = 1024"

definition fill_message :: "(nat \<Rightarrow> char) \<Rightarrow> int \<Rightarrow> string \<Rightarrow> string \<Rightarrow> cfault + msgq_data" where
  "fill_message junk segment_size p fldes =
     bindE (strcpy_to (fresh_block junk MSG_FIELD) 0 p) (\<lambda>b1.
     bindE (strcpy_to (fresh_block junk MSG_FIELD) 0 fldes) (\<lambda>b2.
     Inr \<lparr>md_segment_size = segment_size, md_path = b1, md_fldes = b2\<rparr>))"

definition int_bytes :: "int \<Rightarrow> char list" where
  "int_bytes i = map (\<lambda>k. char_of (nat (i div 2 ^ (8 * k) mod 256))) [0..<4]"

definition struct_bytes :: "msgq_data \<Rightarrow> block" where
  "struct_bytes m = int_bytes (md_segment_size m) @ md_path m @ md_fldes m"

text \<open>What \<open>mq_send(mq, &data, 1024, 1)\<close> reads, and \<open>mq_receive(.., &data, 1024, ..)\<close> writes.\<close>

definition send_message :: "msgq_data \<Rightarrow> cfault + char list" where
  "send_message m = get_bytes (struct_bytes m) 0 MSG_SIZE"

definition receive_message :: "msgq_data \<Rightarrow> char list \<Rightarrow> cfault + block" where
  "receive_message old bytes = put_bytes (struct_bytes old) 0 (take MSG_SIZE bytes)"

section \<open>The daemon's queue of pointers\<close>

text \<open>
  \<open>data\<close> is one variable of \<open>main\<close>; every entry of the queue is a pointer to it, so the
  queue is modelled by its length. A worker reads the fields of the message one after the
  other while \<open>main\<close> goes on receiving.
\<close>

definition MAX_CACHE_REQUEST_LEN :: int where "MAX_CACHE_REQUEST_LEN = 256"

datatype daemon_pc =
    C_idle
  | C_popped
  | C_has_path string
  | C_has_both string string           \<comment> \<open>the path and the segment name it will use\<close>

record daemon =
  dm_data :: "string \<times> string"         \<comment> \<open>path and segment name in the variable \<open>data\<close>\<close>
  dm_got :: bool                        \<comment> \<open>\<open>main\<close> has received a message it has not queued yet\<close>
  dm_queued :: int                      \<comment> \<open>\<open>steq_size\<close>\<close>
  dm_worker :: "nat \<Rightarrow> daemon_pc"

text \<open>The loop of \<open>main\<close>: the message is received before \<open>main\<close> waits for room in the queue.\<close>

inductive daemon_main :: "daemon \<Rightarrow> (string \<times> string) option \<Rightarrow> daemon \<Rightarrow> bool" where
  receive: "\<not> dm_got s \<Longrightarrow> daemon_main s (Some m) (s\<lparr>dm_data := m, dm_got := True\<rparr>)"
| enqueue: "dm_got s \<Longrightarrow> dm_queued s \<noteq> MAX_CACHE_REQUEST_LEN \<Longrightarrow>
    daemon_main s None (s\<lparr>dm_got := False, dm_queued := dm_queued s + 1\<rparr>)"

text \<open>A worker: taking a pointer, \<open>simplecache_get(msg->path)\<close>, \<open>shm_open(msg->fldes)\<close>, the transfer.\<close>

inductive daemon_worker :: "daemon \<Rightarrow> daemon \<Rightarrow> bool" where
  pop: "dm_worker s w = C_idle \<Longrightarrow> dm_queued s \<noteq> 0 \<Longrightarrow>
    daemon_worker s (s\<lparr>dm_queued := dm_queued s - 1, dm_worker := (dm_worker s)(w := C_popped)\<rparr>)"
| get_path: "dm_worker s w = C_popped \<Longrightarrow>
    daemon_worker s (s\<lparr>dm_worker := (dm_worker s)(w := C_has_path (fst (dm_data s)))\<rparr>)"
| get_name: "dm_worker s w = C_has_path p \<Longrightarrow>
    daemon_worker s (s\<lparr>dm_worker := (dm_worker s)(w := C_has_both p (snd (dm_data s)))\<rparr>)"
| finished: "dm_worker s w = C_has_both p f \<Longrightarrow>
    daemon_worker s (s\<lparr>dm_worker := (dm_worker s)(w := C_idle)\<rparr>)"

definition daemon_step :: "daemon \<Rightarrow> (string \<times> string) option \<Rightarrow> daemon \<Rightarrow> bool" where
  "daemon_step s m s' \<longleftrightarrow> daemon_main s m s' \<or> (m = None \<and> daemon_worker s s')"

text \<open>A run that receives the given messages, in order.\<close>

inductive daemon_run :: "daemon \<Rightarrow> (string \<times> string) list \<Rightarrow> daemon \<Rightarrow> bool" where
  run_nil: "daemon_run s [] s"
| run_cons: "daemon_step s m s1 \<Longrightarrow> daemon_run s1 ms s2 \<Longrightarrow>
    daemon_run s (case m of None \<Rightarrow> ms | Some x \<Rightarrow> x # ms) s2"

definition daemon_start :: daemon where
  "daemon_start = \<lparr>dm_data = ([], []), dm_got = False, dm_queued = 0, dm_worker = (\<lambda>_. C_idle)\<rparr>"

section \<open>Names\<close>

lemma show_int_nat: "show_int (int n) = show_nat n"
  by (simp add: show_int_def)

lemma make_segment_id_known:
  assumes "i < 10 ^ 10"
  shows "make_segment_id (int i) = Inr (SHAREDMPATH @ show_nat i)"
proof -
  have l: "length (show_nat i) \<le> 10" using assms by (rule show_nat_length) simp
  have n: "NUL \<notin> set SHAREDMPATH" by (simp add: SHAREDMPATH_def)
  have 1: "strcpy_to (fresh_block (\<lambda>_. NUL) 16) 0 (show_nat i) =
      Inr (show_nat i @ NUL # drop (Suc (length (show_nat i))) (fresh_block (\<lambda>_. NUL) 16))"
    using l by (simp add: strcpy_to_start)
  let ?blk = "fresh_block (\<lambda>_. NUL) (length (show_nat i) + length SHAREDMPATH + 1)"
  let ?r = "drop (Suc (length SHAREDMPATH)) ?blk"
  have 2: "strcpy_to ?blk 0 SHAREDMPATH = Inr (SHAREDMPATH @ NUL # ?r)" by (simp add: strcpy_to_start)
  have 3: "strcat_to (SHAREDMPATH @ NUL # ?r) 0 (show_nat i) =
      Inr ((SHAREDMPATH @ show_nat i) @ NUL # drop (length (show_nat i)) ?r)"
    using n by (subst strcat_to_known) auto
  have 4: "cstr_at ((SHAREDMPATH @ show_nat i) @ NUL # x) 0 = Inr (SHAREDMPATH @ show_nat i)" for x
    using n by (intro cstr_at_start) simp
  have 5: "cstr_at (show_nat i @ NUL # x) 0 = Inr (show_nat i)" for x by (rule cstr_at_start) simp
  show ?thesis
    by (simp only: make_segment_id_def show_int_nat 1 2 3 4 5 bindE_Inr Let_def)
qed

definition segment_names :: "nat \<Rightarrow> string list" where
  "segment_names n = map (\<lambda>i. SHAREDMPATH @ show_nat i) [0..<n]"

lemma distinct_segment_names: "distinct (segment_names n)"
  by (auto simp: segment_names_def distinct_map inj_on_def show_nat_inj)

lemma length_segment_names [simp]: "length (segment_names n) = n"
  by (simp add: segment_names_def)

lemma foldE_map: "foldE (\<lambda>i. g (f i)) is s = foldE g (map f is) s"
  by (induction "is" arbitrary: s) (auto simp: bindE_def split: sum.splits)

lemma foldE_cong_set: "(\<And>x s. x \<in> set xs \<Longrightarrow> f x s = g x s) \<Longrightarrow> foldE f xs s = foldE g xs s"
  by (induction xs arbitrary: s) (auto simp: bindE_def split: sum.splits)

definition pool_ok :: "nat \<Rightarrow> pool \<Rightarrow> bool" where
  "pool_ok n p \<longleftrightarrow> steque_inv (fldes_queue p) \<and> fldes_queue_size p = int (length (steque_elems (fldes_queue p))) \<and>
     max_fldes_queue_size p = int n \<and> int n \<le> int_max"

lemma init_proxy_known:
  assumes "int n \<le> int_max"
  shows "\<exists>p. init_proxy (int n) = Inr p \<and> pool_ok n p \<and> steque_elems (fldes_queue p) = segment_names n"
proof -
  let ?put = "\<lambda>name q. steque_enqueue q name"
  have "foldE (\<lambda>i q. bindE (make_segment_id (int i)) (\<lambda>name. steque_enqueue q name)) [0..<n] (steque_init, empty_heap) =
      foldE (\<lambda>i. ?put (SHAREDMPATH @ show_nat i)) [0..<n] (steque_init, empty_heap)"
    using assms by (intro foldE_cong_set) (simp add: make_segment_id_known int_max_def)
  also have "\<dots> = foldE ?put (segment_names n) (steque_init, empty_heap)"
    unfolding segment_names_def by (rule foldE_map [of ?put "\<lambda>i. SHAREDMPATH @ show_nat i"])
  finally have run: "foldE (\<lambda>i q. bindE (make_segment_id (int i)) (\<lambda>name. steque_enqueue q name)) [0..<n]
      (steque_init, empty_heap) = foldE ?put (segment_names n) (steque_init, empty_heap)" .
  have "length (steque_elems (steque_init, empty_heap) :: string list) + length (segment_names n) \<le> nat int_max"
    using assms by (simp add: steque_init_elems)
  from sq.enq_all [OF steque_init_inv this] obtain q where
    "foldE ?put (segment_names n) (steque_init, empty_heap) = Inr q" "steque_inv q"
    "steque_elems q = segment_names n" by (auto simp: steque_init_elems)
  with run assms show ?thesis by (auto simp: init_proxy_def pool_ok_def steque_size_elems)
qed

section \<open>Who owns a name\<close>

definition owned :: "handler_pc \<Rightarrow> string option" where
  "owned pc = (case pc of Holds f \<Rightarrow> Some f | Returned_early f \<Rightarrow> Some f | _ \<Rightarrow> None)"

definition proxy_inv :: "nat \<Rightarrow> proxy_state \<Rightarrow> bool" where
  "proxy_inv n s \<longleftrightarrow> pool_ok n (px_pool s) \<and>
     distinct (steque_elems (fldes_queue (px_pool s))) \<and>
     set (steque_elems (fldes_queue (px_pool s))) \<union> {f. \<exists>h. owned (px_handler s h) = Some f} = set (segment_names n) \<and>
     (\<forall>h f. owned (px_handler s h) = Some f \<longrightarrow> f \<notin> set (steque_elems (fldes_queue (px_pool s)))) \<and>
     (\<forall>h h' f. owned (px_handler s h) = Some f \<longrightarrow> owned (px_handler s h') = Some f \<longrightarrow> h = h')"

lemma acquire_ok:
  assumes "pool_ok n p" and "steque_elems (fldes_queue p) = x # xs"
  shows "\<exists>p'. pool_acquire p = Some (Inr (x, p')) \<and> pool_ok n p' \<and> steque_elems (fldes_queue p') = xs"
proof -
  obtain q where "steque_pop (fldes_queue p) = Inr (x, q)" "steque_inv q" "steque_elems q = xs"
    using sq.deq_elems [OF _ assms(2)] assms(1) by (auto simp: pool_ok_def)
  moreover have "int (length xs) + 1 \<le> int_max"
    using assms steque_inv_size [of "fldes_queue p"] by (simp add: pool_ok_def)
  ultimately show ?thesis
    using assms by (auto simp: pool_acquire_def pool_ok_def c_int_def)
qed

lemma release_ok:
  assumes "pool_ok n p" and "length (steque_elems (fldes_queue p)) < n"
  shows "\<exists>p'. pool_release x p = Some (Inr p') \<and> pool_ok n p' \<and>
    steque_elems (fldes_queue p') = steque_elems (fldes_queue p) @ [x]"
proof -
  have lt: "int (length (steque_elems (fldes_queue p))) < int_max" using assms by (simp add: pool_ok_def)
  obtain q where "steque_enqueue (fldes_queue p) x = Inr q" "steque_inv q"
    "steque_elems q = steque_elems (fldes_queue p) @ [x]"
    using enqueue_elems [OF _ lt, of x] assms(1) by (auto simp: pool_ok_def)
  then show ?thesis
    using assms lt by (auto simp: pool_release_def pool_ok_def c_int_def)
qed

lemma acquire_waits: "pool_ok n p \<Longrightarrow> pool_acquire p = None \<longleftrightarrow> steque_elems (fldes_queue p) = []"
  by (simp add: pool_acquire_def pool_ok_def)

lemma owner_room:
  assumes "proxy_inv n s" and "owned (px_handler s h) = Some f"
  shows "length (steque_elems (fldes_queue (px_pool s))) < n"
proof -
  let ?q = "steque_elems (fldes_queue (px_pool s))"
  have f: "f \<in> set (segment_names n)" "f \<notin> set ?q" and sub: "set ?q \<subseteq> set (segment_names n)" and d: "distinct ?q"
    using assms by (auto simp: proxy_inv_def)
  then have "set ?q \<subset> set (segment_names n)" by blast
  then have "card (set ?q) < card (set (segment_names n))" by (intro psubset_card_mono) auto
  with d show ?thesis by (simp add: distinct_card distinct_segment_names)
qed

lemma owned_simps [simp]:
  "owned (Holds f) = Some f" "owned (Returned_early f) = Some f" "owned Gave_back = None" "owned Waiting_for_name = None"
  by (simp_all add: owned_def)

lemma proxy_inv_step:
  assumes "proxy_step s s'" and inv: "proxy_inv n s"
  shows "proxy_inv n s'"
  using assms(1)
proof cases
  case (acquire h fldes p)
  let ?q = "steque_elems (fldes_queue (px_pool s))"
  have ok: "pool_ok n (px_pool s)" using inv by (simp add: proxy_inv_def)
  have "?q \<noteq> []" using acquire(3) acquire_waits [OF ok] by auto
  then obtain x xs where x: "?q = x # xs" by (cases ?q) auto
  from acquire_ok [OF ok x] acquire(3) have p: "fldes = x" "pool_ok n p" "steque_elems (fldes_queue p) = xs" by auto
  have "{f. \<exists>h'. owned (((px_handler s)(h := Holds x)) h') = Some f} =
      insert x {f. \<exists>h'. owned (px_handler s h') = Some f}"
    using acquire(2) by (auto, metis option.distinct(1) owned_simps(4))
  with acquire p inv x show ?thesis by (auto simp: proxy_inv_def)
next
  case (release h fldes p)
  let ?q = "steque_elems (fldes_queue (px_pool s))"
  have ok: "pool_ok n (px_pool s)" using inv by (simp add: proxy_inv_def)
  have lt: "length ?q < n" using owner_room [OF inv, of h] release(2) by simp
  from release_ok [OF ok lt, of fldes] release(3) have p: "pool_ok n p" "steque_elems (fldes_queue p) = ?q @ [fldes]"
    by auto
  have uniq: "h' = h" if "owned (px_handler s h') = Some fldes" for h'
    using inv release(2) that unfolding proxy_inv_def by (metis owned_simps(1))
  have "fldes \<notin> set ?q" using inv release(2) unfolding proxy_inv_def by (metis owned_simps(1))
  moreover have "insert fldes {f. \<exists>h'. owned (((px_handler s)(h := Gave_back)) h') = Some f} =
      {f. \<exists>h'. owned (px_handler s h') = Some f}"
  proof -
    have "\<exists>h''. owned (((px_handler s)(h := Gave_back)) h'') = Some f"
      if "f \<noteq> fldes" "owned (px_handler s h') = Some f" for f h'
    proof -
      have "h' \<noteq> h" using that release(2) by auto
      then show ?thesis using that by (intro exI [of _ h']) simp
    qed
    moreover have "owned (px_handler s h'') = Some f"
      if "owned (((px_handler s)(h := Gave_back)) h'') = Some f" for f h''
      using that by (cases "h'' = h") simp_all
    moreover have "owned (px_handler s h) = Some fldes" using release(2) by simp
    ultimately show ?thesis by blast
  qed
  ultimately show ?thesis
    using release p inv uniq by (auto simp: proxy_inv_def split: if_splits)
next
  case (write_error h fldes)
  have "owned (((px_handler s)(h := Returned_early fldes)) h') = owned (px_handler s h')" for h'
    using write_error(2) by simp
  with write_error inv show ?thesis by (simp add: proxy_inv_def del: fun_upd_apply)
qed

lemma proxy_inv_reachable:
  assumes "proxy_reachable (int n) s" and "int n \<le> int_max"
  shows "proxy_inv n s"
proof -
  obtain p where p: "init_proxy (int n) = Inr p" "pool_ok n p" "steque_elems (fldes_queue p) = segment_names n"
    using init_proxy_known [OF assms(2)] by blast
  have "proxy_step\<^sup>*\<^sup>* \<lparr>px_pool = p, px_handler = (\<lambda>_. Waiting_for_name)\<rparr> s"
    using assms(1) p(1) by (auto simp: proxy_reachable_def)
  then show ?thesis
  proof (induction rule: rtranclp_induct)
    case base
    show ?case using p by (simp add: proxy_inv_def distinct_segment_names)
  qed (rule proxy_inv_step)
qed

section \<open>Properties\<close>



lemma leak_one:
  assumes "proxy_inv n s" and "px_handler s h = Waiting_for_name"
    and "steque_elems (fldes_queue (px_pool s)) = x # xs"
  shows "\<exists>s'. proxy_step\<^sup>*\<^sup>* s s' \<and> px_handler s' = (px_handler s)(h := Returned_early x) \<and>
    steque_elems (fldes_queue (px_pool s')) = xs"
proof -
  obtain p where p: "pool_acquire (px_pool s) = Some (Inr (x, p))" "steque_elems (fldes_queue p) = xs"
    using acquire_ok [OF _ assms(3)] assms(1) by (auto simp: proxy_inv_def)
  let ?s1 = "\<lparr>px_pool = p, px_handler = (px_handler s)(h := Holds x)\<rparr>"
  have 1: "proxy_step s ?s1" using assms(2) p(1) by (rule acquire)
  have 2: "proxy_step ?s1 (?s1\<lparr>px_handler := (px_handler ?s1)(h := Returned_early x)\<rparr>)"
    by (rule write_error) simp
  have "proxy_step\<^sup>*\<^sup>* s (?s1\<lparr>px_handler := (px_handler ?s1)(h := Returned_early x)\<rparr>)"
    using 1 2 by (meson converse_rtranclp_into_rtranclp r_into_rtranclp)
  with p(2) show ?thesis by (intro exI [of _ "?s1\<lparr>px_handler := (px_handler ?s1)(h := Returned_early x)\<rparr>"]) simp
qed

lemma leak_many:
  assumes "int n \<le> int_max" and "k \<le> n"
  shows "\<exists>s. proxy_reachable (int n) s \<and> length (steque_elems (fldes_queue (px_pool s))) = n - k \<and>
    (\<forall>h. if h < k then \<exists>f. px_handler s h = Returned_early f else px_handler s h = Waiting_for_name)"
  using assms(2)
proof (induction k)
  case 0
  obtain p where "init_proxy (int n) = Inr p" "steque_elems (fldes_queue p) = segment_names n"
    using init_proxy_known [OF assms(1)] by blast
  then show ?case
    by (intro exI [of _ "\<lparr>px_pool = p, px_handler = (\<lambda>_. Waiting_for_name)\<rparr>"]) (auto simp: proxy_reachable_def)
next
  case (Suc k)
  then obtain s where s: "proxy_reachable (int n) s" "length (steque_elems (fldes_queue (px_pool s))) = n - k"
    "\<forall>h. if h < k then \<exists>f. px_handler s h = Returned_early f else px_handler s h = Waiting_for_name" by auto
  then obtain x xs where x: "steque_elems (fldes_queue (px_pool s)) = x # xs"
    using Suc.prems by (cases "steque_elems (fldes_queue (px_pool s))") auto
  have "px_handler s k = Waiting_for_name" using s(3) by (auto dest: spec [of _ k])
  from leak_one [OF proxy_inv_reachable [OF s(1) assms(1)] this x] obtain s' where
    s': "proxy_step\<^sup>*\<^sup>* s s'" "px_handler s' = (px_handler s)(k := Returned_early x)"
      "steque_elems (fldes_queue (px_pool s')) = xs" by blast
  have "proxy_reachable (int n) s'"
    using s(1) s'(1) unfolding proxy_reachable_def by (meson rtranclp_trans)
  moreover have "length xs = n - Suc k" using s(2) x by simp
  moreover have "if h < Suc k then \<exists>f. px_handler s' h = Returned_early f else px_handler s' h = Waiting_for_name" for h
    using spec [OF s(3), of h] s'(2) by (cases "h = k") (auto simp: less_Suc_eq)
  ultimately show ?case using s'(3) by blast
qed

text \<open>
  C37: A failed \<open>gfs_send\<close> makes the handler return without giving its name back. After as
  many such failures as there are segments every further request waits for ever: the state
  is reachable and no step is possible in it.
\<close>

theorem pool_leaks:
  assumes "int n \<le> int_max"
  shows "\<exists>s. proxy_reachable (int n) s \<and> (\<forall>h < n. \<exists>f. px_handler s h = Returned_early f) \<and>
    (\<forall>h \<ge> n. px_handler s h = Waiting_for_name) \<and> (\<nexists>s'. proxy_step s s')"
proof -
  obtain s where s: "proxy_reachable (int n) s" "steque_elems (fldes_queue (px_pool s)) = []"
    "\<forall>h. if h < n then \<exists>f. px_handler s h = Returned_early f else px_handler s h = Waiting_for_name"
    using leak_many [OF assms, of n] by auto
  have "pool_ok n (px_pool s)" using proxy_inv_reachable [OF s(1) assms] by (simp add: proxy_inv_def)
  then have acq: "pool_acquire (px_pool s) = None" using s(2) acquire_waits by blast
  have hold: "px_handler s h \<noteq> Holds f" for h f
    using spec [OF s(3), of h] by (auto split: if_splits)
  have "\<nexists>s'. proxy_step s s'" using acq hold by (auto elim!: proxy_step.cases)
  with s show ?thesis by (metis not_le)
qed

theorem pool_leaks_witness:
  "\<exists>s. proxy_reachable 3 s \<and> px_handler s 7 = Waiting_for_name \<and> (\<nexists>s'. proxy_step s s')"
  using pool_leaks [of 3] by (auto simp: int_max_def)

text \<open>
  The path of the request is copied into an array of 256 bytes whatever its length, and
  the message is sent with a length of 1024 bytes although the structure has 516: the first
  is an overflow for every path of 256 bytes or more, the second for every message.
\<close>

lemma message_overruns:
  shows "(256 \<le> length p \<longrightarrow> fill_message junk n p f = Inl Out_of_bounds) \<and>
    (fill_message junk n p f = Inr m \<longrightarrow> length (struct_bytes m) = 516 \<and> send_message m = Inl Out_of_bounds)"
proof -
  have "fill_message junk n p f = Inl Out_of_bounds" if "256 \<le> length p"
    using that by (simp add: fill_message_def MSG_FIELD_def strcpy_to_overflow)
  moreover have "length (struct_bytes m) = 516" if "fill_message junk n p f = Inr m"
    using that by (auto simp: fill_message_def MSG_FIELD_def struct_bytes_def int_bytes_def strcpy_to_def put_bytes_def
        elim!: bindE_eq_InrE split: if_splits)
  ultimately show ?thesis by (auto simp: send_message_def MSG_SIZE_def get_bytes_def)
qed

text \<open>
  C38: The daemon queues pointers to one variable. Two requests that arrive before a worker
  has read the first are mixed up: the first worker serves the path of the first request
  into the segment of the second, and the second worker serves the second request into the
  same segment; the segment of the first request is never used.
\<close>

theorem daemon_mixes_requests:
  "\<exists>s. daemon_run daemon_start [(p1, f1), (p2, f2)] s \<and> dm_worker s 0 = C_has_both p1 f2 \<and>
    dm_worker s 1 = C_has_both p2 f2 \<and> dm_queued s = 0"
proof -
  define r1 where "r1 = daemon_start\<lparr>dm_data := (p1, f1), dm_got := True\<rparr>"
  define s1 where "s1 = r1\<lparr>dm_got := False, dm_queued := dm_queued r1 + 1\<rparr>"
  define s2 where "s2 = s1\<lparr>dm_queued := dm_queued s1 - 1, dm_worker := (dm_worker s1)(0 := C_popped)\<rparr>"
  define s3 where "s3 = s2\<lparr>dm_worker := (dm_worker s2)(0 := C_has_path (fst (dm_data s2)))\<rparr>"
  define r2 where "r2 = s3\<lparr>dm_data := (p2, f2), dm_got := True\<rparr>"
  define s5 where "s5 = r2\<lparr>dm_worker := (dm_worker r2)(0 := C_has_both p1 (snd (dm_data r2)))\<rparr>"
  define s4 where "s4 = s5\<lparr>dm_got := False, dm_queued := dm_queued s5 + 1\<rparr>"
  define s6 where "s6 = s4\<lparr>dm_queued := dm_queued s4 - 1, dm_worker := (dm_worker s4)(1 := C_popped)\<rparr>"
  define s7 where "s7 = s6\<lparr>dm_worker := (dm_worker s6)(1 := C_has_path (fst (dm_data s6)))\<rparr>"
  define s8 where "s8 = s7\<lparr>dm_worker := (dm_worker s7)(1 := C_has_both p2 (snd (dm_data s7)))\<rparr>"
  note d = r1_def s1_def s2_def s3_def r2_def s4_def s5_def s6_def s7_def s8_def daemon_start_def MAX_CACHE_REQUEST_LEN_def
  have "daemon_main daemon_start (Some (p1, f1)) r1" unfolding r1_def by (rule daemon_main.receive) (simp add: d)
  moreover have "daemon_main r1 None s1" unfolding s1_def by (rule daemon_main.enqueue) (simp_all add: d)
  moreover have "daemon_worker s1 s2" unfolding s2_def by (rule daemon_worker.pop) (simp_all add: d)
  moreover have "daemon_worker s2 s3" unfolding s3_def by (rule daemon_worker.get_path) (simp add: s2_def)
  moreover have "daemon_main s3 (Some (p2, f2)) r2" unfolding r2_def by (rule daemon_main.receive) (simp add: d)
  moreover have "daemon_worker r2 s5" unfolding s5_def by (rule daemon_worker.get_name) (simp add: d)
  moreover have "daemon_main s5 None s4" unfolding s4_def by (rule daemon_main.enqueue) (simp_all add: d)
  moreover have "daemon_worker s4 s6" unfolding s6_def by (rule daemon_worker.pop) (simp_all add: d)
  moreover have "daemon_worker s6 s7" unfolding s7_def by (rule daemon_worker.get_path) (simp add: s6_def)
  moreover have "daemon_worker s7 s8" unfolding s8_def by (rule daemon_worker.get_name) (simp add: d)
  ultimately have "daemon_step daemon_start (Some (p1, f1)) r1" "daemon_step r1 None s1" "daemon_step s1 None s2"
    "daemon_step s2 None s3" "daemon_step s3 (Some (p2, f2)) r2" "daemon_step r2 None s5" "daemon_step s5 None s4"
    "daemon_step s4 None s6" "daemon_step s6 None s7" "daemon_step s7 None s8" by (simp_all add: daemon_step_def)
  then have "daemon_run daemon_start [(p1, f1), (p2, f2)] s8"
    using run_cons [of daemon_start "Some (p1, f1)"] run_cons [of _ None] run_cons [of _ "Some (p2, f2)"] run_nil
    by (metis (no_types, lifting) option.case)
  moreover have "dm_worker s8 0 = C_has_both p1 f2" "dm_worker s8 1 = C_has_both p2 f2" "dm_queued s8 = 0"
    by (simp_all add: d)
  ultimately show ?thesis by blast
qed

end
