(* ===== verification/ShmChannel.thy ===== *)
theory ShmChannel
  imports Prelude
begin

text \<open>
  The transfer of one file through a shared memory segment: the second half of
  \<open>handle_with_cache\<close> (the proxy) and \<open>cache_worker\<close> of \<open>simplecached.c\<close> (the daemon), as a
  step relation with one step per access to the segment, lock, unlock, wait and wake-up.
  The two programs declare the structure with the two mutexes in opposite orders, so each
  one's \<open>data_mutex\<close> is the other one's \<open>file_len_mutex\<close>; the mutexes are named here by their
  place in memory. Reads of the file do not fail and return at least one byte.
\<close>

section \<open>The segment and the two programs\<close>

datatype side = Proxy | Cache

datatype place = First_mutex | Second_mutex

definition proxy_data_mutex :: place where "proxy_data_mutex = First_mutex"
definition proxy_file_len_mutex :: place where "proxy_file_len_mutex = Second_mutex"
definition cache_file_len_mutex :: place where "cache_file_len_mutex = First_mutex"
definition cache_data_mutex :: place where "cache_data_mutex = Second_mutex"

lemmas mutex_places = proxy_data_mutex_def proxy_file_len_mutex_def cache_file_len_mutex_def cache_data_mutex_def

datatype proxy_pc =
    P_len_lock | P_len_test | P_len_sleep | P_len_wait | P_len_unlock | P_len_bcast
  | P_missing                       \<comment> \<open>answers FILE_NOT_FOUND\<close>
  | P_loop | P_data_lock | P_data_test | P_data_sleep | P_data_wait
  | P_send nat | P_clear nat | P_unlock nat | P_bcast nat
  | P_failed                        \<comment> \<open>returned after a failed send, the mutex still locked\<close>
  | P_done

datatype cache_pc =
    C_zero | C_len_lock | C_len_test | C_len_sleep | C_len_wait | C_set_zero | C_len_unlock | C_len_bcast
  | C_loop | C_data_lock | C_data_test | C_data_sleep | C_data_wait
  | C_fill | C_set_bw nat | C_signal nat | C_data_unlock nat
  | C_done

record channel =
  file_length :: int                \<comment> \<open>in the segment\<close>
  bytes_written :: nat              \<comment> \<open>in the segment\<close>
  shdata :: block                   \<comment> \<open>what follows the structure in the segment\<close>
  owner :: "place \<Rightarrow> side option"
  ppc :: proxy_pc
  p_len :: int                      \<comment> \<open>\<open>file_len\<close> of the proxy\<close>
  p_count :: nat                    \<comment> \<open>\<open>bytes_transferred\<close>\<close>
  p_header :: "int option"          \<comment> \<open>the length in the OK header, once sent\<close>
  p_body :: "char list"             \<comment> \<open>what was sent behind it\<close>
  cpc :: cache_pc
  c_count :: nat                    \<comment> \<open>\<open>bytes_written\<close> of the daemon\<close>

definition channel_start :: "block \<Rightarrow> channel" where
  "channel_start mem = \<lparr>file_length = 0, bytes_written = 0, shdata = mem, owner = (\<lambda>_. None),
     ppc = P_len_lock, p_len = 0, p_count = 0, p_header = None, p_body = [], cpc = C_zero, c_count = 0\<rparr>"

definition wake_proxy :: "channel \<Rightarrow> channel" where
  "wake_proxy s = s\<lparr>ppc := (case ppc s of P_len_wait \<Rightarrow> P_len_lock | P_data_wait \<Rightarrow> P_data_lock | pc \<Rightarrow> pc)\<rparr>"

definition wake_cache :: "channel \<Rightarrow> channel" where
  "wake_cache s = s\<lparr>cpc := (case cpc s of C_len_wait \<Rightarrow> C_len_lock | C_data_wait \<Rightarrow> C_data_lock | pc \<Rightarrow> pc)\<rparr>"

definition lock :: "place \<Rightarrow> side \<Rightarrow> channel \<Rightarrow> channel" where
  "lock m x s = s\<lparr>owner := (owner s)(m := Some x)\<rparr>"

definition unlock :: "place \<Rightarrow> channel \<Rightarrow> channel" where
  "unlock m s = s\<lparr>owner := (owner s)(m := None)\<rparr>"

text \<open>\<open>None\<close>: \<open>simplecache_get\<close> did not find the file.\<close>

definition announced :: "char list option \<Rightarrow> int" where
  "announced content = (case content of None \<Rightarrow> - 1 | Some f \<Rightarrow> int (length f))"

section \<open>Steps of the proxy\<close>

inductive chan_proxy_step :: "channel \<Rightarrow> channel \<Rightarrow> bool" where
  p_len_lock: "ppc s = P_len_lock \<Longrightarrow> owner s proxy_file_len_mutex = None \<Longrightarrow>
    chan_proxy_step s ((lock proxy_file_len_mutex Proxy s)\<lparr>ppc := P_len_test\<rparr>)"
| p_len_zero: "ppc s = P_len_test \<Longrightarrow> file_length s = 0 \<Longrightarrow> chan_proxy_step s (s\<lparr>ppc := P_len_sleep\<rparr>)"
| p_len_wait: "ppc s = P_len_sleep \<Longrightarrow> chan_proxy_step s ((unlock proxy_file_len_mutex s)\<lparr>ppc := P_len_wait\<rparr>)"
| p_len_read: "ppc s = P_len_test \<Longrightarrow> file_length s \<noteq> 0 \<Longrightarrow>
    chan_proxy_step s (s\<lparr>p_len := file_length s, ppc := P_len_unlock\<rparr>)"
| p_len_unlock: "ppc s = P_len_unlock \<Longrightarrow> chan_proxy_step s ((unlock proxy_file_len_mutex s)\<lparr>ppc := P_len_bcast\<rparr>)"
| p_missing: "ppc s = P_len_bcast \<Longrightarrow> p_len s < 0 \<Longrightarrow> chan_proxy_step s ((wake_cache s)\<lparr>ppc := P_missing\<rparr>)"
| p_header: "ppc s = P_len_bcast \<Longrightarrow> 0 \<le> p_len s \<Longrightarrow>
    chan_proxy_step s ((wake_cache s)\<lparr>p_header := Some (p_len s), ppc := P_loop\<rparr>)"
| p_enter: "ppc s = P_loop \<Longrightarrow> int (p_count s) < p_len s \<Longrightarrow> chan_proxy_step s (s\<lparr>ppc := P_data_lock\<rparr>)"
| p_finish: "ppc s = P_loop \<Longrightarrow> p_len s \<le> int (p_count s) \<Longrightarrow> chan_proxy_step s (s\<lparr>ppc := P_done\<rparr>)"
| p_data_lock: "ppc s = P_data_lock \<Longrightarrow> owner s proxy_data_mutex = None \<Longrightarrow>
    chan_proxy_step s ((lock proxy_data_mutex Proxy s)\<lparr>ppc := P_data_test\<rparr>)"
| p_data_zero: "ppc s = P_data_test \<Longrightarrow> bytes_written s = 0 \<Longrightarrow> chan_proxy_step s (s\<lparr>ppc := P_data_sleep\<rparr>)"
| p_data_wait: "ppc s = P_data_sleep \<Longrightarrow> chan_proxy_step s ((unlock proxy_data_mutex s)\<lparr>ppc := P_data_wait\<rparr>)"
| p_data_read: "ppc s = P_data_test \<Longrightarrow> bytes_written s \<noteq> 0 \<Longrightarrow>
    chan_proxy_step s (s\<lparr>ppc := P_send (bytes_written s)\<rparr>)"
| p_send: "ppc s = P_send k \<Longrightarrow> chan_proxy_step s (s\<lparr>p_body := p_body s @ take k (shdata s), ppc := P_clear k\<rparr>)"
| p_send_fails: "ppc s = P_send k \<Longrightarrow> chan_proxy_step s (s\<lparr>ppc := P_failed\<rparr>)"
| p_clear: "ppc s = P_clear k \<Longrightarrow> chan_proxy_step s (s\<lparr>bytes_written := 0, ppc := P_unlock k\<rparr>)"
| p_unlock: "ppc s = P_unlock k \<Longrightarrow> chan_proxy_step s ((unlock proxy_data_mutex s)\<lparr>ppc := P_bcast k\<rparr>)"
| p_bcast: "ppc s = P_bcast k \<Longrightarrow> chan_proxy_step s ((wake_cache s)\<lparr>p_count := p_count s + k, ppc := P_loop\<rparr>)"

section \<open>Steps of the daemon's worker\<close>

text \<open>\<open>room\<close> is the count given to \<open>pread\<close>; the answer may be shorter.\<close>

inductive chan_cache_step :: "char list option \<Rightarrow> nat \<Rightarrow> channel \<Rightarrow> channel \<Rightarrow> bool"
  for content :: "char list option" and room :: nat where
  c_zero: "cpc s = C_zero \<Longrightarrow> chan_cache_step content room s (s\<lparr>file_length := 0, cpc := C_len_lock\<rparr>)"
| c_len_lock: "cpc s = C_len_lock \<Longrightarrow> owner s cache_file_len_mutex = None \<Longrightarrow>
    chan_cache_step content room s ((lock cache_file_len_mutex Cache s)\<lparr>cpc := C_len_test\<rparr>)"
| c_len_busy: "cpc s = C_len_test \<Longrightarrow> file_length s \<noteq> 0 \<Longrightarrow> chan_cache_step content room s (s\<lparr>cpc := C_len_sleep\<rparr>)"
| c_len_wait: "cpc s = C_len_sleep \<Longrightarrow>
    chan_cache_step content room s ((unlock cache_file_len_mutex s)\<lparr>cpc := C_len_wait\<rparr>)"
| c_len_set: "cpc s = C_len_test \<Longrightarrow> file_length s = 0 \<Longrightarrow>
    chan_cache_step content room s (s\<lparr>file_length := announced content, cpc := C_set_zero\<rparr>)"
| c_set_zero: "cpc s = C_set_zero \<Longrightarrow> chan_cache_step content room s (s\<lparr>bytes_written := 0, cpc := C_len_unlock\<rparr>)"
| c_len_unlock: "cpc s = C_len_unlock \<Longrightarrow>
    chan_cache_step content room s ((unlock cache_file_len_mutex s)\<lparr>cpc := C_len_bcast\<rparr>)"
| c_len_bcast: "cpc s = C_len_bcast \<Longrightarrow>
    chan_cache_step content room s ((wake_proxy s)\<lparr>cpc := (if content = None then C_done else C_loop)\<rparr>)"
| c_enter: "cpc s = C_loop \<Longrightarrow> int (c_count s) < announced content \<Longrightarrow>
    chan_cache_step content room s (s\<lparr>cpc := C_data_lock\<rparr>)"
| c_finish: "cpc s = C_loop \<Longrightarrow> announced content \<le> int (c_count s) \<Longrightarrow> chan_cache_step content room s (s\<lparr>cpc := C_done\<rparr>)"
| c_data_lock: "cpc s = C_data_lock \<Longrightarrow> owner s cache_data_mutex = None \<Longrightarrow>
    chan_cache_step content room s ((lock cache_data_mutex Cache s)\<lparr>cpc := C_data_test\<rparr>)"
| c_data_busy: "cpc s = C_data_test \<Longrightarrow> bytes_written s \<noteq> 0 \<Longrightarrow>
    chan_cache_step content room s (s\<lparr>cpc := C_data_sleep\<rparr>)"
| c_data_wait: "cpc s = C_data_sleep \<Longrightarrow>
    chan_cache_step content room s ((unlock cache_data_mutex s)\<lparr>cpc := C_data_wait\<rparr>)"
| c_data_free: "cpc s = C_data_test \<Longrightarrow> bytes_written s = 0 \<Longrightarrow> chan_cache_step content room s (s\<lparr>cpc := C_fill\<rparr>)"
| c_fill: "cpc s = C_fill \<Longrightarrow> content = Some f \<Longrightarrow> 0 < m \<Longrightarrow> m \<le> room \<Longrightarrow> c_count s + m \<le> length f \<Longrightarrow>
    chan_cache_step content room s (s\<lparr>shdata := take m (drop (c_count s) f) @ drop m (shdata s), cpc := C_set_bw m\<rparr>)"
| c_set_bw: "cpc s = C_set_bw m \<Longrightarrow> chan_cache_step content room s (s\<lparr>bytes_written := m, cpc := C_signal m\<rparr>)"
| c_signal: "cpc s = C_signal m \<Longrightarrow> chan_cache_step content room s ((wake_proxy s)\<lparr>cpc := C_data_unlock m\<rparr>)"
| c_data_unlock: "cpc s = C_data_unlock m \<Longrightarrow>
    chan_cache_step content room s ((unlock cache_data_mutex s)\<lparr>c_count := c_count s + m, cpc := C_loop\<rparr>)"

section \<open>Runs\<close>

definition internal_step :: "char list option \<Rightarrow> nat \<Rightarrow> channel \<Rightarrow> channel \<Rightarrow> bool" where
  "internal_step content room s s' \<longleftrightarrow> chan_proxy_step s s' \<or> chan_cache_step content room s s'"

text \<open>Waiting threads may also wake up spuriously.\<close>

inductive channel_step :: "char list option \<Rightarrow> nat \<Rightarrow> channel \<Rightarrow> channel \<Rightarrow> bool"
  for content :: "char list option" and room :: nat where
  internal: "internal_step content room s s' \<Longrightarrow> channel_step content room s s'"
| spurious_proxy: "channel_step content room s (wake_proxy s)"
| spurious_cache: "channel_step content room s (wake_cache s)"

definition channel_reachable :: "char list option \<Rightarrow> nat \<Rightarrow> channel \<Rightarrow> bool" where
  "channel_reachable content room s \<longleftrightarrow> (\<exists>mem. (channel_step content room)\<^sup>*\<^sup>* (channel_start mem) s)"

section \<open>The count given to pread\<close>

text \<open>\<open>(segment_size - sizeof(shm_data)) - 1\<close> in \<open>size_t\<close>; the structure has 184 bytes.\<close>

definition SHM_DATA_SIZE :: nat where "SHM_DATA_SIZE = 184"

definition chunk_room :: "int \<Rightarrow> nat" where
  "chunk_room segment_size = unat (size_of_int segment_size - size_of_nat SHM_DATA_SIZE - 1)"

section \<open>Invariant of a transfer\<close>

definition len_phase :: "proxy_pc \<Rightarrow> bool" where
  "len_phase pc \<longleftrightarrow> (case pc of P_len_lock \<Rightarrow> True | P_len_test \<Rightarrow> True | P_len_sleep \<Rightarrow> True | P_len_wait \<Rightarrow> True
     | _ \<Rightarrow> False)"

definition early :: "cache_pc \<Rightarrow> bool" where
  "early pc \<longleftrightarrow> (case pc of C_zero \<Rightarrow> True | C_len_lock \<Rightarrow> True | C_len_test \<Rightarrow> True | C_len_sleep \<Rightarrow> True
     | C_len_wait \<Rightarrow> True | _ \<Rightarrow> False)"

text \<open>Before the first chunk.\<close>

definition before_data :: "cache_pc \<Rightarrow> bool" where
  "before_data pc \<longleftrightarrow> early pc \<or> pc \<in> {C_set_zero, C_len_unlock, C_len_bcast}"

text \<open>Chunks announced but not counted yet, chunks taken but not counted yet, bytes sent of the present one.\<close>

definition c_flight :: "cache_pc \<Rightarrow> nat" where
  "c_flight pc = (case pc of C_signal m \<Rightarrow> m | C_data_unlock m \<Rightarrow> m | _ \<Rightarrow> 0)"

definition p_flight :: "proxy_pc \<Rightarrow> nat" where
  "p_flight pc = (case pc of P_unlock k \<Rightarrow> k | P_bcast k \<Rightarrow> k | _ \<Rightarrow> 0)"

definition p_sending :: "proxy_pc \<Rightarrow> nat" where
  "p_sending pc = (case pc of P_clear k \<Rightarrow> k | _ \<Rightarrow> 0)"

text \<open>The value of \<open>bytes_written\<close> the proxy has read and not yet cleared; it is not 0.\<close>

definition p_reading :: "proxy_pc \<Rightarrow> nat" where
  "p_reading pc = (case pc of P_send k \<Rightarrow> k | P_clear k \<Rightarrow> k | _ \<Rightarrow> 0)"

definition p_reading_ok :: "proxy_pc \<Rightarrow> bool" where
  "p_reading_ok pc \<longleftrightarrow> pc \<noteq> P_send 0 \<and> pc \<noteq> P_clear 0"

definition header_sent :: "proxy_pc \<Rightarrow> bool" where
  "header_sent pc \<longleftrightarrow> \<not> len_phase pc \<and> pc \<notin> {P_len_unlock, P_len_bcast, P_missing}"

definition published :: "channel \<Rightarrow> nat" where
  "published s = c_count s + c_flight (cpc s)"

definition consumed :: "channel \<Rightarrow> nat" where
  "consumed s = p_count s + p_flight (ppc s)"

definition chan_inv :: "char list \<Rightarrow> channel \<Rightarrow> bool" where
  "chan_inv f s \<longleftrightarrow>
     (early (cpc s) \<longrightarrow> file_length s = 0 \<and> len_phase (ppc s)) \<and>
     (\<not> early (cpc s) \<longrightarrow> file_length s = int (length f)) \<and>
     (\<not> len_phase (ppc s) \<longrightarrow> p_len s = int (length f) \<and> f \<noteq> []) \<and>
     (len_phase (ppc s) \<longrightarrow> p_count s = 0 \<and> p_header s = None) \<and>
     (header_sent (ppc s) \<longrightarrow> p_header s = Some (int (length f))) \<and>
     (before_data (cpc s) \<longrightarrow> c_count s = 0 \<and> bytes_written s = 0) \<and>
     published s = consumed s + bytes_written s \<and> published s \<le> length f \<and>
     (bytes_written s \<noteq> 0 \<longrightarrow> take (bytes_written s) (shdata s) = take (bytes_written s) (drop (consumed s) f)) \<and>
     (cpc s = C_fill \<longrightarrow> bytes_written s = 0) \<and>
     (\<forall>m. cpc s = C_set_bw m \<longrightarrow> bytes_written s = 0 \<and> c_count s + m \<le> length f \<and>
        take m (shdata s) = take m (drop (c_count s) f)) \<and>
     (p_reading (ppc s) = 0 \<or> p_reading (ppc s) = bytes_written s) \<and> p_reading_ok (ppc s) \<and>
     p_body s = take (consumed s + p_sending (ppc s)) f \<and>
     (ppc s = P_done \<longrightarrow> p_count s = length f) \<and> ppc s \<noteq> P_missing"

lemma wake_proxy_facts [simp]:
  "len_phase (ppc (wake_proxy s)) = len_phase (ppc s)" "header_sent (ppc (wake_proxy s)) = header_sent (ppc s)"
  "p_flight (ppc (wake_proxy s)) = p_flight (ppc s)"
  "p_sending (ppc (wake_proxy s)) = p_sending (ppc s)" "p_reading (ppc (wake_proxy s)) = p_reading (ppc s)"
  "p_reading_ok (ppc (wake_proxy s)) = p_reading_ok (ppc s)" "ppc (wake_proxy s) = P_done \<longleftrightarrow> ppc s = P_done"
  "ppc (wake_proxy s) = P_missing \<longleftrightarrow> ppc s = P_missing"
  "cpc (wake_proxy s) = cpc s" "file_length (wake_proxy s) = file_length s" "p_len (wake_proxy s) = p_len s"
  "p_count (wake_proxy s) = p_count s" "p_header (wake_proxy s) = p_header s" "p_body (wake_proxy s) = p_body s"
  "c_count (wake_proxy s) = c_count s" "bytes_written (wake_proxy s) = bytes_written s" "shdata (wake_proxy s) = shdata s"
  by (auto simp: wake_proxy_def header_sent_def len_phase_def p_flight_def p_reading_def p_reading_ok_def p_sending_def split: proxy_pc.splits)

lemma wake_cache_facts [simp]:
  "early (cpc (wake_cache s)) = early (cpc s)" "c_flight (cpc (wake_cache s)) = c_flight (cpc s)"
  "before_data (cpc (wake_cache s)) = before_data (cpc s)"
  "cpc (wake_cache s) = C_fill \<longleftrightarrow> cpc s = C_fill" "cpc (wake_cache s) = C_set_bw m \<longleftrightarrow> cpc s = C_set_bw m"
  "ppc (wake_cache s) = ppc s" "file_length (wake_cache s) = file_length s" "p_len (wake_cache s) = p_len s"
  "p_count (wake_cache s) = p_count s" "p_header (wake_cache s) = p_header s" "p_body (wake_cache s) = p_body s"
  "c_count (wake_cache s) = c_count s" "bytes_written (wake_cache s) = bytes_written s" "shdata (wake_cache s) = shdata s"
  by (auto simp: wake_cache_def early_def c_flight_def before_data_def split: cache_pc.splits)

lemma lock_facts [simp]:
  "ppc (lock m x s) = ppc s" "cpc (lock m x s) = cpc s" "file_length (lock m x s) = file_length s"
  "p_len (lock m x s) = p_len s" "p_count (lock m x s) = p_count s" "p_header (lock m x s) = p_header s"
  "p_body (lock m x s) = p_body s" "c_count (lock m x s) = c_count s" "bytes_written (lock m x s) = bytes_written s"
  "shdata (lock m x s) = shdata s"
  by (simp_all add: lock_def)

lemma unlock_facts [simp]:
  "ppc (unlock m s) = ppc s" "cpc (unlock m s) = cpc s" "file_length (unlock m s) = file_length s"
  "p_len (unlock m s) = p_len s" "p_count (unlock m s) = p_count s" "p_header (unlock m s) = p_header s"
  "p_body (unlock m s) = p_body s" "c_count (unlock m s) = c_count s" "bytes_written (unlock m s) = bytes_written s"
  "shdata (unlock m s) = shdata s"
  by (simp_all add: unlock_def)

lemma pc_simps [simp]:
  "len_phase P_len_lock" "len_phase P_len_test" "len_phase P_len_sleep" "len_phase P_len_wait"
  "\<not> len_phase P_len_unlock" "\<not> len_phase P_len_bcast" "\<not> len_phase P_missing" "\<not> len_phase P_loop"
  "\<not> len_phase P_data_lock" "\<not> len_phase P_data_test" "\<not> len_phase P_data_sleep" "\<not> len_phase P_data_wait"
  "\<not> len_phase (P_send k)" "\<not> len_phase (P_clear k)" "\<not> len_phase (P_unlock k)" "\<not> len_phase (P_bcast k)"
  "\<not> len_phase P_failed" "\<not> len_phase P_done"
  by (simp_all add: len_phase_def)

lemma flight_simps [simp]:
  "p_flight P_len_lock = 0" "p_flight P_len_test = 0" "p_flight P_len_sleep = 0" "p_flight P_len_wait = 0"
  "p_flight P_len_unlock = 0" "p_flight P_len_bcast = 0" "p_flight P_missing = 0" "p_flight P_loop = 0"
  "p_flight P_data_lock = 0" "p_flight P_data_test = 0" "p_flight P_data_sleep = 0" "p_flight P_data_wait = 0"
  "p_flight (P_send k) = 0" "p_flight (P_clear k) = 0" "p_flight (P_unlock k) = k" "p_flight (P_bcast k) = k"
  "p_flight P_failed = 0" "p_flight P_done = 0"
  by (simp_all add: p_flight_def)

lemma sending_simps [simp]:
  "p_sending P_len_lock = 0" "p_sending P_len_test = 0" "p_sending P_len_sleep = 0" "p_sending P_len_wait = 0"
  "p_sending P_len_unlock = 0" "p_sending P_len_bcast = 0" "p_sending P_missing = 0" "p_sending P_loop = 0"
  "p_sending P_data_lock = 0" "p_sending P_data_test = 0" "p_sending P_data_sleep = 0" "p_sending P_data_wait = 0"
  "p_sending (P_send k) = 0" "p_sending (P_clear k) = k" "p_sending (P_unlock k) = 0" "p_sending (P_bcast k) = 0"
  "p_sending P_failed = 0" "p_sending P_done = 0"
  by (simp_all add: p_sending_def)

lemma reading_simps [simp]:
  "p_reading P_len_lock = 0" "p_reading P_len_test = 0" "p_reading P_len_sleep = 0" "p_reading P_len_wait = 0"
  "p_reading P_len_unlock = 0" "p_reading P_len_bcast = 0" "p_reading P_missing = 0" "p_reading P_loop = 0"
  "p_reading P_data_lock = 0" "p_reading P_data_test = 0" "p_reading P_data_sleep = 0" "p_reading P_data_wait = 0"
  "p_reading (P_send k) = k" "p_reading (P_clear k) = k" "p_reading (P_unlock k) = 0" "p_reading (P_bcast k) = 0"
  "p_reading P_failed = 0" "p_reading P_done = 0"
  by (simp_all add: p_reading_def)

lemma reading_ok_simps [simp]:
  "p_reading_ok P_len_lock" "p_reading_ok P_len_test" "p_reading_ok P_len_sleep" "p_reading_ok P_len_wait"
  "p_reading_ok P_len_unlock" "p_reading_ok P_len_bcast" "p_reading_ok P_missing" "p_reading_ok P_loop"
  "p_reading_ok P_data_lock" "p_reading_ok P_data_test" "p_reading_ok P_data_sleep" "p_reading_ok P_data_wait"
  "p_reading_ok (P_send k) \<longleftrightarrow> 0 < k" "p_reading_ok (P_clear k) \<longleftrightarrow> 0 < k" "p_reading_ok (P_unlock k)"
  "p_reading_ok (P_bcast k)" "p_reading_ok P_failed" "p_reading_ok P_done"
  by (auto simp: p_reading_ok_def)

lemma len_phase_facts [simp]:
  "len_phase pc \<Longrightarrow> p_reading pc = 0" "len_phase pc \<Longrightarrow> \<not> header_sent pc" "len_phase pc \<Longrightarrow> pc \<noteq> P_done"
  "len_phase pc \<Longrightarrow> pc \<noteq> P_missing" "len_phase pc \<Longrightarrow> p_flight pc = 0" "len_phase pc \<Longrightarrow> p_sending pc = 0"
  by (auto simp: p_reading_def header_sent_def p_flight_def p_sending_def split: proxy_pc.splits)

lemma cache_simps [simp]:
  "early C_zero" "early C_len_lock" "early C_len_test" "early C_len_sleep" "early C_len_wait"
  "\<not> early C_set_zero" "\<not> early C_len_unlock" "\<not> early C_len_bcast" "\<not> early C_loop" "\<not> early C_data_lock"
  "\<not> early C_data_test" "\<not> early C_data_sleep" "\<not> early C_data_wait" "\<not> early C_fill" "\<not> early (C_set_bw m)"
  "\<not> early (C_signal m)" "\<not> early (C_data_unlock m)" "\<not> early C_done"
  "c_flight C_zero = 0" "c_flight C_len_lock = 0" "c_flight C_len_test = 0" "c_flight C_len_sleep = 0"
  "c_flight C_len_wait = 0" "c_flight C_set_zero = 0" "c_flight C_len_unlock = 0" "c_flight C_len_bcast = 0"
  "c_flight C_loop = 0" "c_flight C_data_lock = 0" "c_flight C_data_test = 0" "c_flight C_data_sleep = 0"
  "c_flight C_data_wait = 0" "c_flight C_fill = 0" "c_flight (C_set_bw m) = 0" "c_flight (C_signal m) = m"
  "c_flight (C_data_unlock m) = m" "c_flight C_done = 0"
  by (simp_all add: early_def c_flight_def)

lemma chan_inv_start: "chan_inv f (channel_start mem)"
  by (simp add: chan_inv_def channel_start_def published_def consumed_def before_data_def header_sent_def)

lemmas chan_defs = chan_inv_def published_def consumed_def

lemma chan_inv_proxy:
  assumes "chan_proxy_step s s'" and "chan_inv f s"
  shows "chan_inv f s'"
  using assms(1)
proof cases
  case (p_send k)
  have "take n f @ take k (drop n f) = take (n + k) f" for n by (simp add: take_add)
  with p_send assms(2) show ?thesis by (auto simp: chan_defs header_sent_def)
qed (use assms(2) in \<open>auto simp: chan_defs header_sent_def\<close>)

lemma no_read: "chan_inv f s \<Longrightarrow> bytes_written s = 0 \<Longrightarrow> p_reading (ppc s) = 0"
  by (auto simp: chan_inv_def)

lemma before_data_zero: "chan_inv f s \<Longrightarrow> before_data (cpc s) \<Longrightarrow> bytes_written s = 0"
  unfolding chan_inv_def by blast

lemma before_data_idle: "chan_inv f s \<Longrightarrow> before_data (cpc s) \<Longrightarrow> p_reading (ppc s) = 0"
  using no_read before_data_zero by blast

lemma chan_inv_cache:
  assumes "chan_cache_step (Some f) room s s'" and inv: "chan_inv f s"
  shows "chan_inv f s'"
  using assms(1)
proof cases
  case (c_fill f' m)
  have 1: "c_count s + m \<le> length f" and bw: "bytes_written s = 0" using c_fill inv by (auto simp: chan_inv_def)
  have 2: "take m (take m (drop (c_count s) f) @ drop m (shdata s)) = take m (drop (c_count s) f)"
    using 1 by simp
  from c_fill inv 1 2 bw show ?thesis by (simp add: chan_defs before_data_def)
next
  case (c_set_bw m)
  then have "p_reading (ppc s) = 0" by (intro no_read [OF inv]) (use inv in \<open>simp add: chan_inv_def\<close>)
  with c_set_bw inv show ?thesis by (simp add: chan_defs before_data_def)
next
  case c_set_zero
  then have "p_reading (ppc s) = 0" by (intro before_data_idle [OF inv]) (simp add: before_data_def)
  with c_set_zero inv show ?thesis by (simp add: chan_defs before_data_def)
next
  case c_len_unlock
  then have "p_reading (ppc s) = 0" by (intro before_data_idle [OF inv]) (simp add: before_data_def)
  with c_len_unlock inv show ?thesis by (simp add: chan_defs before_data_def)
next
  case c_len_bcast
  then have "p_reading (ppc s) = 0" by (intro before_data_idle [OF inv]) (simp add: before_data_def)
  with c_len_bcast inv show ?thesis by (simp add: chan_defs before_data_def)
qed (use inv in \<open>simp_all add: chan_defs before_data_def announced_def\<close>)

lemma chan_inv_reachable: "channel_reachable (Some f) room s \<Longrightarrow> chan_inv f s"
proof -
  have step: "chan_inv f s \<Longrightarrow> channel_step (Some f) room s s' \<Longrightarrow> chan_inv f s'" for s s'
  proof (erule channel_step.cases)
    fix t t'
    assume "chan_inv f s" "s = t" "s' = t'" "internal_step (Some f) room t t'"
    then show "chan_inv f s'" unfolding internal_step_def using chan_inv_proxy chan_inv_cache by blast
  qed (simp_all add: chan_defs)
  assume "channel_reachable (Some f) room s"
  then obtain mem where "(channel_step (Some f) room)\<^sup>*\<^sup>* (channel_start mem) s" by (auto simp: channel_reachable_def)
  then show ?thesis
    by (induction rule: rtranclp_induct) (auto intro: chan_inv_start step)
qed

section \<open>Bad interleavings\<close>

lemma proxy_moves: "chan_proxy_step s s' \<Longrightarrow> (channel_step content room)\<^sup>*\<^sup>* s' t \<Longrightarrow> (channel_step content room)\<^sup>*\<^sup>* s t"
  by (meson converse_rtranclp_into_rtranclp channel_step.internal internal_step_def)

lemma cache_moves: "chan_cache_step content room s s' \<Longrightarrow> (channel_step content room)\<^sup>*\<^sup>* s' t \<Longrightarrow> (channel_step content room)\<^sup>*\<^sup>* s t"
  by (meson converse_rtranclp_into_rtranclp channel_step.internal internal_step_def)

text \<open>The proxy waits and the daemon has finished: nobody is left to wake it.\<close>

definition stuck :: "channel \<Rightarrow> bool" where
  "stuck s \<longleftrightarrow> ppc s \<in> {P_len_wait, P_data_wait} \<and> cpc s = C_done"

lemma stuck_no_step: "stuck s \<Longrightarrow> \<not> internal_step content room s s'"
  by (auto simp: stuck_def internal_step_def elim!: chan_proxy_step.cases chan_cache_step.cases)

text \<open>
  The daemon announces the length from the start of its critical section on, while the
  proxy is between its test of the length and the wait. Nothing prevents this: the mutex
  the proxy holds is another one.
\<close>

lemma announce_while_testing:
  assumes "cpc s = C_zero" and "owner s First_mutex = None" and "file_length s = 0"
    and "ppc s = P_len_sleep"
  shows "\<exists>s'. (channel_step None room)\<^sup>*\<^sup>* s s' \<and> ppc s' = P_len_sleep \<and> cpc s' = C_done"
proof -
  define s1 where "s1 = s\<lparr>file_length := 0, cpc := C_len_lock\<rparr>"
  define s2 where "s2 = (lock cache_file_len_mutex Cache s1)\<lparr>cpc := C_len_test\<rparr>"
  define s3 where "s3 = s2\<lparr>file_length := announced None, cpc := C_set_zero\<rparr>"
  define s4 where "s4 = s3\<lparr>bytes_written := 0, cpc := C_len_unlock\<rparr>"
  define s5 where "s5 = (unlock cache_file_len_mutex s4)\<lparr>cpc := C_len_bcast\<rparr>"
  define s6 where "s6 = (wake_proxy s5)\<lparr>cpc := (if None = (None :: char list option) then C_done else C_loop)\<rparr>"
  have 1: "chan_cache_step None room s s1" unfolding s1_def using assms by (intro c_zero)
  have 2: "chan_cache_step None room s1 s2" unfolding s2_def
    by (rule c_len_lock) (simp_all add: s1_def assms mutex_places)
  have 3: "chan_cache_step None room s2 s3" unfolding s3_def by (rule c_len_set) (simp_all add: s2_def s1_def)
  have 4: "chan_cache_step None room s3 s4" unfolding s4_def by (rule c_set_zero) (simp add: s3_def)
  have 5: "chan_cache_step None room s4 s5" unfolding s5_def by (rule c_len_unlock) (simp add: s4_def)
  have 6: "chan_cache_step None room s5 s6" unfolding s6_def by (rule c_len_bcast) (simp add: s5_def)
  have "(channel_step None room)\<^sup>*\<^sup>* s s6"
    by (rule cache_moves [OF 1 cache_moves [OF 2 cache_moves [OF 3 cache_moves [OF 4 cache_moves [OF 5
        cache_moves [OF 6 rtranclp.rtrancl_refl]]]]]])
  moreover have "ppc s5 = P_len_sleep" by (simp add: s5_def s4_def s3_def s2_def s1_def assms)
  then have "ppc s6 = P_len_sleep" by (simp add: s6_def wake_proxy_def)
  moreover have "cpc s6 = C_done" by (simp add: s6_def)
  ultimately show ?thesis by blast
qed

lemma lost_not_found:
  "\<exists>s. channel_reachable None room s \<and> stuck s \<and> ppc s = P_len_wait"
proof -
  define s0 where "s0 = channel_start []"
  define s1 where "s1 = (lock proxy_file_len_mutex Proxy s0)\<lparr>ppc := P_len_test\<rparr>"
  define s2 where "s2 = s1\<lparr>ppc := P_len_sleep\<rparr>"
  have 1: "chan_proxy_step s0 s1" unfolding s1_def by (rule p_len_lock) (simp_all add: s0_def channel_start_def)
  have 2: "chan_proxy_step s1 s2" unfolding s2_def by (rule p_len_zero) (simp_all add: s1_def s0_def channel_start_def)
  have pre: "cpc s2 = C_zero" "owner s2 First_mutex = None" "file_length s2 = 0" "ppc s2 = P_len_sleep"
    by (simp_all add: s2_def s1_def s0_def channel_start_def lock_def mutex_places)
  obtain s3 where s3: "(channel_step None room)\<^sup>*\<^sup>* s2 s3" "ppc s3 = P_len_sleep" "cpc s3 = C_done"
    using announce_while_testing [OF pre] by blast
  define s4 where "s4 = (unlock proxy_file_len_mutex s3)\<lparr>ppc := P_len_wait\<rparr>"
  have 4: "chan_proxy_step s3 s4" unfolding s4_def using s3(2) by (rule p_len_wait)
  have "(channel_step None room)\<^sup>*\<^sup>* s0 s4"
    using proxy_moves [OF 1 proxy_moves [OF 2 s3(1)]] proxy_moves [OF 4 rtranclp.rtrancl_refl] by (rule rtranclp_trans)
  then have "channel_reachable None room s4" unfolding channel_reachable_def s0_def by blast
  moreover have "ppc s4 = P_len_wait" "cpc s4 = C_done" using s3(3) by (simp_all add: s4_def)
  ultimately show ?thesis by (auto simp: stuck_def)
qed

lemma handshake:
  assumes "f \<noteq> []"
  shows "\<exists>s. channel_reachable (Some f) room s \<and> ppc s = P_data_sleep \<and> cpc s = C_loop \<and>
    owner s Second_mutex = None \<and> bytes_written s = 0 \<and> c_count s = 0"
proof -
  let ?R = "(channel_step (Some f) room)\<^sup>*\<^sup>*" and ?C = "chan_cache_step (Some f) room"
  define s0 where "s0 = channel_start []"
  define s1 where "s1 = s0\<lparr>file_length := 0, cpc := C_len_lock\<rparr>"
  define s2 where "s2 = (lock cache_file_len_mutex Cache s1)\<lparr>cpc := C_len_test\<rparr>"
  define s3 where "s3 = s2\<lparr>file_length := announced (Some f), cpc := C_set_zero\<rparr>"
  define s4 where "s4 = s3\<lparr>bytes_written := 0, cpc := C_len_unlock\<rparr>"
  define s5 where "s5 = (unlock cache_file_len_mutex s4)\<lparr>cpc := C_len_bcast\<rparr>"
  define s6 where "s6 = (wake_proxy s5)\<lparr>cpc := (if Some f = None then C_done else C_loop)\<rparr>"
  define s7 where "s7 = (lock proxy_file_len_mutex Proxy s6)\<lparr>ppc := P_len_test\<rparr>"
  define s8 where "s8 = s7\<lparr>p_len := file_length s7, ppc := P_len_unlock\<rparr>"
  define s9 where "s9 = (unlock proxy_file_len_mutex s8)\<lparr>ppc := P_len_bcast\<rparr>"
  define s10 where "s10 = (wake_cache s9)\<lparr>p_header := Some (p_len s9), ppc := P_loop\<rparr>"
  define s11 where "s11 = s10\<lparr>ppc := P_data_lock\<rparr>"
  define s12 where "s12 = (lock proxy_data_mutex Proxy s11)\<lparr>ppc := P_data_test\<rparr>"
  define s13 where "s13 = s12\<lparr>ppc := P_data_sleep\<rparr>"
  have 1: "?C s0 s1" unfolding s1_def by (rule c_zero) (simp add: s0_def channel_start_def)
  have 2: "?C s1 s2" unfolding s2_def by (rule c_len_lock) (simp_all add: s1_def s0_def channel_start_def)
  have 3: "?C s2 s3" unfolding s3_def by (rule c_len_set) (simp_all add: s2_def s1_def)
  have 4: "?C s3 s4" unfolding s4_def by (rule c_set_zero) (simp add: s3_def)
  have 5: "?C s4 s5" unfolding s5_def by (rule c_len_unlock) (simp add: s4_def)
  have 6: "?C s5 s6" unfolding s6_def by (rule c_len_bcast) (simp add: s5_def)
  have s6: "ppc s6 = P_len_lock" "owner s6 m = None" "file_length s6 = int (length f)" "cpc s6 = C_loop"
    "bytes_written s6 = 0" "c_count s6 = 0" "p_count s6 = 0" for m
    by (simp_all add: s6_def s5_def s4_def s3_def s2_def s1_def s0_def channel_start_def wake_proxy_def lock_def
        unlock_def announced_def)
  have 7: "chan_proxy_step s6 s7" unfolding s7_def by (rule p_len_lock) (simp_all add: s6)
  have 8: "chan_proxy_step s7 s8" unfolding s8_def using assms by (intro p_len_read) (simp_all add: s7_def s6)
  have 9: "chan_proxy_step s8 s9" unfolding s9_def by (rule p_len_unlock) (simp add: s8_def)
  have 10: "chan_proxy_step s9 s10" unfolding s10_def
    by (rule p_header) (simp_all add: s9_def s8_def s7_def s6)
  have 11: "chan_proxy_step s10 s11" unfolding s11_def using assms
    by (intro p_enter) (simp_all add: s10_def s9_def s8_def s7_def s6)
  have 12: "chan_proxy_step s11 s12" unfolding s12_def
    by (rule p_data_lock) (simp_all add: s11_def s10_def s9_def s8_def s7_def wake_cache_def unlock_def lock_def s6)
  have 13: "chan_proxy_step s12 s13" unfolding s13_def
    by (rule p_data_zero) (simp_all add: s12_def s11_def s10_def s9_def s8_def s7_def s6)
  have "?R s0 s13"
    by (rule cache_moves [OF 1 cache_moves [OF 2 cache_moves [OF 3 cache_moves [OF 4 cache_moves [OF 5 cache_moves [OF 6
      proxy_moves [OF 7 proxy_moves [OF 8 proxy_moves [OF 9 proxy_moves [OF 10 proxy_moves [OF 11 proxy_moves [OF 12
      proxy_moves [OF 13 rtranclp.rtrancl_refl]]]]]]]]]]]]])
  then have "channel_reachable (Some f) room s13" unfolding channel_reachable_def s0_def by blast
  moreover have "ppc s13 = P_data_sleep" "cpc s13 = C_loop" "owner s13 Second_mutex = None" "bytes_written s13 = 0" "c_count s13 = 0"
    by (simp_all add: s13_def s12_def s11_def s10_def s9_def s8_def s7_def wake_cache_def unlock_def lock_def s6 mutex_places)
  ultimately show ?thesis by blast
qed

lemma lost_data:
  assumes "f \<noteq> []" and "length f \<le> room"
  shows "\<exists>s. channel_reachable (Some f) room s \<and> stuck s \<and> ppc s = P_data_wait \<and> p_body s = []"
proof -
  let ?C = "chan_cache_step (Some f) room"
  obtain s0 where s0: "channel_reachable (Some f) room s0" "ppc s0 = P_data_sleep" "cpc s0 = C_loop"
    "owner s0 Second_mutex = None" "bytes_written s0 = 0" "c_count s0 = 0"
    using handshake [OF assms(1)] by blast
  define s1 where "s1 = s0\<lparr>cpc := C_data_lock\<rparr>"
  define s2 where "s2 = (lock cache_data_mutex Cache s1)\<lparr>cpc := C_data_test\<rparr>"
  define s3 where "s3 = s2\<lparr>cpc := C_fill\<rparr>"
  define s4 where "s4 = s3\<lparr>shdata := take (length f) (drop (c_count s3) f) @ drop (length f) (shdata s3),
      cpc := C_set_bw (length f)\<rparr>"
  define s5 where "s5 = s4\<lparr>bytes_written := length f, cpc := C_signal (length f)\<rparr>"
  define s6 where "s6 = (wake_proxy s5)\<lparr>cpc := C_data_unlock (length f)\<rparr>"
  define s7 where "s7 = (unlock cache_data_mutex s6)\<lparr>c_count := c_count s6 + length f, cpc := C_loop\<rparr>"
  define s8 where "s8 = s7\<lparr>cpc := C_done\<rparr>"
  define s9 where "s9 = (unlock proxy_data_mutex s8)\<lparr>ppc := P_data_wait\<rparr>"
  have 1: "?C s0 s1" unfolding s1_def using assms(1) s0 by (intro c_enter) (simp_all add: announced_def)
  have 2: "?C s1 s2" unfolding s2_def using s0 by (intro c_data_lock) (simp_all add: s1_def mutex_places)
  have 3: "?C s2 s3" unfolding s3_def using s0 by (intro c_data_free) (simp_all add: s2_def s1_def)
  have 4: "?C s3 s4" unfolding s4_def using assms s0 by (intro c_fill) (simp_all add: s3_def s2_def s1_def)
  have 5: "?C s4 s5" unfolding s5_def by (rule c_set_bw) (simp add: s4_def)
  have 6: "?C s5 s6" unfolding s6_def by (rule c_signal) (simp add: s5_def)
  have 7: "?C s6 s7" unfolding s7_def by (rule c_data_unlock) (simp add: s6_def)
  have 8: "?C s7 s8" unfolding s8_def using s0
    by (intro c_finish) (simp_all add: s7_def s6_def s5_def s4_def s3_def s2_def s1_def announced_def)
  have p: "ppc s5 = P_data_sleep" by (simp add: s5_def s4_def s3_def s2_def s1_def s0)
  have p8: "ppc s8 = P_data_sleep" using p by (simp add: s8_def s7_def s6_def wake_proxy_def)
  have 9: "chan_proxy_step s8 s9" unfolding s9_def using p8 by (rule p_data_wait)
  have "(channel_step (Some f) room)\<^sup>*\<^sup>* s0 s9"
    by (rule cache_moves [OF 1 cache_moves [OF 2 cache_moves [OF 3 cache_moves [OF 4 cache_moves [OF 5 cache_moves [OF 6
      cache_moves [OF 7 cache_moves [OF 8 proxy_moves [OF 9 rtranclp.rtrancl_refl]]]]]]]]])
  then have r: "channel_reachable (Some f) room s9"
    using s0(1) unfolding channel_reachable_def by (meson rtranclp_trans)
  have "ppc s9 = P_data_wait" "cpc s9 = C_done" "p_count s9 = p_count s0" "p_body s9 = p_body s0"
    by (simp_all add: s9_def s8_def s7_def s6_def s5_def s4_def s3_def s2_def s1_def)
  moreover have "p_body s0 = []"
    using chan_inv_reachable [OF s0(1)] s0 by (simp add: chan_defs)
  ultimately show ?thesis using r by (auto simp: stuck_def)
qed

section \<open>Properties\<close>


text \<open>
  C34: Both programs take the wrong mutex of the other's view, so a wake-up can fall between
  the proxy's test and its wait. The transfer then stops for good: for a file that is not
  found without any answer, for a file that fits in one chunk after the header alone.
\<close>

theorem shm_lost_wakeup:
  "(\<exists>s. channel_reachable None room s \<and> ppc s = P_len_wait \<and> (\<nexists>s'. internal_step None room s s')) \<and>
   (f \<noteq> [] \<longrightarrow> length f \<le> room \<longrightarrow> (\<exists>s. channel_reachable (Some f) room s \<and> ppc s = P_data_wait \<and> p_body s = [] \<and>
     (\<nexists>s'. internal_step (Some f) room s s')))"
  using lost_not_found [of room] lost_data [of f room] stuck_no_step by blast

theorem shm_lost_wakeup_witness:
  "\<exists>s. channel_reachable (Some ''hello'') 100 s \<and> ppc s = P_data_wait \<and> p_body s = []"
  using shm_lost_wakeup [of 100 "''hello''"] by auto

text \<open>
  An empty file is announced with length 0, which is the value the proxy waits to
  change: it never leaves its first loop, sends no header, and keeps its segment.
\<close>

lemma shm_empty_file_hangs:
  assumes "channel_reachable (Some []) room s"
  shows "ppc s \<in> {P_len_lock, P_len_test, P_len_sleep, P_len_wait} \<and> p_header s = None \<and> p_body s = []"
proof -
  have inv: "chan_inv [] s" using assms by (rule chan_inv_reachable)
  then have l: "len_phase (ppc s)" and "p_body s = []" by (simp_all add: chan_inv_def)
  moreover have "p_header s = None" using inv l by (simp add: chan_inv_def)
  moreover have "ppc s \<in> {P_len_lock, P_len_test, P_len_sleep, P_len_wait}"
    using l by (cases "ppc s") simp_all
  ultimately show ?thesis by blast
qed


text \<open>
  For a segment larger than the structure the count given to \<open>pread\<close> fits in what is
  left of it; for one of at most the structure's size the subtraction wraps around and the
  count exceeds the segment.
\<close>

lemma shm_chunk_room:
  assumes "0 \<le> n" and "n < 2 ^ 31"
  shows "if 184 < n then 184 + chunk_room n < nat n else nat n < chunk_room n"
proof (cases "184 < n")
  case True
  then have "size_of_int n - size_of_nat SHM_DATA_SIZE - 1 = size_of_nat (nat n - 185)"
    using assms by (simp add: size_of_int_def size_of_nat_def SHM_DATA_SIZE_def of_nat_diff)
  moreover have "unat (size_of_nat (nat n - 185)) = nat n - 185" using assms by (intro unat_size_of_nat) auto
  ultimately show ?thesis using True by (simp add: chunk_room_def)
next
  case False
  have "size_of_int n - size_of_nat SHM_DATA_SIZE - 1 = size_of_nat (2 ^ 64 + nat n - 185)"
    using assms by (simp add: size_of_int_def size_of_nat_def SHM_DATA_SIZE_def of_nat_diff)
  moreover have "unat (size_of_nat (2 ^ 64 + nat n - 185)) = 2 ^ 64 + nat n - 185"
    using False by (intro unat_size_of_nat) auto
  ultimately show ?thesis using False assms by (simp add: chunk_room_def)
qed

end
