(* ===== verification/Mains.thy ===== *)
theory Mains
  imports Getopt Handler MtServer
begin

text \<open>
  The \<open>main\<close> functions of the servers: the options of \<open>getfile/gfserver_main.c\<close>,
  \<open>multithreadgetfile/gfserver_main.c\<close>, \<open>webproxy.c\<close>, \<open>webproxy_curl.c\<close> and
  \<open>simplecached.c\<close>, and the single-threaded server as a whole program: options, content
  library, server library and handler composed as \<open>main\<close> composes them.
\<close>

section \<open>The single-threaded server\<close>

record gm_opts =
  gm_port :: "16 word"
  gm_content :: string

definition gm_defaults :: gm_opts where
  "gm_defaults = \<lparr>gm_port = 8888, gm_content = ''content.txt''\<rparr>"

definition gm_option :: "char \<times> string \<Rightarrow> gm_opts \<Rightarrow> cfault + gm_opts" where
  "gm_option x opts =
     (let (c, optarg) = x in
      if c = CHR ''p'' then Inr (opts\<lparr>gm_port := word_of_int (atoi optarg)\<rparr>)
      else if c = CHR ''c'' then Inr (opts\<lparr>gm_content := optarg\<rparr>)
      else if c = CHR ''h'' then Inl (Exit_program 0)
      else Inl (Exit_program 1))"

definition gm_options :: "string list \<Rightarrow> cfault + gm_opts" where
  "gm_options argv = foldE gm_option (getopt_list ''p:t:s:h'' argv) gm_defaults"

text \<open>
  What the program finds: the readable files (the index among them), \<open>open\<close>, the files
  behind the descriptors it returns, the answers of \<open>pread\<close>, what fresh memory holds,
  whether \<open>socket\<close> and \<open>listen\<close> succeed, and the connections that will come.
\<close>

record gm_env =
  ge_read :: "string \<Rightarrow> string option"
  ge_open :: "string \<Rightarrow> int"
  ge_fs :: filesys
  ge_plan :: "int \<Rightarrow> nat \<Rightarrow> nat option"
  ge_junk :: "nat \<Rightarrow> nat \<Rightarrow> char"
  ge_buffer :: "nat \<Rightarrow> char"
  ge_socket_ok :: bool
  ge_listen_ok :: bool
  ge_accepts :: "request_env option list"

definition gfserver_main :: "store gfserver_t \<Rightarrow> gm_env \<Rightarrow> string list \<Rightarrow> cfault + conn list \<times> store" where
  "gfserver_main garbage env argv =
     bindE (gm_options argv) (\<lambda>opts.
     bindE (content_init (ge_open env) (ge_junk env) (ge_read env (gm_content opts))) (\<lambda>content.
     let gfs = gfserver_set_handler (gfserver_set_maxpending
                 (gfserver_set_port garbage (gm_port opts)) 100) (handler_get (ge_junk env 0))
     in gfserver_serve gfs (ge_buffer env) (ge_socket_ok env) (ge_listen_ok env)
          \<lparr>st_content = content, st_fs = ge_fs env, st_plan = ge_plan env\<rparr> (ge_accepts env)))"

section \<open>The other servers\<close>

record mm_opts =
  mm_port :: "16 word"
  mm_nthreads :: int
  mm_content :: string

definition mm_defaults :: mm_opts where
  "mm_defaults = \<lparr>mm_port = 8888, mm_nthreads = 1, mm_content = ''content.txt''\<rparr>"

definition mm_option :: "char \<times> string \<Rightarrow> mm_opts \<Rightarrow> cfault + mm_opts" where
  "mm_option x opts =
     (let (c, optarg) = x in
      if c = CHR ''p'' then Inr (opts\<lparr>mm_port := word_of_int (atoi optarg)\<rparr>)
      else if c = CHR ''t'' then Inr (opts\<lparr>mm_nthreads := atoi optarg\<rparr>)
      else if c = CHR ''c'' then Inr (opts\<lparr>mm_content := optarg\<rparr>)
      else if c = CHR ''h'' then Inl (Exit_program 0)
      else Inl (Exit_program 1))"

definition mm_long :: "long_option list" where
  "mm_long =
    [(''port'', Required_argument, CHR ''p''),
     (''content'', Required_argument, CHR ''c''),
     (''nthreads'', Required_argument, CHR ''t''),
     (''help'', No_argument, CHR ''h'')]"

definition mm_options :: "string list \<Rightarrow> cfault + mm_opts" where
  "mm_options argv = foldE mm_option (getopt_long ''p:t:c:h'' mm_long argv) mm_defaults"

text \<open>\<open>segments\<close> and \<open>segment_size\<close> are globals, used by \<open>handle_with_cache.c\<close>.\<close>

record wp_opts =
  wp_port :: "16 word"
  wp_nworkerthreads :: "16 word"
  wp_server :: string
  wp_segments :: int
  wp_segment_size :: int

definition wp_defaults :: wp_opts where
  "wp_defaults = \<lparr>wp_port = 8888, wp_nworkerthreads = 1, wp_server = ''s3.amazonaws.com/content.udacity-data.com'',
     wp_segments = 1, wp_segment_size = 1024\<rparr>"

definition wp_option :: "char \<times> string \<Rightarrow> wp_opts \<Rightarrow> cfault + wp_opts" where
  "wp_option x opts =
     (let (c, optarg) = x in
      if c = CHR ''p'' then Inr (opts\<lparr>wp_port := word_of_int (atoi optarg)\<rparr>)
      else if c = CHR ''t'' then Inr (opts\<lparr>wp_nworkerthreads := word_of_int (atoi optarg)\<rparr>)
      else if c = CHR ''s'' then Inr (opts\<lparr>wp_server := optarg\<rparr>)
      else if c = CHR ''n'' then Inr (opts\<lparr>wp_segments := atoi optarg\<rparr>)
      else if c = CHR ''z'' then Inr (opts\<lparr>wp_segment_size := atoi optarg\<rparr>)
      else if c = CHR ''h'' then Inl (Exit_program 0)
      else Inl (Exit_program 1))"

definition wp_long :: "long_option list" where
  "wp_long =
    [(''port'', Required_argument, CHR ''p''),
     (''segment'', Required_argument, CHR ''n''),
     (''size'', Required_argument, CHR ''z''),
     (''thread-count'', Required_argument, CHR ''t''),
     (''server'', Required_argument, CHR ''s''),
     (''help'', No_argument, CHR ''h'')]"

definition wp_options :: "string list \<Rightarrow> cfault + wp_opts" where
  "wp_options argv = foldE wp_option (getopt_long ''p:t:s:h:n:z:'' wp_long argv) wp_defaults"

record wc_opts =
  wc_port :: "16 word"
  wc_nworkerthreads :: "16 word"
  wc_server :: string

definition wc_defaults :: wc_opts where
  "wc_defaults = \<lparr>wc_port = 8888, wc_nworkerthreads = 1, wc_server = ''s3.amazonaws.com/content.udacity-data.com''\<rparr>"

definition wc_option :: "char \<times> string \<Rightarrow> wc_opts \<Rightarrow> cfault + wc_opts" where
  "wc_option x opts =
     (let (c, optarg) = x in
      if c = CHR ''p'' then Inr (opts\<lparr>wc_port := word_of_int (atoi optarg)\<rparr>)
      else if c = CHR ''t'' then Inr (opts\<lparr>wc_nworkerthreads := word_of_int (atoi optarg)\<rparr>)
      else if c = CHR ''s'' then Inr (opts\<lparr>wc_server := optarg\<rparr>)
      else if c = CHR ''h'' then Inl (Exit_program 0)
      else Inl (Exit_program 1))"

definition wc_long :: "long_option list" where
  "wc_long =
    [(''port'', Required_argument, CHR ''p''),
     (''thread-count'', Required_argument, CHR ''t''),
     (''server'', Required_argument, CHR ''s''),
     (''help'', No_argument, CHR ''h'')]"

definition wc_options :: "string list \<Rightarrow> cfault + wc_opts" where
  "wc_options argv = foldE wc_option (getopt_long ''p:t:s:h'' wc_long argv) wc_defaults"

record sc_opts =
  sc_nthreads :: int
  sc_cachedir :: string

definition sc_defaults :: sc_opts where
  "sc_defaults = \<lparr>sc_nthreads = 1, sc_cachedir = ''locals.txt''\<rparr>"

definition sc_option :: "char \<times> string \<Rightarrow> sc_opts \<Rightarrow> cfault + sc_opts" where
  "sc_option x opts =
     (let (c, optarg) = x in
      if c = CHR ''t'' then Inr (opts\<lparr>sc_nthreads := atoi optarg\<rparr>)
      else if c = CHR ''c'' then Inr (opts\<lparr>sc_cachedir := optarg\<rparr>)
      else if c = CHR ''h'' then Inl (Exit_program 0)
      else Inl (Exit_program 1))"

definition sc_long :: "long_option list" where
  "sc_long =
    [(''nthreads'', Required_argument, CHR ''t''),
     (''cachedir'', Required_argument, CHR ''c''),
     (''help'', No_argument, CHR ''h'')]"

definition sc_options :: "string list \<Rightarrow> cfault + sc_opts" where
  "sc_options argv = foldE sc_option (getopt_long ''t:c:h'' sc_long argv) sc_defaults"

section \<open>What the option strings make of the options\<close>

lemma foldE_invariant:
  assumes "foldE f xs s = Inr s'" and "P s" and "\<And>x s s'. x \<in> set xs \<Longrightarrow> f x s = Inr s' \<Longrightarrow> P s \<Longrightarrow> P s'"
  shows "P s'"
  using assms
proof (induction xs arbitrary: s)
  case (Cons x xs)
  from Cons.prems(1) obtain s1 where s1: "f x s = Inr s1" "foldE f xs s1 = Inr s'" by auto
  have "P s1" using Cons.prems(2,3) s1(1) by auto
  with Cons.IH [OF s1(2)] Cons.prems(3) show ?case by auto
qed simp

text \<open>The letter \<open>c\<close> is missing from the option string of the single-threaded server.\<close>

lemma gm_content_fixed: "gm_options argv = Inr opts \<Longrightarrow> gm_content opts = ''content.txt''"
  unfolding gm_options_def
proof (erule foldE_invariant)
  fix x s s'
  assume x: "x \<in> set (getopt_list ''p:t:s:h'' argv)" and run: "gm_option x s = Inr s'"
    and P: "gm_content s = ''content.txt''"
  obtain c a where ca: "x = (c, a)" by (cases x)
  with x have "opt_known ''p:t:s:h'' c \<or> c = CHR ''?''" by (intro getopt_list_known) simp
  with run P ca show "gm_content s' = ''content.txt''"
    by (auto simp: gm_option_def opt_known_def split: if_splits)
qed (simp add: gm_defaults_def)

lemma gm_content_option_exits: "gm_options (''-c'' # args) = Inl (Exit_program 1)"
  unfolding gm_options_def by (subst getopt_unknown) (simp_all add: opt_known_def gm_option_def)

text \<open>In \<open>webproxy.c\<close> a colon follows the letter \<open>h\<close>.\<close>

lemma webproxy_help: "wp_options [''-h''] = Inl (Exit_program 1) \<and> wp_options [''-h'', x] = Inl (Exit_program 0)"
  by (simp add: wp_options_def getopt_run wp_option_def)

section \<open>The single-threaded server as a whole\<close>

text \<open>The bytes of the file the index line for \<open>p\<close> names.\<close>

definition indexed_file :: "filesys \<Rightarrow> (string \<Rightarrow> int) \<Rightarrow> (string \<times> string) list \<Rightarrow> string \<Rightarrow> char list" where
  "indexed_file fs open_ro es p =
     (case map_of es p of None \<Rightarrow> [] | Some name \<Rightarrow> case fdata fs (open_ro name) of None \<Rightarrow> [] | Some d \<Rightarrow> d)"

text \<open>What \<open>content_init\<close> leaves after reading an index of lines \<open>key path\<close>.\<close>

lemma index_loaded:
  assumes "content_init open_ro junk (Some (concat (map render_entry es))) = Inr c" and "length es < 2 ^ 30"
    and es: "\<forall>e \<in> set es. entry_ok e \<and> 0 \<le> open_ro (snd e) \<and> (\<exists>d. fdata fs (open_ro (snd e)) = Some d \<and> length d < 2 ^ 63)"
    and "distinct (map fst es)"
  shows "store_ok \<lparr>st_content = c, st_fs = fs, st_plan = plan\<rparr>" and "fst ` set (entries c) = fst ` set es"
    and "(k, fd) \<in> set (entries c) \<Longrightarrow> fdata fs fd = Some (indexed_file fs open_ro es k)"
    and "k \<in> fst ` set es \<Longrightarrow> NUL \<notin> set k"
proof -
  have "content_ok c" and m: "mset (entries c) = mset (map (\<lambda>(k, p). (k, open_ro p)) es)"
    using content_init_render [OF _ assms(2), of open_ro junk] es assms(1) by auto
  have set: "set (entries c) = (\<lambda>(k, p). (k, open_ro p)) ` set es" using m by (metis set_map set_mset_mset)
  show "store_ok \<lparr>st_content = c, st_fs = fs, st_plan = plan\<rparr>"
    using \<open>content_ok c\<close> es set by (fastforce simp: store_ok_def)
  show "fst ` set (entries c) = fst ` set es" by (force simp: set image_image)
  show "NUL \<notin> set k" if "k \<in> fst ` set es" using that es by (force simp: entry_ok_def word_ok_def)
  show "fdata fs fd = Some (indexed_file fs open_ro es k)" if "(k, fd) \<in> set (entries c)"
  proof -
    from that obtain name where n: "(k, name) \<in> set es" "fd = open_ro name" by (auto simp: set)
    then have "map_of es k = Some name" using assms(4) by simp
    moreover obtain d where "fdata fs fd = Some d" using es n by fastforce
    ultimately show ?thesis using n(2) by (simp add: indexed_file_def)
  qed
qed

definition serves_file :: "(string \<Rightarrow> char list) \<Rightarrow> request_env \<Rightarrow> string \<Rightarrow> conn" where
  "serves_file content e p = (rq_conn e)\<lparr>csent := csent (rq_conn e) @ ok_header (length (content p)) @ content p\<rparr>"

lemma handle_all_sends_files:
  assumes "store_ok st" and "\<forall>fd off. \<exists>n > 0. st_plan st fd off = Some n"
    and "\<And>k fd. (k, fd) \<in> set (entries (st_content st)) \<Longrightarrow> fdata (st_fs st) fd = Some (content k)"
    and "\<forall>(e, p) \<in> set xs. p \<in> fst ` set (entries (st_content st)) \<and> NUL \<notin> set p \<and> willing (rq_conn e)"
  shows "\<exists>st'. handle_all (handler_get junk) st xs = Inr (map (\<lambda>(e, p). serves_file content e p) xs, st')"
  using assms
proof (induction xs arbitrary: st)
  case (Cons x xs)
  obtain e p where x: "x = (e, p)" by (cases x)
  with Cons.prems(4) have p: "NUL \<notin> set p" "p \<in> fst ` set (entries (st_content st))" "willing (rq_conn e)" by auto
  obtain fd d st' where d: "(p, fd) \<in> set (entries (st_content st))" "fdata (st_fs st) fd = Some d"
    and h: "handler_get junk st (rq_conn e) (Some p) =
      Inr (int (length d), (rq_conn e)\<lparr>csent := csent (rq_conn e) @ ok_header (length d) @ d\<rparr>, st')"
    and st': "st_content st' = st_content st" "fdata (st_fs st') = fdata (st_fs st)" "st_plan st' = st_plan st"
    using handler_get_sends_file [OF Cons.prems(1) p Cons.prems(2), of junk] by blast
  have "d = content p" using Cons.prems(3) [OF d(1)] d(2) by simp
  moreover have "\<exists>st2. handle_all (handler_get junk) st' xs = Inr (map (\<lambda>(e, p). serves_file content e p) xs, st2)"
    using Cons.prems by (intro Cons.IH) (simp_all add: st' store_ok_def)
  ultimately show ?case using h by (auto simp: x call_handler_def serves_file_def)
qed simp


definition sample_server :: gm_env where
  "sample_server = \<lparr>ge_read = [''content.txt'' \<mapsto> concat (map render_entry [(''/a.txt'', ''x.txt''), (''/b.txt'', ''y.txt'')])],
     ge_open = sample_open, ge_fs = \<lparr>fdata = [5 \<mapsto> ''hello'', 6 \<mapsto> ''bye''], foff = (\<lambda>_. 0)\<rparr>, ge_plan = copy_plan,
     ge_junk = (\<lambda>_ _. CHR ''z''), ge_buffer = (\<lambda>_. NUL), ge_socket_ok = True, ge_listen_ok = True,
     ge_accepts = map (Some \<circ> (\<lambda>p. sample_env (request_bytes ''GETFILE'' ''GET'' p))) [''/b.txt'', ''/a.txt'']\<rparr>"

definition unset_server :: "store gfserver_t" where
  "unset_server = \<lparr>port = 0, max_npending = 0, handler = (\<lambda>_ _ _. Inl Uninitialised)\<rparr>"


text \<open>
  The documented option for another index file has no effect but to end the program:
  given first, the usage message is printed and the exit status is 1; whatever the command
  line, a server that starts reads \<open>content.txt\<close>.
\<close>

lemma server_content_option_unusable:
  "gm_options (''-c'' # args) = Inl (Exit_program 1) \<and>
   (\<forall>opts. gm_options argv = Inr opts \<longrightarrow> gm_content opts = ''content.txt'')"
  using gm_content_option_exits gm_content_fixed by blast

end
