(* ===== verification/Echo.thy ===== *)
theory Echo
  imports Getopt Socket
begin

text \<open>
  The echo programs \<open>server.c\<close> and \<open>client.c\<close>: their options, one connection of the server,
  its loop over connections, and the client from start to end. Name resolution, \<open>accept\<close>
  and \<open>connect\<close> are parameters.
\<close>

definition ECHO_BUFSIZE :: nat where "ECHO_BUFSIZE = 4096"

section \<open>Server\<close>

record es_opts =
  es_portno :: int
  es_maxnpending :: int

definition es_defaults :: es_opts where
  "es_defaults = \<lparr>es_portno = 8888, es_maxnpending = 5\<rparr>"

definition es_option :: "char \<times> string \<Rightarrow> es_opts \<Rightarrow> cfault + es_opts" where
  "es_option x opts =
     (let (c, optarg) = x in
      if c = CHR ''p'' then Inr (opts\<lparr>es_portno := atoi optarg\<rparr>)
      else if c = CHR ''n'' then Inr (opts\<lparr>es_maxnpending := atoi optarg\<rparr>)
      else if c = CHR ''h'' then Inl (Exit_program 0)
      else Inl (Exit_program 1))"

definition es_options :: "string list \<Rightarrow> cfault + es_opts" where
  "es_options argv = foldE es_option (getopt_list ''p:n:h'' argv) es_defaults"

text \<open>
  What happens on one round of the loop: whether \<open>accept\<close> succeeds, the name
  \<open>gethostbyaddr\<close> finds for the peer (the address is the previous one after a failure), the
  answer of \<open>read\<close> and the connection. After a failed \<open>accept\<close> the round goes on with the
  descriptor \<open>-1\<close>, on which every call fails.
\<close>

record echo_env =
  ee_accepted :: bool
  ee_host_name :: "string option"
  ee_read :: recv_result
  ee_conn :: conn

definition echo_serve :: "echo_env \<Rightarrow> cfault + conn" where
  "echo_serve e =
     bindE (assertE Null_deref (ee_host_name e \<noteq> None)) (\<lambda>_.
     let buffer = fresh_block (\<lambda>_. NUL) ECHO_BUFSIZE;
         (num_bytes, b1) = recv_into buffer (if ee_accepted e then ee_read e else None);
         ctx = (if ee_accepted e then ee_conn e else sys_close (ee_conn e))
     in bindE (cstr_at b1 0) (\<lambda>s.
        let (r, c1) = sys_write ctx s in Inr (sys_close c1)))"

primrec echo_loop :: "echo_env list \<Rightarrow> cfault + conn list" where
  "echo_loop [] = Inr []"
| "echo_loop (e # es) = bindE (echo_serve e) (\<lambda>c. bindE (echo_loop es) (\<lambda>cs. Inr (c # cs)))"

definition echo_server_main :: "string list \<Rightarrow> bool \<Rightarrow> (int \<Rightarrow> bool) \<Rightarrow> (int \<Rightarrow> bool) \<Rightarrow> echo_env list \<Rightarrow> cfault + conn list" where
  "echo_server_main argv socket_ok bind_ok listen_ok es =
     bindE (es_options argv) (\<lambda>opts.
     if \<not> socket_ok \<or> \<not> bind_ok (es_portno opts) \<or> \<not> listen_ok (es_maxnpending opts) then Inl (Exit_program 1)
     else echo_loop es)"

section \<open>Client\<close>

record ec_opts =
  ec_hostname :: string
  ec_portno :: "16 word"
  ec_message :: string

definition ec_defaults :: ec_opts where
  "ec_defaults = \<lparr>ec_hostname = ''localhost'', ec_portno = 8888, ec_message = ''Hello World!''\<rparr>"

definition ec_option :: "char \<times> string \<Rightarrow> ec_opts \<Rightarrow> cfault + ec_opts" where
  "ec_option x opts =
     (let (c, optarg) = x in
      if c = CHR ''s'' then Inr (opts\<lparr>ec_hostname := optarg\<rparr>)
      else if c = CHR ''p'' then Inr (opts\<lparr>ec_portno := word_of_int (atoi optarg)\<rparr>)
      else if c = CHR ''m'' then Inr (opts\<lparr>ec_message := optarg\<rparr>)
      else if c = CHR ''h'' then Inl (Exit_program 0)
      else Inl (Exit_program 1))"

definition ec_options :: "string list \<Rightarrow> cfault + ec_opts" where
  "ec_options argv = foldE ec_option (getopt_list ''s:p:m:h'' argv) ec_defaults"

text \<open>
  The network: addresses of names, the connection to an address and port (\<open>None\<close> when
  \<open>socket\<close> or \<open>connect\<close> fails), and the answer of \<open>read\<close> to what was sent. The host name is
  resolved before the options are read, and not again. The result is the text printed.
\<close>

record echo_net =
  en_resolve :: "string \<Rightarrow> 32 word option"
  en_connect :: "32 word \<Rightarrow> 16 word \<Rightarrow> conn option"
  en_reply :: "32 word \<Rightarrow> 16 word \<Rightarrow> char list \<Rightarrow> recv_result"

definition echo_client_main :: "echo_net \<Rightarrow> string list \<Rightarrow> cfault + string" where
  "echo_client_main net argv =
     (case en_resolve net (ec_hostname ec_defaults) of
        None \<Rightarrow> Inl Null_deref
      | Some addr \<Rightarrow>
          bindE (ec_options argv) (\<lambda>opts.
          case en_connect net addr (ec_portno opts) of
            None \<Rightarrow> Inl (Exit_program 1)
          | Some c \<Rightarrow>
              let (r, c1) = sys_write c (ec_message opts) in
              if r < 0 then Inl (Exit_program 1)
              else
                let reply = en_reply net addr (ec_portno opts) (csent c1);
                    (n, b1) = recv_into (fresh_block (\<lambda>_. NUL) ECHO_BUFSIZE) reply
                in if reply = None then Inl (Exit_program 1) else cstr_at b1 0))"

section \<open>Texts in a zeroed buffer\<close>

lemma cstr_received:
  assumes "NUL \<notin> set m"
  shows "cstr_at (snd (recv_into (fresh_block (\<lambda>_. NUL) n) (Some m))) 0 =
    (if length m < n then Inr m else Inl Out_of_bounds)"
proof (cases "length m < n")
  case True
  then have "drop (length m) (fresh_block (\<lambda>_. NUL) n) = NUL # replicate (n - Suc (length m)) NUL"
    by (simp add: fresh_block_def map_replicate_const Suc_diff_Suc flip: replicate_Suc)
  with True cstr_at_start [OF assms] show ?thesis by simp
next
  case False
  have "NUL \<notin> set (take n m)" using assms by (meson in_set_takeD)
  then have "strlen_at (take n m) 0 = Inl Out_of_bounds" by (simp add: strlen_at_def span_len_Inl) (metis)
  then show ?thesis using False by (simp add: recv_into_def Let_def cstr_at_def)
qed

section \<open>One connection\<close>

lemma echo_serve_text:
  assumes "ee_accepted e" and "ee_host_name e \<noteq> None" and "ee_read e = Some m" and "NUL \<notin> set m"
    and "willing (ee_conn e)"
  shows "echo_serve e =
    (if length m < 4096 then Inr ((ee_conn e)\<lparr>csent := csent (ee_conn e) @ m, copen := False\<rparr>) else Inl Out_of_bounds)"
proof -
  obtain k b1 where r: "recv_into (fresh_block (\<lambda>_. NUL) ECHO_BUFSIZE) (Some m) = (k, b1)" by fastforce
  then have "cstr_at b1 0 = (if length m < 4096 then Inr m else Inl Out_of_bounds)"
    using cstr_received [OF assms(4), of ECHO_BUFSIZE] by (simp add: ECHO_BUFSIZE_def)
  with assms r show ?thesis by (auto simp: echo_serve_def sys_close_def)
qed

lemma echo_client_text:
  assumes "en_resolve net ''localhost'' = Some addr" and "ec_options argv = Inr opts"
    and "en_connect net addr (ec_portno opts) = Some c" and "willing c" and "csent c = []"
    and "en_reply net addr (ec_portno opts) (ec_message opts) = Some m" and "NUL \<notin> set m" and "length m < 4096"
  shows "echo_client_main net argv = Inr m"
proof -
  obtain k b1 where r: "recv_into (fresh_block (\<lambda>_. NUL) ECHO_BUFSIZE) (Some m) = (k, b1)" by fastforce
  then have "cstr_at b1 0 = Inr m"
    using cstr_received [OF assms(7), of ECHO_BUFSIZE] assms(8) by (simp add: ECHO_BUFSIZE_def)
  with assms r show ?thesis by (simp add: echo_client_main_def ec_defaults_def)
qed

section \<open>Properties\<close>

text \<open>
  A text that reaches the server in one piece is echoed as it is when it is shorter
  than the buffer; when it fills the buffer (or would go beyond it) no NUL byte is behind
  it and the server reads past its buffer.
\<close>

lemma echo_server_echoes:
  assumes "ee_accepted e" and "ee_host_name e \<noteq> None" and "ee_read e = Some m" and "NUL \<notin> set m"
    and "willing (ee_conn e)"
  shows "echo_serve e =
    (if length m < 4096 then Inr ((ee_conn e)\<lparr>csent := csent (ee_conn e) @ m, copen := False\<rparr>) else Inl Out_of_bounds)"
  using assms by (rule echo_serve_text)

text \<open>
  Client and server together: for a message without NUL bytes that is shorter than the
  buffer, and a network that brings it to the server in one piece and the answer back, the
  client prints the message it was given.
\<close>

lemma echo_round_trip:
  assumes "en_resolve net ''localhost'' = Some addr" and "ec_options argv = Inr opts"
    and "en_connect net addr (ec_portno opts) = Some c" and "willing c" and "csent c = []"
    and "NUL \<notin> set (ec_message opts)" and "length (ec_message opts) < 4096"
    and "ee_accepted e" and "ee_host_name e \<noteq> None" and "ee_read e = Some (ec_message opts)"
    and "willing (ee_conn e)" and "csent (ee_conn e) = []"
    and "\<forall>s. echo_serve e = Inr s \<longrightarrow> en_reply net addr (ec_portno opts) (ec_message opts) = Some (csent s)"
  shows "echo_client_main net argv = Inr (ec_message opts)"
proof -
  have "echo_serve e = Inr ((ee_conn e)\<lparr>csent := ec_message opts, copen := False\<rparr>)"
    using echo_serve_text [OF assms(8,9,10,6,11)] assms(7,12) by simp
  then have "en_reply net addr (ec_portno opts) (ec_message opts) = Some (ec_message opts)" using assms(13) by simp
  then show ?thesis using assms(1-7) by (intro echo_client_text)
qed

definition loopback :: echo_net where
  "loopback = \<lparr>en_resolve = [''localhost'' \<mapsto> 0x7F000001],
     en_connect = (\<lambda>a p. Some \<lparr>csent = [], copen = True, cplan = []\<rparr>), en_reply = (\<lambda>a p m. Some m)\<rparr>"

end
