(* ===== verification/Filetransfer.thy ===== *)
theory Filetransfer
  imports Echo
begin

text \<open>
  The file transfer programs \<open>transferclient.c\<close> and \<open>transferserver.c\<close>: the client sends a
  file on one connection and receives one on a second; the server does the opposite, round
  after round. Both use the same two loops, \<open>recv\<close> into a file and blocks of a file into
  \<open>send\<close>. The disk is a map of files; whether a name can be opened and how many bytes can
  still be written are parameters. A file opened in mode \<open>ab+\<close> is read from its start.
\<close>

definition XFER_BUFSIZE :: nat where "XFER_BUFSIZE = 4096"

section \<open>Files\<close>

record disk =
  dfiles :: "string \<rightharpoonup> char list"
  dopenable :: "string \<Rightarrow> bool"
  droom :: nat                     \<comment> \<open>bytes that can still be written\<close>

text \<open>Mode \<open>wb+\<close> empties the file, mode \<open>ab+\<close> creates it when it is missing; \<open>None\<close>: null.\<close>

definition fopen_wb :: "string \<Rightarrow> disk \<Rightarrow> disk option" where
  "fopen_wb name d = (if dopenable d name then Some (d\<lparr>dfiles := (dfiles d)(name \<mapsto> [])\<rparr>) else None)"

definition fopen_ab :: "string \<Rightarrow> disk \<Rightarrow> (char list \<times> disk) option" where
  "fopen_ab name d =
     (if dopenable d name
      then (case dfiles d name of
              Some bytes \<Rightarrow> Some (bytes, d)
            | None \<Rightarrow> Some ([], d\<lparr>dfiles := (dfiles d)(name \<mapsto> [])\<rparr>))
      else None)"

definition fwrite_to :: "string \<Rightarrow> char list \<Rightarrow> disk \<Rightarrow> nat \<times> disk" where
  "fwrite_to name bytes d =
     (let n = min (length bytes) (droom d);
          old = (case dfiles d name of None \<Rightarrow> [] | Some x \<Rightarrow> x)
      in (n, d\<lparr>dfiles := (dfiles d)(name \<mapsto> old @ take n bytes), droom := droom d - n\<rparr>))"

section \<open>The two loops\<close>

datatype recv_end = End_of_stream | Recv_failed

text \<open>Over the answers of \<open>recv\<close>; \<open>None\<close> when the next answer never comes.\<close>

primrec receive_file :: "string \<Rightarrow> recv_result list \<Rightarrow> disk \<Rightarrow> (cfault + recv_end \<times> disk) option" where
  "receive_file name [] d = None"
| "receive_file name (r # rs) d =
     (case r of
        None \<Rightarrow> Some (Inr (Recv_failed, d))
      | Some bytes \<Rightarrow>
          let block = take XFER_BUFSIZE bytes in
          if block = [] then Some (Inr (End_of_stream, d))
          else
            let (write_size, d1) = fwrite_to name block d in
            if write_size < length block then Some (Inl (Exit_program 1))
            else receive_file name rs d1)"

text \<open>Over the bytes of the file that \<open>fread\<close> has not delivered yet.\<close>

function send_blocks :: "char list \<Rightarrow> conn \<Rightarrow> cfault + conn" where
  "send_blocks rest c =
     (let block = take XFER_BUFSIZE rest in
      if block = [] then Inr c
      else
        let (r, c1) = sys_write c block in
        if r < 0 then Inl (Exit_program 1)
        else if length block \<noteq> XFER_BUFSIZE then Inr c1
        else send_blocks (drop XFER_BUFSIZE rest) c1)"
  by pat_completeness auto
termination
  by (relation "measure (\<lambda>(rest, _). length rest)") (auto simp: XFER_BUFSIZE_def)

declare send_blocks.simps [simp del]

section \<open>Server\<close>

record ts_opts =
  ts_portno :: int
  ts_filename :: string

definition ts_defaults :: ts_opts where
  "ts_defaults = \<lparr>ts_portno = 8888, ts_filename = ''bar.txt''\<rparr>"

definition ts_option :: "char \<times> string \<Rightarrow> ts_opts \<Rightarrow> cfault + ts_opts" where
  "ts_option x opts =
     (let (c, optarg) = x in
      if c = CHR ''p'' then Inr (opts\<lparr>ts_portno := atoi optarg\<rparr>)
      else if c = CHR ''f'' then Inr (opts\<lparr>ts_filename := optarg\<rparr>)
      else if c = CHR ''h'' then Inl (Exit_program 0)
      else Inl (Exit_program 1))"

definition ts_options :: "string list \<Rightarrow> cfault + ts_opts" where
  "ts_options argv = foldE ts_option (getopt_list ''p:f:h'' argv) ts_defaults"

text \<open>
  The two connections of a round: whether \<open>accept\<close> succeeds, the name \<open>gethostbyaddr\<close>
  finds for the peer, which is followed without a test, and what the connection does.
\<close>

record xfer_env =
  xe_accept1 :: bool
  xe_host1 :: "string option"
  xe_recvs :: "recv_result list"
  xe_accept2 :: bool
  xe_host2 :: "string option"
  xe_conn :: conn

definition from_client :: string where "from_client = ''receivedfromclient.txt''"

definition accepted :: "bool \<Rightarrow> string option \<Rightarrow> cfault + unit" where
  "accepted ok host = bindE (assertE (Exit_program 1) ok) (\<lambda>_. assertE Null_deref (host \<noteq> None))"

definition transfer_round :: "string \<Rightarrow> xfer_env \<Rightarrow> disk \<Rightarrow> (cfault + conn \<times> disk) option" where
  "transfer_round filename e d =
     (case accepted (xe_accept1 e) (xe_host1 e) of
        Inl x \<Rightarrow> Some (Inl x)
      | Inr _ \<Rightarrow>
          case fopen_wb from_client d of
            None \<Rightarrow> Some (Inl (Exit_program 1))
          | Some d1 \<Rightarrow>
              map_option (\<lambda>r. bindE r (\<lambda>(_, d2).
                bindE (accepted (xe_accept2 e) (xe_host2 e)) (\<lambda>_.
                case fopen_ab filename d2 of
                  None \<Rightarrow> Inl (Exit_program 1)
                | Some (bytes, d3) \<Rightarrow> bindE (send_blocks bytes (xe_conn e)) (\<lambda>c. Inr (sys_close c, d3)))))
              (receive_file from_client (xe_recvs e) d1))"

primrec transfer_loop :: "string \<Rightarrow> xfer_env list \<Rightarrow> disk \<Rightarrow> (cfault + conn list \<times> disk) option" where
  "transfer_loop filename [] d = Some (Inr ([], d))"
| "transfer_loop filename (e # es) d =
     (case transfer_round filename e d of
        None \<Rightarrow> None
      | Some (Inl x) \<Rightarrow> Some (Inl x)
      | Some (Inr (c, d1)) \<Rightarrow>
          map_option (\<lambda>r. bindE r (\<lambda>(cs, d2). Inr (c # cs, d2))) (transfer_loop filename es d1))"

definition transfer_server_main :: "string list \<Rightarrow> bool \<Rightarrow> (int \<Rightarrow> bool) \<Rightarrow> bool \<Rightarrow> xfer_env list \<Rightarrow> disk \<Rightarrow>
    (cfault + conn list \<times> disk) option" where
  "transfer_server_main argv socket_ok bind_ok listen_ok es d =
     (case ts_options argv of
        Inl x \<Rightarrow> Some (Inl x)
      | Inr opts \<Rightarrow>
          if \<not> socket_ok \<or> \<not> bind_ok (ts_portno opts) \<or> \<not> listen_ok then Some (Inl (Exit_program 1))
          else transfer_loop (ts_filename opts) es d)"

section \<open>Client\<close>

record tc_opts =
  tc_hostname :: string
  tc_portno :: "16 word"
  tc_filename :: string

definition tc_defaults :: tc_opts where
  "tc_defaults = \<lparr>tc_hostname = ''localhost'', tc_portno = 8888, tc_filename = ''foo.txt''\<rparr>"

definition tc_option :: "char \<times> string \<Rightarrow> tc_opts \<Rightarrow> cfault + tc_opts" where
  "tc_option x opts =
     (let (c, optarg) = x in
      if c = CHR ''s'' then Inr (opts\<lparr>tc_hostname := optarg\<rparr>)
      else if c = CHR ''p'' then Inr (opts\<lparr>tc_portno := word_of_int (atoi optarg)\<rparr>)
      else if c = CHR ''o'' then Inr (opts\<lparr>tc_filename := optarg\<rparr>)
      else if c = CHR ''h'' then Inl (Exit_program 0)
      else Inl (Exit_program 1))"

definition tc_options :: "string list \<Rightarrow> cfault + tc_opts" where
  "tc_options argv = foldE tc_option (getopt_list ''s:p:o:h'' argv) tc_defaults"

text \<open>
  The network; \<open>tn_eagain\<close> says whether a failed \<open>recv\<close> was a timeout. The host name is
  resolved before the options are read.
\<close>

record xfer_net =
  tn_resolve :: "string \<Rightarrow> 32 word option"
  tn_connect1 :: "32 word \<Rightarrow> 16 word \<Rightarrow> conn option"
  tn_connect2 :: "32 word \<Rightarrow> 16 word \<Rightarrow> char list \<Rightarrow> recv_result list option"
  tn_eagain :: bool

definition from_server :: string where "from_server = ''receivedfromserver.txt''"

text \<open>The result is what was sent on the first connection, and the disk.\<close>

definition transfer_client_main :: "xfer_net \<Rightarrow> string list \<Rightarrow> disk \<Rightarrow> (cfault + char list \<times> disk) option" where
  "transfer_client_main net argv d =
     (case tn_resolve net (tc_hostname tc_defaults) of
        None \<Rightarrow> Some (Inl Null_deref)
      | Some addr \<Rightarrow>
          case tc_options argv of
            Inl x \<Rightarrow> Some (Inl x)
          | Inr opts \<Rightarrow>
              case tn_connect1 net addr (tc_portno opts) of
                None \<Rightarrow> Some (Inl (Exit_program 1))
              | Some c \<Rightarrow>
                  case fopen_ab (tc_filename opts) d of
                    None \<Rightarrow> Some (Inl (Exit_program 1))
                  | Some (bytes, d1) \<Rightarrow>
                      case send_blocks bytes c of
                        Inl x \<Rightarrow> Some (Inl x)
                      | Inr c1 \<Rightarrow>
                          case tn_connect2 net addr (tc_portno opts) (csent c1) of
                            None \<Rightarrow> Some (Inl (Exit_program 1))
                          | Some rs \<Rightarrow>
                              case fopen_wb from_server d1 of
                                None \<Rightarrow> Some (Inl (Exit_program 1))
                              | Some d2 \<Rightarrow>
                                  map_option (\<lambda>r. bindE r (\<lambda>(x, d3).
                                    if x = Recv_failed \<and> \<not> tn_eagain net then Inl (Exit_program 1)
                                    else Inr (csent c1, d3)))
                                  (receive_file from_server rs d2))"

section \<open>The loops, run\<close>

lemma send_blocks_willing: "willing c \<Longrightarrow> send_blocks bytes c = Inr (c\<lparr>csent := csent c @ bytes\<rparr>)"
proof (induction bytes c rule: send_blocks.induct)
  case (1 rest c)
  show ?case
  proof (cases "length rest < XFER_BUFSIZE")
    case True
    then show ?thesis using 1(2) by (subst send_blocks.simps) (auto simp: XFER_BUFSIZE_def Let_def)
  next
    case False
    then have b: "length (take XFER_BUFSIZE rest) = XFER_BUFSIZE" "take XFER_BUFSIZE rest \<noteq> []"
      by (auto simp: XFER_BUFSIZE_def)
    have "send_blocks rest c =
        send_blocks (drop XFER_BUFSIZE rest) (c\<lparr>csent := csent c @ take XFER_BUFSIZE rest\<rparr>)"
      using 1(2) b by (subst send_blocks.simps) (simp add: Let_def)
    also have "\<dots> = Inr (c\<lparr>csent := csent c @ take XFER_BUFSIZE rest, csent := (csent c @ take XFER_BUFSIZE rest) @ drop XFER_BUFSIZE rest\<rparr>)"
      using 1(2) b by (subst 1(1)) (auto simp: Let_def)
    finally show ?thesis by simp
  qed
qed

definition blocks_ok :: "char list list \<Rightarrow> bool" where
  "blocks_ok ds \<longleftrightarrow> (\<forall>d \<in> set ds. d \<noteq> [] \<and> length d \<le> XFER_BUFSIZE)"

lemma receive_file_blocks:
  assumes "blocks_ok ds" and "length (concat ds) \<le> droom d" and "dfiles d name = Some old"
  shows "\<exists>d'. receive_file name (map Some ds @ Some [] # rs) d = Some (Inr (End_of_stream, d')) \<and>
    dfiles d' = (dfiles d)(name \<mapsto> old @ concat ds) \<and> dopenable d' = dopenable d"
  using assms
proof (induction ds arbitrary: d old)
  case Nil
  then show ?case by (auto simp: fun_upd_idem)
next
  case (Cons x ds)
  from Cons.prems have x: "x \<noteq> []" "take XFER_BUFSIZE x = x" and ds: "blocks_ok ds" by (auto simp: blocks_ok_def)
  define d1 where "d1 = d\<lparr>dfiles := (dfiles d)(name \<mapsto> old @ x), droom := droom d - length x\<rparr>"
  have w: "fwrite_to name x d = (length x, d1)" using Cons.prems(2,3) by (simp add: fwrite_to_def d1_def Let_def)
  have p: "length (concat ds) \<le> droom d1" "dfiles d1 name = Some (old @ x)"
    using Cons.prems(2) by (simp_all add: d1_def)
  from Cons.IH [OF ds p] obtain d' where "receive_file name (map Some ds @ Some [] # rs) d1 = Some (Inr (End_of_stream, d'))"
    "dfiles d' = (dfiles d1)(name \<mapsto> (old @ x) @ concat ds)" "dopenable d' = dopenable d1" by blast
  with x w show ?case by (simp add: Let_def d1_def fun_eq_iff)
qed

lemma send_blocks_short:
  assumes "copen c" and "cplan c = [int k]" and "bytes \<noteq> []"
  shows "send_blocks bytes c =
    Inr (c\<lparr>csent := csent c @ take (min k XFER_BUFSIZE) bytes @ drop XFER_BUFSIZE bytes, cplan := []\<rparr>)"
proof -
  let ?b = "take XFER_BUFSIZE bytes"
  let ?c = "c\<lparr>csent := csent c @ take (min k XFER_BUFSIZE) bytes, cplan := []\<rparr>"
  have ne: "?b \<noteq> []" using assms(3) by (simp add: XFER_BUFSIZE_def)
  have w: "sys_write c ?b = (int (min k (length ?b)), ?c)"
    using assms by (auto simp: sys_write_def Let_def min_def)
  have "send_blocks (drop XFER_BUFSIZE bytes) ?c = Inr (?c\<lparr>csent := csent ?c @ drop XFER_BUFSIZE bytes\<rparr>)"
    using assms(1) by (intro send_blocks_willing) (simp add: willing_def)
  then show ?thesis using ne w by (subst send_blocks.simps) (auto simp: Let_def)
qed

section \<open>The server option\<close>

text \<open>
  Both clients resolve the default host before they read their options: they run as if
  every name had the address of \<open>localhost\<close>.
\<close>

lemma clients_ignore_server_option:
  shows "en_resolve net ''localhost'' = Some a \<Longrightarrow>
      echo_client_main net argv = echo_client_main (net\<lparr>en_resolve := \<lambda>_. Some a\<rparr>) argv"
    and "tn_resolve net' ''localhost'' = Some a \<Longrightarrow>
      transfer_client_main net' argv d = transfer_client_main (net'\<lparr>tn_resolve := \<lambda>_. Some a\<rparr>) argv d"
  by (simp_all add: echo_client_main_def transfer_client_main_def ec_defaults_def tc_defaults_def Let_def
    cong: option.case_cong sum.case_cong prod.case_cong if_cong)

section \<open>Properties\<close>

text \<open>
  C13: One round of both programs: for connections that take and bring what was sent, cut
  into blocks in any way, the server ends up with the client's file in
  \<open>receivedfromclient.txt\<close> and the client with the server's in \<open>receivedfromserver.txt\<close>,
  byte for byte, whatever their lengths.
\<close>

theorem transfer_exchanges_files:
  assumes "tn_resolve net ''localhost'' = Some addr" and "tc_options argv = Inr opts"
    and "tn_connect1 net addr (tc_portno opts) = Some c" and "willing c" and "csent c = []"
    and "tn_connect2 net addr (tc_portno opts) f = Some (map Some down @ Some [] # rs)"
    and "dfiles dc (tc_filename opts) = Some f" and "dopenable dc (tc_filename opts)" and "dopenable dc from_server"
    and "xe_accept1 e \<and> xe_accept2 e" and "xe_host1 e \<noteq> None \<and> xe_host2 e \<noteq> None"
    and "xe_recvs e = map Some up @ Some [] # rs'" and "willing (xe_conn e)" and "csent (xe_conn e) = []"
    and "dfiles ds filename = Some g" and "dopenable ds filename" and "dopenable ds from_client" and "filename \<noteq> from_client"
    and "blocks_ok up" and "concat up = f" and "blocks_ok down" and "concat down = g"
    and "length f \<le> droom ds" and "length g \<le> droom dc"
  shows "(\<exists>dc'. transfer_client_main net argv dc = Some (Inr (f, dc')) \<and> dfiles dc' from_server = Some g) \<and>
    (\<exists>ds' s. transfer_round filename e ds = Some (Inr (s, ds')) \<and> csent s = g \<and> dfiles ds' from_client = Some f)"
proof
  define d1 where "d1 = dc\<lparr>dfiles := (dfiles dc)(from_server \<mapsto> [])\<rparr>"
  obtain dc' where "receive_file from_server (map Some down @ Some [] # rs) d1 = Some (Inr (End_of_stream, dc'))"
    "dfiles dc' = (dfiles d1)(from_server \<mapsto> g)"
    using receive_file_blocks [OF assms(21), of d1 from_server "[]" rs] assms(22,24) by (auto simp: d1_def)
  moreover have "fopen_ab (tc_filename opts) dc = Some (f, dc)" using assms(7,8) by (simp add: fopen_ab_def)
  moreover have "fopen_wb from_server dc = Some d1" using assms(9) by (simp add: fopen_wb_def d1_def)
  moreover have "send_blocks f c = Inr (c\<lparr>csent := f\<rparr>)" using send_blocks_willing [OF assms(4), of f] assms(5) by simp
  ultimately show "\<exists>dc'. transfer_client_main net argv dc = Some (Inr (f, dc')) \<and> dfiles dc' from_server = Some g"
    using assms(1-3,6) by (simp add: transfer_client_main_def tc_defaults_def)
next
  define d1 where "d1 = ds\<lparr>dfiles := (dfiles ds)(from_client \<mapsto> [])\<rparr>"
  obtain d2 where r: "receive_file from_client (map Some up @ Some [] # rs') d1 = Some (Inr (End_of_stream, d2))"
    and d2: "dfiles d2 = (dfiles d1)(from_client \<mapsto> f)" "dopenable d2 = dopenable d1"
    using receive_file_blocks [OF assms(19), of d1 from_client "[]" rs'] assms(20,23) by (auto simp: d1_def)
  have "fopen_ab filename d2 = Some (g, d2)" using assms(15,16,18) d2 by (simp add: fopen_ab_def d1_def)
  moreover have "fopen_wb from_client ds = Some d1" using assms(17) by (simp add: fopen_wb_def d1_def)
  moreover have "send_blocks g (xe_conn e) = Inr ((xe_conn e)\<lparr>csent := g\<rparr>)"
    using send_blocks_willing [OF assms(13), of g] assms(14) by simp
  moreover have "accepted (xe_accept1 e) (xe_host1 e) = Inr ()" "accepted (xe_accept2 e) (xe_host2 e) = Inr ()"
    using assms(10,11) by (simp_all add: accepted_def)
  ultimately show "\<exists>ds' s. transfer_round filename e ds = Some (Inr (s, ds')) \<and> csent s = g \<and> dfiles ds' from_client = Some f"
    using r d2(1) assms(12) by (simp add: transfer_round_def sys_close_def)
qed

definition sample_net2 :: xfer_net where
  "sample_net2 = \<lparr>tn_resolve = [''localhost'' \<mapsto> 0x7F000001],
     tn_connect1 = (\<lambda>a p. Some \<lparr>csent = [], copen = True, cplan = []\<rparr>),
     tn_connect2 = (\<lambda>a p m. Some [Some ''ba'', Some ''r'', Some []]), tn_eagain = False\<rparr>"

theorem transfer_exchanges_files_witness:
  "(\<exists>dc'. transfer_client_main sample_net2 [] \<lparr>dfiles = [''foo.txt'' \<mapsto> ''foo''], dopenable = (\<lambda>_. True), droom = 9\<rparr> =
      Some (Inr (''foo'', dc')) \<and> dfiles dc' from_server = Some ''bar'') \<and>
   (\<exists>ds' s. transfer_round ''bar.txt'' \<lparr>xe_accept1 = True, xe_host1 = Some ''h'', xe_recvs = [Some ''foo'', Some []],
        xe_accept2 = True, xe_host2 = Some ''h'', xe_conn = \<lparr>csent = [], copen = True, cplan = []\<rparr>\<rparr>
        \<lparr>dfiles = [''bar.txt'' \<mapsto> ''bar''], dopenable = (\<lambda>_. True), droom = 9\<rparr> = Some (Inr (s, ds')) \<and>
      csent s = ''bar'' \<and> dfiles ds' from_client = Some ''foo'')"
  by (rule transfer_exchanges_files [where opts = tc_defaults and up = "[''foo'']" and down = "[''ba'', ''r'']" and rs = "[]"
        and rs' = "[]" and addr = "0x7F000001" and c = "\<lparr>csent = [], copen = True, cplan = []\<rparr>"])
    (simp_all add: sample_net2_def tc_options_def getopt_long.simps tc_defaults_def willing_def blocks_ok_def
      XFER_BUFSIZE_def from_client_def)



end
