(* ===== verification/Curl.thy ===== *)
theory Curl
  imports MtServer
begin

text \<open>
  The proxy handler \<open>handle_with_curl.c\<close>: the callback that collects what libcurl downloads
  in a growing block, and the handler that fetches a URL and sends the block on. libcurl is
  a parameter: for every URL the result code, the blocks it hands to the callback, and the
  size it reports; it stops with an error when the callback does not accept a block. The
  server library is the same record of functions the multithreaded server uses. The size
  libcurl reports as a \<open>double\<close> is a number here, exact for sizes below \<open>2^53\<close>.
\<close>

section \<open>The write callback\<close>

record memory_t =
  memory :: "block option"          \<comment> \<open>\<open>None\<close>: a null pointer\<close>
  msize :: size_t

text \<open>\<open>alloc n\<close>: whether \<open>realloc\<close> can give \<open>n\<close> bytes; a refused call leaves a null pointer.\<close>

definition write_callback :: "(nat \<Rightarrow> bool) \<Rightarrow> (nat \<Rightarrow> char) \<Rightarrow> char list \<Rightarrow> size_t \<Rightarrow> size_t \<Rightarrow> memory_t \<Rightarrow>
    cfault + size_t \<times> memory_t" where
  "write_callback alloc junk ptr esize nmemb mem =
     (let realsize = esize * nmemb;
          newlen = unat (msize mem + realsize + 1);
          old = (case memory mem of None \<Rightarrow> [] | Some b \<Rightarrow> b)
      in if \<not> alloc newlen then Inr (0, mem\<lparr>memory := None\<rparr>)
         else
           bindE (get_bytes ptr 0 (unat realsize)) (\<lambda>d.
           bindE (put_bytes (take newlen old @ fresh_block junk (newlen - length old)) (unat (msize mem)) d) (\<lambda>b1.
           bindE (put_bytes b1 (unat (msize mem + realsize)) [NUL]) (\<lambda>b2.
           Inr (realsize, \<lparr>memory = Some b2, msize = msize mem + realsize\<rparr>)))))"

section \<open>The download\<close>

definition CURLE_OK :: int where "CURLE_OK = 0"

definition CURLE_WRITE_ERROR :: int where "CURLE_WRITE_ERROR = 23"

record curl_lib =
  cl_fetch :: "string \<Rightarrow> int \<times> char list list"   \<comment> \<open>\<open>curl_easy_perform\<close>\<close>
  cl_size :: "string \<Rightarrow> int \<times> nat"               \<comment> \<open>\<open>curl_easy_getinfo\<close>\<close>
  cl_alloc :: "nat \<Rightarrow> bool"
  cl_junk :: "nat \<Rightarrow> char"

primrec deliver :: "curl_lib \<Rightarrow> char list list \<Rightarrow> int \<Rightarrow> memory_t \<Rightarrow> cfault + int \<times> memory_t" where
  "deliver lib [] code mem = Inr (code, mem)"
| "deliver lib (d # ds) code mem =
     bindE (write_callback (cl_alloc lib) (cl_junk lib) d 1 (size_of_nat (length d)) mem) (\<lambda>(r, mem1).
     if r \<noteq> size_of_nat (length d) then Inr (CURLE_WRITE_ERROR, mem1) else deliver lib ds code mem1)"

section \<open>The handler\<close>

definition CURL_BUFFER_SIZE :: nat where "CURL_BUFFER_SIZE = 4096"

definition CURL_FAILURE :: int where "CURL_FAILURE = 1"   \<comment> \<open>\<open>EXIT_FAILURE\<close>\<close>

function curl_send :: "('c, 'n) gfs_lib \<Rightarrow> 'c \<Rightarrow> block \<Rightarrow> nat \<Rightarrow> nat \<Rightarrow> int \<Rightarrow> 'n \<Rightarrow> cfault + int \<times> 'n" where
  "curl_send gfs ctx chunk file_len bytes_transferred offset n =
     (if bytes_transferred < file_len then
        let k = (if CURL_BUFFER_SIZE \<le> file_len - bytes_transferred then CURL_BUFFER_SIZE
                 else file_len - bytes_transferred) in
        bindE (get_bytes chunk (nat offset) k) (\<lambda>_.
        let (write_len, n1) = gl_send gfs n ctx (drop (nat offset) chunk) (int k) in
        if write_len \<le> 0 then Inr (CURL_FAILURE, n1)
        else bindE (c_int (offset + write_len)) (\<lambda>offset1.
          curl_send gfs ctx chunk file_len (bytes_transferred + nat write_len) offset1 n1))
      else Inr (int bytes_transferred, n))"
  by pat_completeness auto
termination
  by (relation "measure (\<lambda>(_, _, _, file_len, bt, _, _). file_len - bt)") (auto simp: diff_less_mono2)

declare curl_send.simps [simp del]

definition curl_url :: "(nat \<Rightarrow> char) \<Rightarrow> string \<Rightarrow> string option \<Rightarrow> cfault + string" where
  "curl_url junk data_dir path =
     bindE (strcpy_to (fresh_block junk CURL_BUFFER_SIZE) 0 data_dir) (\<lambda>b1.
     case path of
       None \<Rightarrow> Inl Null_deref
     | Some p \<Rightarrow> bindE (strcat_to b1 0 p) (\<lambda>b2. cstr_at b2 0))"

definition handle_with_curl :: "curl_lib \<Rightarrow> ('c, 'n) gfs_lib \<Rightarrow> 'c \<Rightarrow> string option \<Rightarrow> string \<Rightarrow> 'n \<Rightarrow>
    cfault + int \<times> 'n" where
  "handle_with_curl lib gfs ctx path data_dir n =
     bindE (curl_url (cl_junk lib) data_dir path) (\<lambda>url.
     bindE (deliver lib (snd (cl_fetch lib url)) (fst (cl_fetch lib url))
              \<lparr>memory = Some (fresh_block (cl_junk lib) 1), msize = 0\<rparr>) (\<lambda>(res, chunk).
     if res \<noteq> CURLE_OK then Inr (gl_sendheader gfs n ctx GF_FILE_NOT_FOUND 0)
     else if fst (cl_size lib url) \<noteq> CURLE_OK then Inr (CURL_FAILURE, n)
     else
       let file_len = snd (cl_size lib url);
           n1 = snd (gl_sendheader gfs n ctx GF_OK (int file_len))
       in case memory chunk of
            None \<Rightarrow> Inl Null_deref
          | Some b \<Rightarrow> curl_send gfs ctx b file_len 0 0 n1))"

section \<open>Collecting\<close>

text \<open>The block holds what was delivered, and a NUL byte behind it.\<close>

definition collected :: "char list \<Rightarrow> memory_t \<Rightarrow> bool" where
  "collected xs mem \<longleftrightarrow> (\<exists>b. memory mem = Some b \<and> take (length xs) b = xs \<and> length b = Suc (length xs) \<and>
     msize mem = size_of_nat (length xs)) \<and> length xs < 2 ^ 63"

lemma size_of_nat_plus: "size_of_nat a + size_of_nat b = size_of_nat (a + b)"
  by (simp add: size_of_nat_def)

lemma write_callback_collects:
  assumes "collected xs mem" and "alloc (Suc (length xs + length d))" and "length xs + length d < 2 ^ 63"
  shows "\<exists>mem'. write_callback alloc junk d 1 (size_of_nat (length d)) mem = Inr (size_of_nat (length d), mem') \<and>
    collected (xs @ d) mem' \<and> (\<exists>b. memory mem' = Some (b @ [NUL]))"
proof -
  obtain b where b: "memory mem = Some b" "take (length xs) b = xs" "length b = Suc (length xs)"
    "msize mem = size_of_nat (length xs)" using assms(1) by (auto simp: collected_def)
  let ?n = "length xs + length d"
  have u: "unat (size_of_nat m) = m" if "m \<le> ?n" for m using that assms(3) by (intro unat_size_of_nat) simp
  have new: "unat (msize mem + size_of_nat (length d) + 1) = Suc ?n"
  proof -
    have "msize mem + size_of_nat (length d) + 1 = size_of_nat (Suc ?n)"
      using size_of_nat_plus [of ?n 1] by (simp add: b(4) size_of_nat_plus) (simp add: size_of_nat_def)
    moreover have "Suc ?n < 2 ^ 64" using assms(3) by simp
    ultimately show ?thesis by (simp only: unat_size_of_nat)
  qed
  have "length (drop (length xs) b) = 1" using b(3) by simp
  then obtain z where "drop (length xs) b = [z]" by (metis One_nat_def length_0_conv length_Suc_conv)
  then have z: "b = xs @ [z]" using b(2) by (metis append_take_drop_id)
  define blk where "blk = take (Suc ?n) b @ fresh_block junk (Suc ?n - length b)"
  have blk: "take (length xs) blk = xs" "length blk = Suc ?n"
    using b(2,3) by (auto simp: blk_def z)
  have 1: "put_bytes blk (length xs) d = Inr (xs @ d @ drop ?n blk)" using blk by (simp add: put_bytes_def)
  have ld: "length (drop ?n blk) = 1" using blk by simp
  then obtain y where y: "drop ?n blk = [y]" by (metis One_nat_def length_0_conv length_Suc_conv)
  have 2: "put_bytes (xs @ d @ [y]) ?n [NUL] = Inr (xs @ d @ [NUL])" by (simp add: put_bytes_def)
  have "write_callback alloc junk d 1 (size_of_nat (length d)) mem =
      Inr (size_of_nat (length d), \<lparr>memory = Some (xs @ d @ [NUL]), msize = size_of_nat ?n\<rparr>)"
    using assms(2) 1 2 y u [of "length xs"] u [of "length d"] u [of ?n] new b(1,4)
    by (simp add: write_callback_def get_bytes_def Let_def blk_def [symmetric] size_of_nat_plus)
  then show ?thesis
    using assms(3) by (intro exI [of _ "\<lparr>memory = Some (xs @ d @ [NUL]), msize = size_of_nat ?n\<rparr>"])
      (simp add: collected_def)
qed

lemma deliver_collects:
  assumes "collected xs mem" and "\<forall>m. cl_alloc lib m" and "length xs + length (concat ds) < 2 ^ 63"
  shows "\<exists>mem'. deliver lib ds code mem = Inr (code, mem') \<and> collected (xs @ concat ds) mem'"
  using assms
proof (induction ds arbitrary: xs mem)
  case (Cons d ds)
  obtain mem1 where m: "write_callback (cl_alloc lib) (cl_junk lib) d 1 (size_of_nat (length d)) mem =
      Inr (size_of_nat (length d), mem1)" "collected (xs @ d) mem1"
    using write_callback_collects [OF Cons.prems(1), of "cl_alloc lib" d "cl_junk lib"] Cons.prems(2,3) by auto
  obtain mem' where "deliver lib ds code mem1 = Inr (code, mem')" "collected ((xs @ d) @ concat ds) mem'"
    using Cons.IH [OF m(2) Cons.prems(2)] Cons.prems(3) by auto
  with m(1) show ?case by simp
qed simp

section \<open>Sending over a peer that takes its time\<close>

text \<open>
  What the loop relies on: a send of some bytes takes at least one and at most as many as it
  was given, from the start of the buffer. A connection that takes everything is one of these.
\<close>

locale partial_sink =
  fixes send :: "'n \<Rightarrow> block \<Rightarrow> int \<Rightarrow> int \<times> 'n"
    and sent :: "'n \<Rightarrow> char list"
    and good :: "'n \<Rightarrow> bool"
  assumes send_some: "good n \<Longrightarrow> 0 < k \<Longrightarrow> k \<le> int (length b) \<Longrightarrow> k \<le> int BUFFER_SIZE \<Longrightarrow>
      0 < fst (send n b k) \<and> fst (send n b k) \<le> k \<and> good (snd (send n b k)) \<and>
      sent (snd (send n b k)) = sent n @ take (nat (fst (send n b k))) b"
begin

lemma curl_send_complete:
  assumes lib: "\<And>n. gl_send gfs n c = send n" and max: "int (length content) \<le> int_max"
    and chunk: "take (length content) chunk = content" "length content \<le> length chunk"
  shows "good n \<Longrightarrow> off \<le> length content \<Longrightarrow>
    \<exists>n'. curl_send gfs c chunk (length content) off (int off) n = Inr (int (length content), n') \<and>
      good n' \<and> sent n' = sent n @ drop off content"
proof (induction "length content - off" arbitrary: off n rule: less_induct)
  case less
  show ?case
  proof (cases "off < length content")
    case False
    with less.prems show ?thesis by (simp add: curl_send.simps)
  next
    case True
    define k where "k = (if CURL_BUFFER_SIZE \<le> length content - off then CURL_BUFFER_SIZE else length content - off)"
    have k: "0 < k" "off + k \<le> length content" "k \<le> BUFFER_SIZE"
      using True by (auto simp: k_def CURL_BUFFER_SIZE_def BUFFER_SIZE_def)
    define w where "w = send n (drop off chunk) (int k)"
    have "int k \<le> int (length (drop off chunk))" using k(2) chunk(2) by simp
    from send_some [OF less.prems(1) _ this] k have
      w: "0 < fst w" "fst w \<le> int k" "good (snd w)" "sent (snd w) = sent n @ take (nat (fst w)) (drop off chunk)"
      by (auto simp: w_def)
    define off' where "off' = off + nat (fst w)"
    have off': "off < off'" "off' \<le> length content" "int off + fst w = int off'" using w k by (auto simp: off'_def)
    have "c_int (int off + fst w) = Inr (int off')"
      using off' max by (simp add: c_int_def int_max_def)
    then have step: "curl_send gfs c chunk (length content) off (int off) n =
        curl_send gfs c chunk (length content) off' (int off') (snd w)"
      using True w(1) k chunk(2) lib
      by (subst curl_send.simps, cases w)
        (simp add: Let_def k_def [symmetric] w_def [symmetric] get_bytes_def off'_def)
    have "drop off content = take (length content - off) (drop off chunk)" using chunk(1) by (metis drop_take)
    then have "take (nat (fst w)) (drop off chunk) = take (nat (fst w)) (drop off content)"
      using off' by (simp add: off'_def)
    then have "sent (snd w) @ drop off' content = sent n @ drop off content"
      using w(4) by (simp add: off'_def) (metis add.commute append_take_drop_id drop_drop)
    moreover obtain n' where "curl_send gfs c chunk (length content) off' (int off') (snd w) =
        Inr (int (length content), n')" "good n'" "sent n' = sent (snd w) @ drop off' content"
      using less.hyps [OF diff_less_mono2 [OF off'(1) True] w(3) off'(2)] by blast
    ultimately show ?thesis using step by simp
  qed
qed

end

sublocale reply_sink \<subseteq> partial_sink send sent good
  by unfold_locales (use send_all in force)

text \<open>The server library on a connection whose writes never fail and always take something.\<close>

definition eager :: "conn \<Rightarrow> bool" where
  "eager c \<longleftrightarrow> copen c \<and> (\<forall>r \<in> set (cplan c). 0 < r)"

interpretation slow: partial_sink "\<lambda>c. gl_send getfile_lib c ctx" csent eager for ctx
proof unfold_locales
  fix n :: conn and k and b :: block
  assume a: "eager n" "0 < k" "k \<le> int (length b)" "k \<le> int BUFFER_SIZE"
  obtain r n' where w: "sys_write n (take (nat k) b) = (r, n')" by fastforce
  have "size_of_int k = size_of_nat (nat k)" using a(2) by (simp add: size_of_int_def size_of_nat_def)
  moreover have "unat (size_of_nat (nat k)) = nat k"
    by (rule unat_size_of_nat) (use a(4) in \<open>simp add: BUFFER_SIZE_def\<close>)
  moreover have "nat k \<le> length b" "\<not> 2 ^ 63 \<le> nat k" using a(3,4) by (simp_all add: BUFFER_SIZE_def)
  ultimately have g: "gl_send getfile_lib n ctx b k = (r, n')"
    using a w by (simp add: getfile_lib_def gfs_or_fail_def gfs_send_def get_bytes_def eager_def BUFFER_SIZE_def)
  have "0 < r \<and> r \<le> k \<and> eager n' \<and> csent n' = csent n @ take (nat r) b"
    using w a by (auto simp: sys_write_def eager_def Let_def min_def split: list.splits if_splits)
  with g show "0 < fst (gl_send getfile_lib n ctx b k) \<and> fst (gl_send getfile_lib n ctx b k) \<le> k \<and>
      eager (snd (gl_send getfile_lib n ctx b k)) \<and>
      csent (snd (gl_send getfile_lib n ctx b k)) = csent n @ take (nat (fst (gl_send getfile_lib n ctx b k))) b"
    by simp
qed

lemma curl_send_fails:
  assumes "0 < file_len" and "file_len \<le> length b" and bad: "\<forall>n b k. fst (gl_send gfs n c b k) \<le> 0"
  shows "\<exists>n'. curl_send gfs c b file_len 0 0 n = Inr (CURL_FAILURE, n')"
proof -
  have "x \<le> 0" if "gl_send gfs n c b k = (x, y)" for n b k x y using bad that by (metis fst_conv)
  then show ?thesis
    using assms(1,2) by (subst curl_send.simps) (auto simp: Let_def get_bytes_def split: prod.splits)
qed

lemma curl_url_known:
  assumes "NUL \<notin> set data_dir" and "NUL \<notin> set p"
  shows "curl_url junk data_dir (Some p) =
    (if length data_dir + length p < 4096 then Inr (data_dir @ p) else Inl Out_of_bounds)"
proof (cases "length data_dir < 4096")
  case False
  then show ?thesis by (simp add: curl_url_def CURL_BUFFER_SIZE_def strcpy_to_overflow)
next
  case True
  define r where "r = drop (Suc (length data_dir)) (fresh_block junk 4096)"
  have 1: "strcpy_to (fresh_block junk 4096) 0 data_dir = Inr (data_dir @ NUL # r)"
    using True by (simp add: strcpy_to_start r_def)
  have lr: "length r = 4096 - Suc (length data_dir)" by (simp add: r_def)
  show ?thesis
  proof (cases "length data_dir + length p < 4096")
    case True
    then have "strcat_to (data_dir @ NUL # r) 0 p = Inr ((data_dir @ p) @ NUL # drop (length p) r)"
      using assms lr by (subst strcat_to_known) auto
    moreover have "cstr_at ((data_dir @ p) @ NUL # drop (length p) r) 0 = Inr (data_dir @ p)"
      using assms by (intro cstr_at_start) simp
    ultimately show ?thesis using True 1 by (simp add: curl_url_def CURL_BUFFER_SIZE_def)
  next
    case False
    then have "strcat_to (data_dir @ NUL # r) 0 p = Inl Out_of_bounds"
      using assms lr True by (simp add: strcat_to_def strlen_at_start strcpy_to_def put_bytes_def)
    then show ?thesis using False 1 by (simp add: curl_url_def CURL_BUFFER_SIZE_def)
  qed
qed

section \<open>Properties\<close>

text \<open>
  C14: For a path whose URL fits the buffer, a download that succeeds, in whatever blocks
  libcurl delivers it, and a peer that takes at least something of every send, the handler
  sends the header with the size and then exactly the downloaded bytes, and returns their
  number.
\<close>

theorem curl_serves_download:
  assumes "NUL \<notin> set data_dir" and "NUL \<notin> set p" and "length data_dir + length p < 4096"
    and "cl_fetch lib (data_dir @ p) = (CURLE_OK, ds)" and "cl_size lib (data_dir @ p) = (CURLE_OK, length (concat ds))"
    and "\<forall>m. cl_alloc lib m" and "int (length (concat ds)) \<le> int_max"
    and "partial_sink (\<lambda>n. gl_send gfs n c) sent good"
    and "good (snd (gl_sendheader gfs n c GF_OK (int (length (concat ds)))))"
    and "sent (snd (gl_sendheader gfs n c GF_OK (int (length (concat ds))))) = sent n @ ok_header (length (concat ds))"
  shows "\<exists>n'. handle_with_curl lib gfs c (Some p) data_dir n = Inr (int (length (concat ds)), n') \<and>
    sent n' = sent n @ ok_header (length (concat ds)) @ concat ds"
proof -
  let ?f = "concat ds"
  have small: "length ?f < 2 ^ 63" using assms(7) by (simp add: int_max_def)
  have "collected [] \<lparr>memory = Some (fresh_block (cl_junk lib) 1), msize = 0\<rparr>"
    by (simp add: collected_def size_of_nat_def)
  from deliver_collects [OF this assms(6), of ds CURLE_OK] small obtain mem where
    mem: "deliver lib ds CURLE_OK \<lparr>memory = Some (fresh_block (cl_junk lib) 1), msize = 0\<rparr> = Inr (CURLE_OK, mem)"
    and "collected ?f mem" by auto
  then obtain b where b: "memory mem = Some b" "take (length ?f) b = ?f" "length ?f \<le> length b"
    by (auto simp: collected_def)
  obtain n' where "curl_send gfs c b (length ?f) 0 (int 0) (snd (gl_sendheader gfs n c GF_OK (int (length ?f)))) =
      Inr (int (length ?f), n')" "sent n' = (sent n @ ok_header (length ?f)) @ drop 0 ?f"
    using partial_sink.curl_send_complete [OF assms(8) refl assms(7) b(2,3) assms(9), of 0] assms(10) by auto
  then show ?thesis
    using mem b(1) assms(3-5) curl_url_known [OF assms(1,2)] by (simp add: handle_with_curl_def)
qed

definition sample_curl :: curl_lib where
  "sample_curl = \<lparr>cl_fetch = (\<lambda>url. if url = ''h/a'' then (0, [''he'', ''llo'']) else (22, [])), cl_size = (\<lambda>_. (0, 5)),
     cl_alloc = (\<lambda>_. True), cl_junk = (\<lambda>_. CHR ''q'')\<rparr>"

theorem curl_serves_download_witness:
  "\<exists>n'. handle_with_curl sample_curl getfile_lib () (Some ''/a'') ''h'' sample_conn = Inr (5, n') \<and>
    csent n' = ok_header 5 @ ''hello''"
proof -
  have w: "willing sample_conn" by (simp add: willing_def sample_conn_def)
  have "unat (size_of_int 5) = 5" by (simp add: size_of_int_def)
  then have h: "snd (gl_sendheader getfile_lib sample_conn () GF_OK 5) = sample_conn\<lparr>csent := csent sample_conn @ ok_header 5\<rparr>"
    using w by (simp add: getfile_lib_def gfs_sendheader_ok gfs_or_fail_def)
  have l: "length (concat [''he'', ''llo'']) = 5" by simp
  have "eager (sample_conn\<lparr>csent := csent sample_conn @ ok_header 5\<rparr>)" by (simp add: eager_def sample_conn_def)
  then show ?thesis
    using curl_serves_download [of "''h''" "''/a''" sample_curl "[''he'', ''llo'']" getfile_lib "()" csent eager sample_conn,
        unfolded l] slow.partial_sink_axioms h
    by (simp add: sample_curl_def CURLE_OK_def int_max_def sample_conn_def)
qed



end
