(* ===== verification/MtClient.thy ===== *)
theory MtClient
  imports Getopt Steque Download
begin

text \<open>
  The multithreaded download client \<open>multithreadgetfile/gfclient_download.c\<close>: options, the
  queue of paths that \<open>main\<close> fills, and the worker threads as a step relation. The client
  library it is linked with is an object file there, so it is a parameter: what
  \<open>gfc_perform\<close> gives for a request, and whether \<open>gfc_cleanup\<close> frees the request itself.
  \<open>localPath\<close>, \<open>openFile\<close> and the workload are the same code as in the single-threaded client.
\<close>

section \<open>Options\<close>

definition mc_defaults :: dl_opts where
  "mc_defaults = \<lparr>o_server = ''localhost'', o_port = 8888, o_workload = ''workload.txt'',
     o_nrequests = 1, o_nthreads = 1\<rparr>"

definition mc_option :: "char \<times> string \<Rightarrow> dl_opts \<Rightarrow> cfault + dl_opts" where
  "mc_option x opts =
     (let (c, optarg) = x in
      if c = CHR ''s'' then Inr (opts\<lparr>o_server := optarg\<rparr>)
      else if c = CHR ''p'' then Inr (opts\<lparr>o_port := word_of_int (atoi optarg)\<rparr>)
      else if c = CHR ''w'' then Inr (opts\<lparr>o_workload := optarg\<rparr>)
      else if c = CHR ''n'' then Inr (opts\<lparr>o_nrequests := atoi optarg\<rparr>)
      else if c = CHR ''t'' then Inr (opts\<lparr>o_nthreads := atoi optarg\<rparr>)
      else if c = CHR ''h'' then Inl (Exit_program 0)
      else Inl (Exit_program 1))"

definition mc_long :: "long_option list" where
  "mc_long =
    [(''server'', Required_argument, CHR ''s''),
     (''port'', Required_argument, CHR ''p''),
     (''workload-path'', Required_argument, CHR ''w''),
     (''nthreads'', Required_argument, CHR ''t''),
     (''nrequests'', Required_argument, CHR ''n''),
     (''help'', No_argument, CHR ''h'')]"

definition mc_options :: "string list \<Rightarrow> cfault + dl_opts" where
  "mc_options argv = foldE mc_option (getopt_long ''s:p:w:n:t:h'' mc_long argv) mc_defaults"

section \<open>Filling the queue\<close>

primrec mc_enqueue :: "nat \<Rightarrow> workload \<Rightarrow> string option qstate \<Rightarrow> cfault + workload \<times> string option qstate" where
  "mc_enqueue 0 w q = Inr (w, q)"
| "mc_enqueue (Suc n) w q =
     bindE (workload_get_path 0 w) (\<lambda>(req_path, w1).
     case req_path of
       None \<Rightarrow> Inl Null_deref
     | Some rp \<Rightarrow>
         if REQUEST_MAX < length rp then Inl (Exit_program EXIT_FAILURE)
         else bindE (steque_enqueue q (Some rp)) (\<lambda>q1. mc_enqueue n w1 q1))"

text \<open>\<open>main\<close> up to the creation of the threads. An array of no threads is not a C object.\<close>

definition mc_setup :: "(string \<Rightarrow> string option) \<Rightarrow> string list \<Rightarrow> cfault + dl_opts \<times> string option qstate" where
  "mc_setup read_file argv =
     bindE (mc_options argv) (\<lambda>opts.
     bindE (workload_init (read_file (o_workload opts)) workload_start) (\<lambda>(r, w).
     if r \<noteq> EXIT_SUCCESS then Inl (Exit_program EXIT_FAILURE)
     else bindE (c_int (o_nrequests opts * o_nthreads opts)) (\<lambda>k.
       bindE (mc_enqueue (nat k) w (steque_init, empty_heap)) (\<lambda>(_, q).
       bindE (assertE Out_of_bounds (0 < o_nthreads opts)) (\<lambda>_. Inr (opts, q))))))"

section \<open>The workers\<close>

text \<open>What the library does with one request: its result, the status and the blocks for the callback.\<close>

record gfc_answer =
  ga_code :: int
  ga_status :: gfstatus_t
  ga_chunks :: "char list list"

record mc_job =
  mj_path :: string
  mj_name :: string      \<comment> \<open>\<open>local_path\<close>, and the file open for it\<close>
  mj_number :: nat       \<comment> \<open>what the counter of \<open>localPath\<close> was\<close>

text \<open>\<open>me_perform\<close> is \<open>None\<close> when the library waits for ever.\<close>

record 'd mc_env =
  me_opts :: dl_opts
  me_perform :: "string \<Rightarrow> 16 word \<Rightarrow> mc_job \<Rightarrow> gfc_answer option"
  me_cleanup_frees :: bool
  me_os :: "'d os"
  me_junk :: "nat \<Rightarrow> char"

datatype mc_pc =
    M_loop nat                    \<comment> \<open>at the loop's test, with the loop's counter\<close>
  | M_lock nat
  | M_test nat                    \<comment> \<open>holds the lock from here\<close>
  | M_break nat                   \<comment> \<open>the queue was empty\<close>
  | M_pop nat
  | M_open nat string
  | M_unlock nat mc_job
  | M_perform nat mc_job          \<comment> \<open>the lock is released\<close>
  | M_finish nat mc_job gfc_answer
  | M_exit nat

record 'd mc_state =
  mc_queue :: "string option qstate"
  mc_lock :: "nat option"
  mc_pc :: "nat \<Rightarrow> mc_pc"
  mc_counter :: int               \<comment> \<open>the static counter of \<open>localPath\<close>\<close>
  mc_disk :: 'd
  mc_fault :: "cfault option"     \<comment> \<open>the process has ended with it\<close>
  mc_taken :: "string list"       \<comment> \<open>history: the paths taken from the queue\<close>
  mc_jobs :: "mc_job list"        \<comment> \<open>history: the requests made of them\<close>
  mc_done :: "mc_job list"        \<comment> \<open>history: the requests that are finished\<close>

definition set_pc :: "nat \<Rightarrow> mc_pc \<Rightarrow> 'd mc_state \<Rightarrow> 'd mc_state" where
  "set_pc w pc s = s\<lparr>mc_pc := (mc_pc s)(w := pc)\<rparr>"

definition crash :: "cfault \<Rightarrow> 'd mc_state \<Rightarrow> 'd mc_state" where
  "crash e s = s\<lparr>mc_fault := Some e\<rparr>"

text \<open>The local name and the open file of a request, made with the lock held.\<close>

definition mc_open :: "'d mc_env \<Rightarrow> string \<Rightarrow> int \<Rightarrow> 'd \<Rightarrow> cfault + mc_job \<times> int \<times> 'd" where
  "mc_open env treq_path k d =
     bindE (localPath treq_path k (me_junk env)) (\<lambda>(local_path, k1).
     bindE (openFile (me_os env) local_path d) (\<lambda>(local_path1, d1).
     bindE (cstr_at local_path1 0) (\<lambda>name.
     Inr (\<lparr>mj_path = treq_path, mj_name = name, mj_number = nat k\<rparr>, k1, d1))))"

text \<open>Behind \<open>gfc_perform\<close>: a failed or refused download removes the file; then the clean-up.\<close>

definition mc_finish :: "'d mc_env \<Rightarrow> mc_job \<Rightarrow> gfc_answer \<Rightarrow> 'd \<Rightarrow> cfault + 'd" where
  "mc_finish env job r d =
     (let d1 = (if ga_code r < 0 then snd (os_unlink (me_os env) d (mj_name job)) else d);
          d2 = (if ga_status r \<noteq> OK then snd (os_unlink (me_os env) d1 (mj_name job)) else d1)
      in if me_cleanup_frees env then Inl Use_after_free else Inr d2)"

text \<open>The next step of thread \<open>w\<close>; \<open>None\<close> when it has to wait, or has returned.\<close>

definition mc_move :: "'d mc_env \<Rightarrow> nat \<Rightarrow> 'd mc_state \<Rightarrow> 'd mc_state option" where
  "mc_move env w s =
     (case mc_pc s w of
        M_loop i \<Rightarrow> Some (set_pc w (if int i < o_nrequests (me_opts env) then M_lock i else M_exit i) s)
      | M_lock i \<Rightarrow> if mc_lock s = None then Some ((set_pc w (M_test i) s)\<lparr>mc_lock := Some w\<rparr>) else None
      | M_test i \<Rightarrow> Some (set_pc w (if steque_isempty (mc_queue s) then M_break i else M_pop i) s)
      | M_break i \<Rightarrow> Some ((set_pc w (M_exit i) s)\<lparr>mc_lock := None\<rparr>)
      | M_pop i \<Rightarrow> Some (case steque_pop (mc_queue s) of
            Inl e \<Rightarrow> crash e s
          | Inr (None, q) \<Rightarrow> (set_pc w (M_exit i) s)\<lparr>mc_queue := q\<rparr>
          | Inr (Some rp, q) \<Rightarrow> (set_pc w (M_open i rp) s)\<lparr>mc_queue := q, mc_taken := mc_taken s @ [rp]\<rparr>)
      | M_open i rp \<Rightarrow> Some (case mc_open env rp (mc_counter s) (mc_disk s) of
            Inl e \<Rightarrow> crash e s
          | Inr (job, k, d) \<Rightarrow> (set_pc w (M_unlock i job) s)\<lparr>mc_counter := k, mc_disk := d, mc_jobs := mc_jobs s @ [job]\<rparr>)
      | M_unlock i job \<Rightarrow> Some ((set_pc w (M_perform i job) s)\<lparr>mc_lock := None\<rparr>)
      | M_perform i job \<Rightarrow>
          (case me_perform env (o_server (me_opts env)) (o_port (me_opts env)) job of
             None \<Rightarrow> None
           | Some r \<Rightarrow> Some ((set_pc w (M_finish i job r) s)
               \<lparr>mc_disk := write_events (me_os env) (mj_name job) (map Write_cb (ga_chunks r)) (mc_disk s)\<rparr>))
      | M_finish i job r \<Rightarrow> Some (case mc_finish env job r (mc_disk s) of
            Inl e \<Rightarrow> crash e s
          | Inr d \<Rightarrow> (set_pc w (M_loop (Suc i)) s)\<lparr>mc_disk := d, mc_done := mc_done s @ [job]\<rparr>)
      | M_exit i \<Rightarrow> None)"

text \<open>\<open>n\<close> is the number of threads \<open>main\<close> managed to create; they run in any order.\<close>

definition mc_start :: "nat \<Rightarrow> string option qstate \<Rightarrow> 'd \<Rightarrow> 'd mc_state" where
  "mc_start n q d = \<lparr>mc_queue = q, mc_lock = None, mc_pc = (\<lambda>w. if w < n then M_loop 0 else M_exit 0), mc_counter = 0,
     mc_disk = d, mc_fault = None, mc_taken = [], mc_jobs = [], mc_done = []\<rparr>"

inductive mc_step :: "'d mc_env \<Rightarrow> 'd mc_state \<Rightarrow> 'd mc_state \<Rightarrow> bool" for env :: "'d mc_env" where
  thread: "mc_fault s = None \<Longrightarrow> mc_move env w s = Some s' \<Longrightarrow> mc_step env s s'"

inductive_cases mc_stepE: "mc_step env s s'"

section \<open>Invariants\<close>

definition mc_inside :: "mc_pc \<Rightarrow> bool" where
  "mc_inside pc = (case pc of M_test _ \<Rightarrow> True | M_break _ \<Rightarrow> True | M_pop _ \<Rightarrow> True | M_open _ _ \<Rightarrow> True
     | M_unlock _ _ \<Rightarrow> True | _ \<Rightarrow> False)"

text \<open>The path that was taken from the queue and has no request yet.\<close>

definition in_opening :: "'d mc_state \<Rightarrow> string list" where
  "in_opening s = (case mc_lock s of None \<Rightarrow> []
     | Some w \<Rightarrow> (case mc_pc s w of M_open _ rp \<Rightarrow> [rp] | _ \<Rightarrow> []))"

definition pc_queue_ok :: "string option list \<Rightarrow> mc_pc \<Rightarrow> bool" where
  "pc_queue_ok xs pc = (case pc of M_pop _ \<Rightarrow> xs \<noteq> [] | M_break _ \<Rightarrow> xs = [] | _ \<Rightarrow> True)"

text \<open>The lock protects the queue, and the queue loses nothing: taken and waiting are what \<open>main\<close> put in.\<close>

definition mc_inv :: "string list \<Rightarrow> 'd mc_state \<Rightarrow> bool" where
  "mc_inv reqs s \<longleftrightarrow>
     steque_inv (mc_queue s) \<and>
     map Some reqs = map Some (mc_taken s) @ steque_elems (mc_queue s) \<and>
     (\<forall>w. mc_inside (mc_pc s w) \<longleftrightarrow> mc_lock s = Some w) \<and>
     (\<forall>w. pc_queue_ok (steque_elems (mc_queue s)) (mc_pc s w)) \<and>
     mc_taken s = map mj_path (mc_jobs s) @ in_opening s"

lemma mc_inv_start:
  assumes "steque_inv q" and "steque_elems q = map Some reqs"
  shows "mc_inv reqs (mc_start n q d)"
  using assms by (auto simp: mc_inv_def mc_start_def mc_inside_def pc_queue_ok_def in_opening_def)

lemma mc_lock_holder: "mc_inv reqs s \<Longrightarrow> mc_inside (mc_pc s w) \<Longrightarrow> mc_lock s = Some w"
  by (simp add: mc_inv_def)

lemma mc_alone: "mc_inv reqs s \<Longrightarrow> mc_inside (mc_pc s w) \<Longrightarrow> v \<noteq> w \<Longrightarrow> \<not> mc_inside (mc_pc s v)"
  by (auto simp: mc_inv_def)

lemma pc_queue_ok_outside: "\<not> mc_inside pc \<Longrightarrow> pc_queue_ok xs pc"
  by (simp add: mc_inside_def pc_queue_ok_def split: mc_pc.splits)

text \<open>A thread that does not hold the lock moves on without it.\<close>

lemma mc_inv_outside:
  assumes "mc_inv reqs s" and "\<not> mc_inside (mc_pc s w)" and "\<not> mc_inside pc"
  shows "mc_inv reqs ((set_pc w pc s)\<lparr>mc_disk := d, mc_done := js\<rparr>)"
proof -
  have "in_opening ((set_pc w pc s)\<lparr>mc_disk := d, mc_done := js\<rparr>) = in_opening s"
    using assms by (auto simp: in_opening_def set_pc_def mc_inv_def split: option.splits)
  then show ?thesis using assms pc_queue_ok_outside [OF assms(3)]
    by (auto simp: mc_inv_def set_pc_def)
qed

lemmas mc_steps = mc_move_def set_pc_def crash_def mc_inside_def pc_queue_ok_def in_opening_def

lemma mc_inv_crash: "mc_inv reqs (crash e s) \<longleftrightarrow> mc_inv reqs s"
  by (simp add: mc_inv_def crash_def in_opening_def cong: option.case_cong mc_pc.case_cong)

text \<open>A thread gives the lock back.\<close>

lemma mc_inv_release:
  assumes inv: "mc_inv reqs s" and i: "mc_inside (mc_pc s w)" and "\<forall>j rp. mc_pc s w \<noteq> M_open j rp" and o: "\<not> mc_inside pc"
  shows "mc_inv reqs ((set_pc w pc s)\<lparr>mc_lock := None\<rparr>)"
proof -
  have "in_opening s = []" using mc_lock_holder [OF inv i] assms(3) by (simp add: in_opening_def split: mc_pc.splits)
  then show ?thesis using inv o mc_lock_holder [OF inv i] pc_queue_ok_outside [OF o]
    by (auto simp: mc_inv_def set_pc_def in_opening_def)
qed

lemma mc_inv_move:
  assumes inv: "mc_inv reqs s" and m: "mc_move env w s = Some s'"
  shows "mc_inv reqs s'"
proof (cases "mc_inside (mc_pc s w)")
  case False
  show ?thesis
  proof (cases "mc_pc s w")
    case (M_lock i)
    with m have s': "mc_lock s = None" "s' = (set_pc w (M_test i) s)\<lparr>mc_lock := Some w\<rparr>"
      by (auto simp: mc_move_def split: if_splits)
    with inv have "\<not> mc_inside (mc_pc s v)" for v by (simp add: mc_inv_def)
    with inv s' show ?thesis by (auto simp: mc_inv_def set_pc_def mc_inside_def pc_queue_ok_def in_opening_def)
  next
    case (M_loop i)
    with m mc_inv_outside [OF inv False, where pc = "if int i < o_nrequests (me_opts env) then M_lock i else M_exit i" and d = "mc_disk s" and js = "mc_done s"]
    show ?thesis by (auto simp: mc_move_def mc_inside_def set_pc_def)
  next
    case (M_perform i job)
    with m mc_inv_outside [OF inv False, of "M_finish i job r" "mc_done s" d for r d]
    show ?thesis by (auto simp: mc_move_def mc_inside_def set_pc_def split: option.splits)
  next
    case (M_finish i job r)
    with m inv mc_inv_outside [OF inv False, of "M_loop (Suc i)" "mc_done s @ [job]" d for d]
    show ?thesis by (auto simp: mc_move_def mc_inside_def set_pc_def mc_inv_crash split: sum.splits)
  qed (use m False in \<open>auto simp: mc_move_def mc_inside_def\<close>)
next
  case True
  note lock = mc_lock_holder [OF inv True] and alone = mc_alone [OF inv True]
  have others: "pc_queue_ok xs (mc_pc s v)" if "v \<noteq> w" for v xs
    by (rule pc_queue_ok_outside [OF alone [OF that]])
  show ?thesis
  proof (cases "mc_pc s w")
    case (M_test i)
    have "steque_isempty (mc_queue s) \<longleftrightarrow> steque_elems (mc_queue s) = []"
      using inv by (intro sq.isempty_iff) (simp add: mc_inv_def)
    with m inv lock M_test others show ?thesis
      by (auto simp: mc_inv_def mc_steps split: if_splits)
  next
    case (M_pop i)
    obtain x xs where e: "steque_elems (mc_queue s) = x # xs"
      using inv M_pop by (auto simp: mc_inv_def pc_queue_ok_def neq_Nil_conv dest!: spec [of _ w])
    obtain q where q: "steque_pop (mc_queue s) = Inr (x, q)" "steque_inv q" "steque_elems q = xs"
      using sq.deq_elems [OF _ e] inv by (auto simp: mc_inv_def)
    have "x \<in> Some ` set reqs" using inv e by (metis mc_inv_def list.set_map in_set_conv_decomp)
    then obtain rp where "x = Some rp" by auto
    with m inv lock M_pop others e q show ?thesis
      by (auto simp: mc_inv_def mc_steps)
  next
    case (M_open i rp)
    show ?thesis
    proof (cases "mc_open env rp (mc_counter s) (mc_disk s)")
      case (Inl e)
      with m M_open inv show ?thesis by (auto simp: mc_move_def mc_inv_crash)
    next
      case (Inr r)
      then obtain job k d where r: "r = (job, k, d)" "mj_path job = rp"
        by (cases r) (auto simp: mc_open_def elim!: bindE_eq_InrE)
      with m M_open inv lock others Inr show ?thesis by (auto simp: mc_inv_def mc_steps)
    qed
  next
    case (M_break i)
    with m mc_inv_release [OF inv True, of "M_exit i"] show ?thesis by (simp add: mc_move_def mc_inside_def)
  next
    case (M_unlock i job)
    with m mc_inv_release [OF inv True, of "M_perform i job"] show ?thesis by (simp add: mc_move_def mc_inside_def)
  qed (use True in \<open>simp_all add: mc_inside_def\<close>)
qed

text \<open>What \<open>main\<close> puts into the queue.\<close>

definition valid_requests :: "string list \<Rightarrow> bool" where
  "valid_requests reqs \<longleftrightarrow> int (length reqs) \<le> int_max \<and>
     (\<forall>r \<in> set reqs. r \<noteq> [] \<and> length r \<le> 256 \<and> NUL \<notin> set r)"

lemma mc_open_known:
  assumes "mc_open env rp (int k) d = Inr (job, k', d')"
    and "rp \<noteq> []" and "length rp \<le> 256" and "NUL \<notin> set rp" and "int k < int_max"
  shows "job = \<lparr>mj_path = rp, mj_name = local_name rp k, mj_number = k\<rparr> \<and> k' = int k + 1"
proof -
  obtain post where p: "localPath rp (int k) (me_junk env) = Inr (local_name rp k @ NUL # post, int k + 1)"
    using localPath_known [OF assms(2-5)] by blast
  have ne: "local_name rp k \<noteq> []" by (simp add: local_name_def)
  have "openFile (me_os env) (local_name rp k @ NUL # post) d = Inr (b, d1) \<Longrightarrow> b = local_name rp k @ NUL # post" for b d1
    using openFile_makes_parents [OF local_name_no_NUL [OF assms(4), of k] ne, of "me_os env" post d]
    by (auto elim!: bindE_eq_InrE split: prod.splits if_splits)
  with assms(1) p cstr_at_start [OF local_name_no_NUL [OF assms(4), of k], of post] show ?thesis
    by (auto simp: mc_open_def elim!: bindE_eq_InrE)
qed

text \<open>The requests are numbered in the order of the queue, and so are their files.\<close>

definition mc_named :: "'d mc_state \<Rightarrow> bool" where
  "mc_named s \<longleftrightarrow> mc_counter s = int (length (mc_jobs s)) \<and>
     (\<forall>k < length (mc_jobs s). mj_number (mc_jobs s ! k) = k \<and>
        mj_name (mc_jobs s ! k) = local_name (mj_path (mc_jobs s ! k)) k)"

lemma mc_named_move:
  assumes v: "valid_requests reqs" and inv: "mc_inv reqs s" and "mc_named s" and m: "mc_move env w s = Some s'"
  shows "mc_named s'"
proof (cases "mc_pc s w")
  case (M_open i rp)
  have lock: "mc_lock s = Some w" using M_open inv by (intro mc_lock_holder) (simp_all add: mc_inside_def)
  then have t: "mc_taken s = map mj_path (mc_jobs s) @ [rp]"
    using inv M_open by (simp add: mc_inv_def in_opening_def)
  have "map Some reqs = map Some (mc_taken s) @ steque_elems (mc_queue s)" using inv by (simp add: mc_inv_def)
  then have "Some ` set reqs = Some ` set (mc_taken s) \<union> set (steque_elems (mc_queue s))"
    and l: "length reqs = length (mc_taken s) + length (steque_elems (mc_queue s))"
    by (metis list.set_map set_append, metis length_append length_map)
  then have "rp \<in> set reqs" and "length (mc_jobs s) < length reqs" using t by auto
  with v have rp: "rp \<noteq> []" "length rp \<le> 256" "NUL \<notin> set rp" "int (length (mc_jobs s)) < int_max"
    by (auto simp: valid_requests_def)
  have c: "mc_counter s = int (length (mc_jobs s))" using assms(3) by (simp add: mc_named_def)
  show ?thesis
  proof (cases "mc_open env rp (mc_counter s) (mc_disk s)")
    case (Inl e)
    with m M_open assms(3) show ?thesis by (auto simp: mc_move_def mc_named_def crash_def)
  next
    case (Inr r)
    obtain job k d where r: "r = (job, k, d)" by (cases r)
    from mc_open_known [OF Inr [unfolded c r] rp] m M_open assms(3) Inr r
    show ?thesis by (auto simp: mc_move_def mc_named_def set_pc_def nth_append less_Suc_eq c)
  qed
qed (use assms(3) m in \<open>auto simp: mc_move_def mc_named_def set_pc_def crash_def split: if_splits sum.splits option.splits\<close>)

section \<open>Every request is in one place\<close>

definition in_work :: "mc_pc \<Rightarrow> mc_job multiset" where
  "in_work pc = (case pc of M_unlock _ job \<Rightarrow> {#job#} | M_perform _ job \<Rightarrow> {#job#} | M_finish _ job _ \<Rightarrow> {#job#} | _ \<Rightarrow> {#})"

definition turns :: "mc_pc \<Rightarrow> nat" where
  "turns pc = (case pc of M_loop i \<Rightarrow> i | M_lock i \<Rightarrow> i | M_test i \<Rightarrow> i | M_break i \<Rightarrow> i | M_pop i \<Rightarrow> i | M_open i _ \<Rightarrow> i
     | M_unlock i _ \<Rightarrow> i | M_perform i _ \<Rightarrow> i | M_finish i _ _ \<Rightarrow> i | M_exit i \<Rightarrow> i)"

definition turns_ok :: "nat \<Rightarrow> string option list \<Rightarrow> mc_pc \<Rightarrow> bool" where
  "turns_ok R xs pc = (case pc of M_loop i \<Rightarrow> i \<le> R | M_exit i \<Rightarrow> i = R \<or> (i < R \<and> xs = []) | _ \<Rightarrow> turns pc < R)"

definition mc_counted :: "nat \<Rightarrow> nat \<Rightarrow> 'd mc_state \<Rightarrow> bool" where
  "mc_counted R n s \<longleftrightarrow>
     (\<forall>w \<ge> n. mc_pc s w = M_exit 0) \<and>
     (\<forall>w < n. turns_ok R (steque_elems (mc_queue s)) (mc_pc s w)) \<and>
     mset (mc_jobs s) = mset (mc_done s) + (\<Sum>w<n. in_work (mc_pc s w)) \<and>
     length (mc_done s) = (\<Sum>w<n. turns (mc_pc s w))"

lemma sum_pc_upd:
  fixes f :: "mc_pc \<Rightarrow> 'b :: comm_monoid_add" and w n :: nat
  assumes "w < n"
  shows "(\<Sum>v<n. f ((g(w := pc)) v)) + f (g w) = (\<Sum>v<n. f (g v)) + f pc"
proof -
  have "(\<lambda>v. f ((g(w := pc)) v)) = (\<lambda>v. f (g v))(w := f pc)" by auto
  then show ?thesis
    using sum_upd [OF assms, of "\<lambda>v. f (g v)" "f (g w)" "f pc"] by metis
qed

text \<open>A step that changes neither the requests at work nor the turns.\<close>

lemma mc_counted_set_pc:
  assumes c: "mc_counted R n s" and w: "w < n" and "in_work pc = in_work (mc_pc s w)" and "turns pc = turns (mc_pc s w)"
    and "turns_ok R (steque_elems (mc_queue s)) pc"
  shows "mc_counted R n (set_pc w pc s)"
proof -
  note upd = sum_pc_upd [OF w, of _ "mc_pc s" pc]
  have "(\<Sum>v<n. in_work (((mc_pc s)(w := pc)) v)) = (\<Sum>v<n. in_work (mc_pc s v))" using upd [of in_work] assms(3) by simp
  moreover have "(\<Sum>v<n. turns (((mc_pc s)(w := pc)) v)) = (\<Sum>v<n. turns (mc_pc s v))" using upd [of turns] assms(4) by simp
  ultimately show ?thesis using assms by (simp add: mc_counted_def set_pc_def)
qed

lemma mc_counted_crash: "mc_counted R n (crash e s) \<longleftrightarrow> mc_counted R n s"
  by (simp add: mc_counted_def crash_def)

lemma mc_counted_lock: "mc_counted R n (s\<lparr>mc_lock := l\<rparr>) \<longleftrightarrow> mc_counted R n s"
  by (simp add: mc_counted_def)

lemma mc_counted_disk: "mc_counted R n (s\<lparr>mc_disk := d\<rparr>) \<longleftrightarrow> mc_counted R n s"
  by (simp add: mc_counted_def)

lemma in_work_simps [simp]:
  "in_work (M_loop i) = {#}"
  "in_work (M_lock i) = {#}"
  "in_work (M_test i) = {#}"
  "in_work (M_break i) = {#}"
  "in_work (M_pop i) = {#}"
  "in_work (M_open i rp) = {#}"
  "in_work (M_unlock i job) = {#job#}"
  "in_work (M_perform i job) = {#job#}"
  "in_work (M_finish i job r) = {#job#}"
  "in_work (M_exit i) = {#}"
  by (simp_all add: in_work_def)

lemma turns_simps [simp]:
  "turns (M_loop i) = i"
  "turns (M_lock i) = i"
  "turns (M_test i) = i"
  "turns (M_break i) = i"
  "turns (M_pop i) = i"
  "turns (M_open i rp) = i"
  "turns (M_unlock i job) = i"
  "turns (M_perform i job) = i"
  "turns (M_finish i job r) = i"
  "turns (M_exit i) = i"
  by (simp_all add: turns_def)

lemma turns_ok_simps [simp]:
  "turns_ok R xs (M_loop i) \<longleftrightarrow> i \<le> R"
  "turns_ok R xs (M_lock i) \<longleftrightarrow> i < R"
  "turns_ok R xs (M_test i) \<longleftrightarrow> i < R"
  "turns_ok R xs (M_break i) \<longleftrightarrow> i < R"
  "turns_ok R xs (M_pop i) \<longleftrightarrow> i < R"
  "turns_ok R xs (M_open i rp) \<longleftrightarrow> i < R"
  "turns_ok R xs (M_unlock i job) \<longleftrightarrow> i < R"
  "turns_ok R xs (M_perform i job) \<longleftrightarrow> i < R"
  "turns_ok R xs (M_finish i job r) \<longleftrightarrow> i < R"
  "turns_ok R xs (M_exit i) \<longleftrightarrow> (i = R \<or> (i < R \<and> xs = []))"
  by (simp_all add: turns_ok_def)

text \<open>Taking from a queue that was not empty.\<close>

lemma mc_counted_pop:
  assumes c: "mc_counted R n s" and w: "w < n" and "mc_pc s w = M_pop i" and "steque_elems (mc_queue s) \<noteq> []"
    and "in_work pc = {#}" and "turns pc = i" and "turns_ok R (steque_elems q) pc"
  shows "mc_counted R n ((set_pc w pc s)\<lparr>mc_queue := q, mc_taken := t\<rparr>)"
proof -
  have "turns_ok R (steque_elems q) (mc_pc s v)" if "v < n" for v
  proof -
    have "turns_ok R (steque_elems (mc_queue s)) (mc_pc s v)" using c that by (simp add: mc_counted_def)
    then show ?thesis using assms(4) by (cases "mc_pc s v") simp_all
  qed
  moreover have "(\<Sum>v<n. in_work (((mc_pc s)(w := pc)) v)) = (\<Sum>v<n. in_work (mc_pc s v))"
    using sum_pc_upd [OF w, of in_work "mc_pc s" pc] assms(3,5) by simp
  moreover have "(\<Sum>v<n. turns (((mc_pc s)(w := pc)) v)) = (\<Sum>v<n. turns (mc_pc s v))"
    using sum_pc_upd [OF w, of turns "mc_pc s" pc] assms(3,6) by simp
  ultimately show ?thesis using c assms(7) w by (simp add: mc_counted_def set_pc_def)
qed

lemma mc_counted_move:
  assumes inv: "mc_inv reqs s" and c: "mc_counted R n s" and R: "R = nat (o_nrequests (me_opts env))"
    and m: "mc_move env w s = Some s'"
  shows "mc_counted R n s'"
proof -
  have w: "w < n" using c m by (rule_tac ccontr) (simp add: mc_counted_def mc_move_def)
  have ok: "turns_ok R (steque_elems (mc_queue s)) (mc_pc s w)" using c w by (simp add: mc_counted_def)
  have q: "pc_queue_ok (steque_elems (mc_queue s)) (mc_pc s w)" using inv by (simp add: mc_inv_def)
  note keep = mc_counted_set_pc [OF c w]
  show ?thesis
  proof (cases "mc_pc s w")
    case (M_loop i)
    have "int i < o_nrequests (me_opts env) \<longleftrightarrow> i < R" using R by linarith
    with m M_loop ok keep [of "M_lock i"] keep [of "M_exit i"] show ?thesis
      by (auto simp: mc_move_def split: if_splits)
  next
    case (M_pop i)
    with q have ne: "steque_elems (mc_queue s) \<noteq> []" by (simp add: pc_queue_ok_def)
    then obtain x xs where e: "steque_elems (mc_queue s) = x # xs" by (cases "steque_elems (mc_queue s)") auto
    obtain q' where q': "steque_pop (mc_queue s) = Inr (x, q')"
      using sq.deq_elems [OF _ e] inv by (auto simp: mc_inv_def)
    have "x \<in> Some ` set reqs" using inv e by (metis mc_inv_def list.set_map in_set_conv_decomp)
    then obtain rp where "x = Some rp" by auto
    with m M_pop q' ok mc_counted_pop [OF c w M_pop ne, of "M_open i rp" q' "mc_taken s @ [rp]"] show ?thesis
      by (simp add: mc_move_def)
  next
    case (M_open i rp)
    show ?thesis
    proof (cases "mc_open env rp (mc_counter s) (mc_disk s)")
      case (Inl e)
      with m M_open c show ?thesis by (auto simp: mc_move_def mc_counted_crash)
    next
      case (Inr r)
      obtain job k d where r: "r = (job, k, d)" by (cases r)
      from sum_pc_upd [OF w, of in_work "mc_pc s" "M_unlock i job"] sum_pc_upd [OF w, of turns "mc_pc s" "M_unlock i job"]
        m M_open c ok Inr r
      show ?thesis by (auto simp: mc_move_def mc_counted_def set_pc_def)
    qed
  next
    case (M_finish i job r)
    show ?thesis
    proof (cases "mc_finish env job r (mc_disk s)")
      case (Inl e)
      with m M_finish c show ?thesis by (auto simp: mc_move_def mc_counted_crash)
    next
      case (Inr d)
      from sum_pc_upd [OF w, of in_work "mc_pc s" "M_loop (Suc i)"] sum_pc_upd [OF w, of turns "mc_pc s" "M_loop (Suc i)"]
        m M_finish c ok Inr
      show ?thesis by (auto simp: mc_move_def mc_counted_def set_pc_def)
    qed
  next
    case (M_lock i)
    with m ok keep [of "M_test i"] show ?thesis
      by (auto simp: mc_move_def mc_counted_lock split: if_splits)
  next
    case (M_test i)
    with m ok keep [of "M_break i"] keep [of "M_pop i"] show ?thesis
      by (auto simp: mc_move_def split: if_splits)
  next
    case (M_break i)
    with m ok q keep [of "M_exit i"] show ?thesis
      by (auto simp: mc_move_def mc_counted_lock pc_queue_ok_def)
  next
    case (M_unlock i job)
    with m ok keep [of "M_perform i job"] show ?thesis by (auto simp: mc_move_def mc_counted_lock)
  next
    case (M_perform i job)
    with m ok keep [of "M_finish i job r" for r] show ?thesis
      by (auto simp: mc_move_def mc_counted_disk split: option.splits)
  qed (use m in \<open>simp add: mc_move_def\<close>)
qed

section \<open>The threads come to an end\<close>

text \<open>How many steps a thread has before it at most, in a loop of \<open>R\<close> turns.\<close>

definition steps_left :: "nat \<Rightarrow> mc_pc \<Rightarrow> nat" where
  "steps_left R pc = (case pc of M_loop i \<Rightarrow> 9 * (R - i) + 9 | M_lock i \<Rightarrow> 9 * (R - i) + 8 | M_test i \<Rightarrow> 9 * (R - i) + 7
     | M_pop i \<Rightarrow> 9 * (R - i) + 6 | M_open i _ \<Rightarrow> 9 * (R - i) + 5 | M_unlock i _ \<Rightarrow> 9 * (R - i) + 4
     | M_perform i _ \<Rightarrow> 9 * (R - i) + 3 | M_finish i _ _ \<Rightarrow> 9 * (R - i) + 2 | M_break i \<Rightarrow> 1 | M_exit _ \<Rightarrow> 0)"

lemma mc_move_steps:
  assumes "turns_ok R xs (mc_pc s w)" and "mc_move env w s = Some s'" and "mc_fault s' = None" and "mc_fault s = None"
  shows "mc_pc s' = (mc_pc s)(w := mc_pc s' w) \<and> steps_left R (mc_pc s' w) < steps_left R (mc_pc s w)"
  using assms
  by (cases "mc_pc s w")
    (auto simp: mc_move_def set_pc_def crash_def steps_left_def turns_ok_def turns_def
      split: if_splits option.splits sum.splits prod.splits)

definition mc_reachable :: "'d mc_env \<Rightarrow> nat \<Rightarrow> string option qstate \<Rightarrow> 'd \<Rightarrow> 'd mc_state \<Rightarrow> bool" where
  "mc_reachable env n q d s \<longleftrightarrow> (mc_step env)\<^sup>*\<^sup>* (mc_start n q d) s"

definition mc_good :: "'d mc_env \<Rightarrow> string list \<Rightarrow> nat \<Rightarrow> 'd mc_state \<Rightarrow> bool" where
  "mc_good env reqs n s \<longleftrightarrow> mc_inv reqs s \<and> mc_named s \<and> mc_counted (nat (o_nrequests (me_opts env))) n s"

lemma mc_good_start:
  assumes "steque_inv q" and "steque_elems q = map Some reqs"
  shows "mc_good env reqs n (mc_start n q d)"
proof -
  have "(\<Sum>w<n. in_work (if w < n then M_loop 0 else M_exit 0)) = {#}"
    and "(\<Sum>w<n. turns (if w < n then M_loop 0 else M_exit 0)) = 0" by simp_all
  then show ?thesis using mc_inv_start [OF assms, of n d]
    by (simp add: mc_good_def mc_named_def mc_counted_def mc_start_def)
qed

lemma mc_good_step:
  assumes "valid_requests reqs" and "mc_step env s s'" and "mc_good env reqs n s"
  shows "mc_good env reqs n s'"
  using assms by (auto simp: mc_good_def elim!: mc_stepE intro: mc_inv_move mc_named_move mc_counted_move)

lemma mc_good_reachable:
  assumes "steque_inv q" and "steque_elems q = map Some reqs" and "valid_requests reqs" and "mc_reachable env n q d s"
  shows "mc_good env reqs n s"
  using assms(4) unfolding mc_reachable_def
  by (induction rule: rtranclp_induct) (auto intro: mc_good_start [OF assms(1,2)] mc_good_step [OF assms(3)])

text \<open>Different requests, different files.\<close>

lemma mc_named_distinct: "mc_named s \<Longrightarrow> distinct (map mj_name (mc_jobs s))"
  by (auto simp: distinct_conv_nth mc_named_def dest: local_name_inj)

text \<open>A bound on all steps of all threads.\<close>

definition mc_work :: "nat \<Rightarrow> nat \<Rightarrow> 'd mc_state \<Rightarrow> nat" where
  "mc_work R n s = (\<Sum>w<n. steps_left R (mc_pc s w)) + (if mc_fault s = None then 1 else 0)"

lemma mc_step_work:
  assumes "mc_good env reqs n s" and "mc_step env s s'" and "R = nat (o_nrequests (me_opts env))"
  shows "mc_work R n s' < mc_work R n s"
  using assms(2)
proof cases
  case (thread w)
  have c: "mc_counted R n s" using assms(1,3) by (simp add: mc_good_def)
  have w: "w < n" using c thread(2) by (rule_tac ccontr) (simp add: mc_counted_def mc_move_def)
  have ok: "turns_ok R (steque_elems (mc_queue s)) (mc_pc s w)" using c w by (simp add: mc_counted_def)
  show ?thesis
  proof (cases "mc_fault s' = None")
    case True
    note st = mc_move_steps [OF ok thread(2) True thread(1)]
    have "(\<Sum>v<n. steps_left R (mc_pc s' v)) + steps_left R (mc_pc s w) =
        (\<Sum>v<n. steps_left R (mc_pc s v)) + steps_left R (mc_pc s' w)"
      using sum_pc_upd [OF w, of "steps_left R" "mc_pc s" "mc_pc s' w"] st by metis
    then show ?thesis using st True thread(1) by (simp add: mc_work_def)
  next
    case False
    then have "mc_pc s' = mc_pc s"
      using thread by (auto simp: mc_move_def set_pc_def crash_def split: mc_pc.splits if_splits option.splits sum.splits prod.splits)
    then show ?thesis using False thread(1) by (simp add: mc_work_def)
  qed
qed

lemma mc_run_work:
  assumes "valid_requests reqs" and "R = nat (o_nrequests (me_opts env))"
  shows "(mc_step env ^^ k) s s' \<Longrightarrow> mc_good env reqs n s \<Longrightarrow> mc_work R n s' + k \<le> mc_work R n s \<and> mc_good env reqs n s'"
proof (induction k arbitrary: s')
  case (Suc k)
  then obtain t where "(mc_step env ^^ k) s t" "mc_step env t s'" by auto
  with Suc mc_step_work [OF _ _ assms(2), of reqs n t s'] mc_good_step [OF assms(1)] show ?case by fastforce
qed simp

text \<open>Somebody can always go on: the holder of the lock, or, when it is free, any thread.\<close>

lemma mc_progress:
  assumes g: "mc_good env reqs n s" and ans: "\<forall>job. me_perform env (o_server (me_opts env)) (o_port (me_opts env)) job \<noteq> None"
    and "\<not> (\<exists>i. mc_pc s w = M_exit i)"
  shows "\<exists>v s'. mc_move env v s = Some s'"
proof (cases "mc_lock s")
  case None
  have "mc_move env w s \<noteq> None" using assms(3) ans None
    by (cases "mc_pc s w") (auto simp: mc_move_def split: option.splits)
  then show ?thesis by blast
next
  case (Some v)
  then have "mc_inside (mc_pc s v)" using g by (simp add: mc_good_def mc_inv_def)
  then have "mc_move env v s \<noteq> None" by (cases "mc_pc s v") (auto simp: mc_move_def mc_inside_def)
  then show ?thesis by blast
qed

text \<open>What has been requested when all threads have returned.\<close>

lemma mc_all_returned:
  assumes g: "mc_good env reqs n s" and R: "R = nat (o_nrequests (me_opts env))" and ex: "\<forall>w. \<exists>i. mc_pc s w = M_exit i"
    and len: "n * R \<le> length reqs"
  shows "mset (mc_done s) = mset (mc_jobs s) \<and> map mj_path (mc_jobs s) = take (n * R) reqs \<and>
    steque_elems (mc_queue s) = map Some (drop (n * R) reqs)"
proof -
  have c: "mc_counted R n s" and i: "mc_inv reqs s" using g R by (simp_all add: mc_good_def)
  have "in_work (mc_pc s w) = {#}" for w using ex [rule_format, of w] by auto
  then have m: "mset (mc_jobs s) = mset (mc_done s)" using c by (simp add: mc_counted_def)
  have "\<not> mc_inside (mc_pc s w)" for w using ex [rule_format, of w] by (auto simp: mc_inside_def)
  then have "mc_lock s = None" using i by (cases "mc_lock s") (auto simp: mc_inv_def)
  then have q: "map Some reqs = map Some (map mj_path (mc_jobs s)) @ steque_elems (mc_queue s)"
    using i by (simp add: mc_inv_def in_opening_def)
  have t: "turns (mc_pc s w) = R \<or> steque_elems (mc_queue s) = []" "turns (mc_pc s w) \<le> R" if "w < n" for w
    using c that ex [rule_format, of w] by (auto simp: mc_counted_def dest!: spec [of _ w])
  have "length (mc_jobs s) = n * R"
  proof (cases "steque_elems (mc_queue s) = []")
    case True
    then have "length (mc_jobs s) = length reqs" using q by (metis append_Nil2 length_map)
    moreover have "length (mc_done s) \<le> n * R"
      using c t(2) sum_bounded_above [of "{..<n}" "\<lambda>w. turns (mc_pc s w)" R] by (simp add: mc_counted_def)
    ultimately show ?thesis using len m by (metis le_antisym size_mset)
  next
    case False
    then have "(\<Sum>w<n. turns (mc_pc s w)) = (\<Sum>w<n. R)" using t(1) by (intro sum.cong) auto
    then show ?thesis using c m by (metis mc_counted_def size_mset sum_constant card_lessThan of_nat_id)
  qed
  then have "take (n * R) (map Some reqs) = map Some (map mj_path (mc_jobs s))"
    and "drop (n * R) (map Some reqs) = steque_elems (mc_queue s)" by (simp_all add: q)
  then have "map Some (take (n * R) reqs) = map Some (map mj_path (mc_jobs s))"
    and "map Some (drop (n * R) reqs) = steque_elems (mc_queue s)" by (simp_all only: take_map drop_map)
  then show ?thesis using m by (simp add: inj_map_eq_map del: map_map)
qed

section \<open>The queue main fills\<close>

lemma mc_enqueue_loaded:
  "loaded ws i w \<Longrightarrow> 0 \<le> i \<Longrightarrow> i + int m \<le> int_max \<Longrightarrow> ws \<noteq> [] \<Longrightarrow> length ws \<le> PATH_SLOTS \<Longrightarrow>
   \<forall>r \<in> set ws. length r \<le> 256 \<Longrightarrow> steque_inv q \<Longrightarrow> length (steque_elems q) + m \<le> nat int_max \<Longrightarrow>
   \<exists>w' q'. mc_enqueue m w q = Inr (w', q') \<and> steque_inv q' \<and>
     steque_elems q' = steque_elems q @ map (\<lambda>j. Some (ws ! nat ((i + 1 + int j) mod int (length ws)))) [0..<m]"
proof (induction m arbitrary: i w q)
  case (Suc m)
  let ?r = "ws ! nat ((i + 1) mod int (length ws))"
  have lt: "i < int_max" using Suc.prems(3) by simp
  obtain w1 where w1: "workload_get_path 0 w = Inr (Some ?r, w1)" "loaded ws (i + 1) w1"
    using get_path_next [OF Suc.prems(1,2) lt Suc.prems(4,5)] by blast
  have "0 < int (length ws)" using Suc.prems(4) by simp
  then have "nat ((i + 1) mod int (length ws)) < length ws" by (simp add: nat_less_iff)
  then have r: "length ?r \<le> 256" using Suc.prems(6) nth_mem by blast
  obtain q1 where q1: "steque_enqueue q (Some ?r) = Inr q1" "steque_inv q1" "steque_elems q1 = steque_elems q @ [Some ?r]"
    using sq.enq_elems [OF Suc.prems(7), of "Some ?r"] Suc.prems(8) by auto
  have "0 \<le> i + 1" "i + 1 + int m \<le> int_max" "length (steque_elems q1) + m \<le> nat int_max"
    using Suc.prems q1(3) by simp_all
  from Suc.IH [OF w1(2) this(1,2) Suc.prems(4-6) q1(2) this(3)] obtain w2 q2 where
    "mc_enqueue m w1 q1 = Inr (w2, q2)" "steque_inv q2"
    "steque_elems q2 = steque_elems q1 @ map (\<lambda>j. Some (ws ! nat ((i + 1 + 1 + int j) mod int (length ws)))) [0..<m]"
    by blast
  moreover have "map (\<lambda>j. Some (ws ! nat ((i + 1 + int j) mod int (length ws)))) [0..<Suc m] =
      Some ?r # map (\<lambda>j. Some (ws ! nat ((i + 1 + 1 + int j) mod int (length ws)))) [0..<m]"
    by (simp add: upt_conv_Cons map_Suc_upt [symmetric] algebra_simps comp_def del: upt_Suc)
  ultimately show ?case using w1 q1 r by (simp add: REQUEST_MAX_def)
qed simp

text \<open>The \<open>m\<close> paths that follow each other in a workload, beginning with its second.\<close>

definition round_of :: "string list \<Rightarrow> nat \<Rightarrow> string list" where
  "round_of ws m = map (\<lambda>j. ws ! (Suc j mod length ws)) [0..<m]"

lemma mc_setup_queue:
  assumes "mc_options argv = Inr opts" and "read_file (o_workload opts) = Some (path_lines ws)"
    and "\<forall>w \<in> set ws. path_word w" and "ws \<noteq> []" and "length ws \<le> 100"
    and "0 \<le> o_nrequests opts" and "0 < o_nthreads opts" and "o_nrequests opts * o_nthreads opts \<le> int_max"
  shows "\<exists>q. mc_setup read_file argv = Inr (opts, q) \<and> steque_inv q \<and>
    steque_elems q = map Some (round_of ws (nat (o_nrequests opts * o_nthreads opts)))"
proof -
  let ?w = "workload_start\<lparr>gWorkloadPathArray := ws, gUniqueWorkloadPaths := of_nat (length ws)\<rparr>"
  let ?m = "o_nrequests opts * o_nthreads opts"
  have init: "workload_init (Some (path_lines ws)) workload_start = Inr (EXIT_SUCCESS, ?w)"
    using workload_read_lines [OF assms(3), of "[]"] assms(5) by (simp add: workload_init_def PATH_SLOTS_def)
  have l: "loaded ws 0 ?w" by (simp add: loaded_def workload_start_def)
  have m: "0 \<le> ?m" using assms(6,7) by simp
  have len: "\<forall>r \<in> set ws. length r \<le> 256" using assms(3) by (auto simp: path_word_def WORD_BUF_def)
  have "nat ((0 + 1 + int j) mod int (length ws)) = Suc j mod length ws" for j
    by (simp add: nat_mod_distrib flip: of_nat_Suc)
  then obtain w' q' where "mc_enqueue (nat ?m) ?w (steque_init, empty_heap) = Inr (w', q')" "steque_inv q'"
    "steque_elems q' = map Some (round_of ws (nat ?m))"
    using mc_enqueue_loaded [OF l, of "nat ?m" "(steque_init, empty_heap)"] m assms(4,5,8) len nat_mono [OF assms(8)]
    by (auto simp: PATH_SLOTS_def steque_init_inv steque_init_elems round_of_def comp_def)
  moreover have "c_int ?m = Inr ?m" using m assms(8) by (simp add: c_int_def int_max_def)
  ultimately show ?thesis using assms init by (cases q') (simp add: mc_setup_def)
qed

lemma round_of_valid:
  assumes "\<forall>w \<in> set ws. path_word w \<and> NUL \<notin> set w" and "ws \<noteq> []" and "int m \<le> int_max"
  shows "valid_requests (round_of ws m)"
proof -
  have "\<forall>r \<in> set (round_of ws m). r \<in> set ws" using assms(2) by (auto simp: round_of_def)
  then show ?thesis using assms(1,3)
    by (auto simp: valid_requests_def path_word_def WORD_BUF_def less_imp_le) (simp add: round_of_def)
qed

section \<open>Properties\<close>

text \<open>A run given by the order in which the threads move.\<close>

primrec mc_run :: "'d mc_env \<Rightarrow> nat list \<Rightarrow> 'd mc_state \<Rightarrow> 'd mc_state option" where
  "mc_run env [] s = Some s"
| "mc_run env (w # ws) s = (if mc_fault s \<noteq> None then None
     else case mc_move env w s of None \<Rightarrow> None | Some s1 \<Rightarrow> mc_run env ws s1)"

lemma mc_run_steps: "mc_run env ws s = Some s' \<Longrightarrow> (mc_step env)\<^sup>*\<^sup>* s s'"
  by (induction ws arbitrary: s)
    (auto split: if_splits option.splits intro: converse_rtranclp_into_rtranclp mc_step.thread)

lemma mc_run_reachable: "mc_run env ws (mc_start n q d) = Some s \<Longrightarrow> mc_reachable env n q d s"
  by (simp add: mc_reachable_def mc_run_steps)

text \<open>Two requests of one thread each, a library that answers at once.\<close>

definition sample_mc :: "bool \<Rightarrow> string list mc_env" where
  "sample_mc frees = \<lparr>me_opts = \<lparr>o_server = ''h'', o_port = 80, o_workload = ''w'', o_nrequests = 1, o_nthreads = 2\<rparr>,
     me_perform = (\<lambda>_ _ _. Some \<lparr>ga_code = 0, ga_status = OK, ga_chunks = [''x'']\<rparr>),
     me_cleanup_frees = frees, me_os = log_os, me_junk = (\<lambda>_. NUL)\<rparr>"

definition sample_q :: "string option qstate" where
  "sample_q = (\<lparr>qfront = Some 0, qback = Some 7, N = 2\<rparr>, \<lparr>cells = [0 \<mapsto> \<lparr>item = Some ''/b'', next_node = Some 7\<rparr>,
     7 \<mapsto> \<lparr>item = Some ''/a'', next_node = None\<rparr>], unused = 8\<rparr>)"

definition sample_run :: "nat list" where
  "sample_run = [0, 1, 0, 0, 0, 0, 0, 1, 1, 1, 1, 1, 0, 1, 1, 0, 0, 1]"

lemma sample_q_ok: "steque_inv sample_q" "steque_elems sample_q = map Some [''/b'', ''/a'']"
  by (simp_all add: sample_q_def steque_inv_def steque_repr_def steque_elems_def steque_nodes_def int_max_def eval_nat_numeral) auto

lemma sample_reqs: "valid_requests [''/b'', ''/a'']"
  by (simp add: valid_requests_def int_max_def)

lemma sample_pops:
  "steque_pop sample_q = Inr (Some ''/b'', \<lparr>qfront = Some 7, qback = Some 7, N = 1\<rparr>,
     \<lparr>cells = [7 \<mapsto> \<lparr>item = Some ''/a'', next_node = None\<rparr>], unused = 8\<rparr>)"
  "steque_pop (\<lparr>qfront = Some 7, qback = Some 7, N = 1\<rparr>, \<lparr>cells = [7 \<mapsto> \<lparr>item = Some ''/a'', next_node = None\<rparr>], unused = 8\<rparr>) =
     Inr (Some ''/a'', \<lparr>qfront = None, qback = None, N = 0\<rparr>, \<lparr>cells = Map.empty, unused = 8\<rparr>)"
  by (auto simp: sample_q_def steque_pop_def load_node_def free_node_def c_int_def int_max_def)

lemma sample_opens:
  "mc_open (sample_mc f) ''/b'' 0 [] = Inr (\<lparr>mj_path = ''/b'', mj_name = ''b-000000'', mj_number = 0\<rparr>, 1, [''b-000000''])"
  "mc_open (sample_mc f) ''/a'' 1 [''b-000000''] =
     Inr (\<lparr>mj_path = ''/a'', mj_name = ''a-000001'', mj_number = 1\<rparr>, 2, [''b-000000'', ''a-000001''])"
proof -
  have n: "local_name ''/b'' 0 = ''b-000000''" "local_name ''/a'' 1 = ''a-000001''"
    by code_simp+
  obtain p where "localPath ''/b'' (int 0) (me_junk (sample_mc f)) = Inr (''b-000000'' @ NUL # p, int 0 + 1)"
    using localPath_known [of "''/b''" 0] n by (auto simp: int_max_def)
  then show "mc_open (sample_mc f) ''/b'' 0 [] =
      Inr (\<lparr>mj_path = ''/b'', mj_name = ''b-000000'', mj_number = 0\<rparr>, 1, [''b-000000''])"
    using openFile_makes_parents [of "''b-000000''" log_os p "[]"] cstr_at_start [of "''b-000000''" p]
    by (simp add: mc_open_def sample_mc_def dir_prefixes_def log_os_def upt_rec)
  obtain p where "localPath ''/a'' (int 1) (me_junk (sample_mc f)) = Inr (''a-000001'' @ NUL # p, int 1 + 1)"
    using localPath_known [of "''/a''" 1] n by (auto simp: int_max_def)
  then show "mc_open (sample_mc f) ''/a'' 1 [''b-000000''] =
      Inr (\<lparr>mj_path = ''/a'', mj_name = ''a-000001'', mj_number = 1\<rparr>, 2, [''b-000000'', ''a-000001''])"
    using openFile_makes_parents [of "''a-000001''" log_os p "[''b-000000'']"] cstr_at_start [of "''a-000001''" p]
    by (simp add: mc_open_def sample_mc_def dir_prefixes_def log_os_def upt_rec)
qed

lemma sample_mc_simps:
  "me_opts (sample_mc f) = \<lparr>o_server = ''h'', o_port = 80, o_workload = ''w'', o_nrequests = 1, o_nthreads = 2\<rparr>"
  "me_perform (sample_mc f) h n job = Some \<lparr>ga_code = 0, ga_status = OK, ga_chunks = [''x'']\<rparr>"
  "me_cleanup_frees (sample_mc f) = f" "me_os (sample_mc f) = log_os"
  by (simp_all add: sample_mc_def)

lemma sample_empty: "\<not> steque_isempty sample_q" "\<not> steque_isempty (\<lparr>qfront = a, qback = b, N = 1\<rparr>, h)"
  by (simp_all add: sample_q_def steque_isempty_def)

lemma sample_end: "\<exists>s. mc_run (sample_mc False) sample_run (mc_start 2 sample_q []) = Some s \<and>
   mc_queue s = (\<lparr>qfront = None, qback = None, N = 0\<rparr>, \<lparr>cells = Map.empty, unused = 8\<rparr>) \<and>
   map mj_name (mc_jobs s) = [''b-000000'', ''a-000001''] \<and>
   map mj_name (mc_done s) = [''a-000001'', ''b-000000''] \<and> (\<forall>w. mc_pc s w = M_exit (if w < 2 then 1 else 0))"
  by (simp add: sample_run_def mc_start_def mc_move_def set_pc_def sample_pops sample_opens sample_mc_simps sample_empty
      mc_finish_def log_os_def less_2_cases_iff)

text \<open>
  C17: In every interleaving of any number of worker threads, at most one is inside the
  critical section, the queue is a well-formed list, every path \<open>main\<close> enqueued was either
  taken or is still waiting, in order, and no two requests ever get the same local file.
\<close>

theorem mc_files_distinct:
  assumes "valid_requests reqs" and "steque_inv q" and "steque_elems q = map Some reqs" and "mc_reachable env n q d s"
  shows "(\<forall>v w. mc_inside (mc_pc s v) \<longrightarrow> mc_inside (mc_pc s w) \<longrightarrow> v = w) \<and> steque_inv (mc_queue s) \<and>
    map Some reqs = map Some (mc_taken s) @ steque_elems (mc_queue s) \<and> distinct (map mj_name (mc_jobs s))"
proof -
  have "mc_good env reqs n s" using mc_good_reachable [OF assms(2,3,1,4)] .
  then show ?thesis using mc_named_distinct by (auto simp: mc_good_def mc_inv_def)
qed

theorem mc_files_distinct_witness:
  "\<exists>s. mc_reachable (sample_mc False) 2 sample_q [] s \<and> map mj_name (mc_jobs s) = [''b-000000'', ''a-000001''] \<and>
     distinct (map mj_name (mc_jobs s)) \<and> steque_inv (mc_queue s)"
proof -
  obtain s where s: "mc_run (sample_mc False) sample_run (mc_start 2 sample_q []) = Some s"
    "map mj_name (mc_jobs s) = [''b-000000'', ''a-000001'']"
    using sample_end by (elim exE conjE) (rule that)
  note r = mc_run_reachable [OF s(1)]
  from mc_files_distinct [OF sample_reqs sample_q_ok r] r s(2) show ?thesis
    by (intro exI [of _ s]) simp
qed

text \<open>
  The threads come to an end: no run is longer than a bound given by the number of
  threads and of turns, and, if the library answers every request, a state in which nobody
  can go on is one in which the process has faulted or every thread has returned. There is
  no deadlock.
\<close>

lemma mc_threads_end:
  assumes "valid_requests reqs" and "steque_inv q" and "steque_elems q = map Some reqs"
    and "\<forall>job. me_perform env (o_server (me_opts env)) (o_port (me_opts env)) job \<noteq> None"
  shows "(\<forall>k s. (mc_step env ^^ k) (mc_start n q d) s \<longrightarrow> k \<le> n * (9 * nat (o_nrequests (me_opts env)) + 9) + 1) \<and>
    (\<forall>s. mc_reachable env n q d s \<longrightarrow> (\<nexists>s'. mc_step env s s') \<longrightarrow>
       mc_fault s \<noteq> None \<or> (\<forall>w. \<exists>i. mc_pc s w = M_exit i))"
proof (intro conjI allI impI)
  fix k s assume run: "(mc_step env ^^ k) (mc_start n q d) s"
  let ?R = "nat (o_nrequests (me_opts env))"
  have "k \<le> mc_work ?R n (mc_start n q d)"
    using mc_run_work [OF assms(1) refl run mc_good_start [OF assms(2,3)]] by simp
  then show "k \<le> n * (9 * ?R + 9) + 1" by (simp add: mc_work_def mc_start_def steps_left_def)
next
  fix s assume r: "mc_reachable env n q d s" and stuck: "\<nexists>s'. mc_step env s s'"
  have "mc_good env reqs n s" using mc_good_reachable [OF assms(2,3,1) r] .
  from mc_progress [OF this assms(4)] stuck show "mc_fault s \<noteq> None \<or> (\<forall>w. \<exists>i. mc_pc s w = M_exit i)"
    by (meson mc_step.thread not_None_eq)
qed

text \<open>What \<open>main\<close> leaves for the threads, and what is left when they have all returned.\<close>

lemma mc_setup_round:
  assumes "mc_options argv = Inr opts" and "read_file (o_workload opts) = Some (path_lines ws)"
    and "\<forall>w \<in> set ws. path_word w \<and> NUL \<notin> set w" and "ws \<noteq> []" and "length ws \<le> 100"
    and "0 \<le> o_nrequests opts" and "0 < o_nthreads opts" and "o_nrequests opts * o_nthreads opts \<le> int_max"
    and "int n \<le> o_nthreads opts"
  shows "\<exists>q. mc_setup read_file argv = Inr (opts, q) \<and> steque_inv q \<and>
    steque_elems q = map Some (round_of ws (nat (o_nrequests opts * o_nthreads opts))) \<and>
    valid_requests (round_of ws (nat (o_nrequests opts * o_nthreads opts))) \<and>
    n * nat (o_nrequests opts) \<le> nat (o_nrequests opts * o_nthreads opts)"
proof -
  let ?m = "nat (o_nrequests opts * o_nthreads opts)" and ?R = "nat (o_nrequests opts)"
  obtain q where q: "mc_setup read_file argv = Inr (opts, q)" "steque_inv q" "steque_elems q = map Some (round_of ws ?m)"
    using mc_setup_queue [of argv opts read_file ws] assms by blast
  have v: "valid_requests (round_of ws ?m)" using assms(3,4,6-8) by (intro round_of_valid) auto
  have "n * ?R \<le> nat (o_nthreads opts) * ?R" using assms(9) by (intro mult_right_mono) linarith+
  also have "\<dots> = ?m" using assms(6,7) by (simp add: nat_mult_distrib)
  finally have "n * ?R \<le> ?m" .
  with q v show ?thesis by blast
qed

lemma mc_round_done:
  assumes "mc_good env (round_of ws m) n s" and "\<forall>w. \<exists>i. mc_pc s w = M_exit i"
    and "R = nat (o_nrequests (me_opts env))" and "n * R \<le> m"
  shows "mset (map mj_path (mc_done s)) = mset (round_of ws (n * R))"
proof -
  have "mset (mc_done s) = mset (mc_jobs s) \<and> map mj_path (mc_jobs s) = take (n * R) (round_of ws m)"
    using mc_all_returned [OF assms(1,3,2)] assms(4) by (simp add: round_of_def)
  moreover have "take (n * R) (round_of ws m) = round_of ws (n * R)" using assms(4) by (simp add: round_of_def take_map)
  ultimately show ?thesis by (metis mset_map)
qed

text \<open>
  From the options and the workload file on: \<open>main\<close> fills the queue with the paths of
  the file, in turn, and when the \<open>n\<close> threads it could create have all returned, exactly the
  first \<open>n * nrequests\<close> of them have been requested and finished, each once. The share of a
  thread that could not be created is not done by the others.
\<close>

lemma mc_downloads_workload:
  assumes "mc_options argv = Inr opts" and "read_file (o_workload opts) = Some (path_lines ws)"
    and "\<forall>w \<in> set ws. path_word w \<and> NUL \<notin> set w" and "ws \<noteq> []" and "length ws \<le> 100"
    and "0 \<le> o_nrequests opts" and "0 < o_nthreads opts" and "o_nrequests opts * o_nthreads opts \<le> int_max"
    and "int n \<le> o_nthreads opts" and "me_opts env = opts"
  shows "\<exists>q. mc_setup read_file argv = Inr (opts, q) \<and>
    (\<forall>s. mc_reachable env n q d s \<longrightarrow> (\<forall>w. \<exists>i. mc_pc s w = M_exit i) \<longrightarrow>
       mset (map mj_path (mc_done s)) = mset (round_of ws (n * nat (o_nrequests opts))))"
proof -
  let ?m = "nat (o_nrequests opts * o_nthreads opts)"
  obtain q where q: "mc_setup read_file argv = Inr (opts, q)" "steque_inv q" "steque_elems q = map Some (round_of ws ?m)"
    and v: "valid_requests (round_of ws ?m)" and le: "n * nat (o_nrequests opts) \<le> ?m"
    using mc_setup_round [where read_file = read_file, OF assms(1-9)] by blast
  from mc_round_done [OF mc_good_reachable [OF q(2,3) v] _ _ le, of env] assms(10) q(1) show ?thesis by blast
qed

text \<open>
  \<open>gfc_cleanup\<close> is followed by \<open>free\<close> of the same request. With a library whose
  \<open>gfc_cleanup\<close> frees it, as the one in \<open>getfile/gfclient.c\<close> does, no request is ever finished
  and the program never ends in order.
\<close>

lemma mc_double_free:
  assumes "valid_requests reqs" and "steque_inv q" and "steque_elems q = map Some reqs"
    and "me_cleanup_frees env" and "mc_reachable env n q d s"
    and "0 < n" and "0 < o_nrequests (me_opts env)" and "n * nat (o_nrequests (me_opts env)) \<le> length reqs"
  shows "mc_done s = [] \<and> (\<exists>w. \<forall>i. mc_pc s w \<noteq> M_exit i)"
proof -
  have none: "mc_done s = []"
    using assms(5) unfolding mc_reachable_def
  proof (induction rule: rtranclp_induct)
    case (step y z)
    then show ?case using assms(4)
      by (auto simp: mc_move_def mc_finish_def set_pc_def crash_def Let_def elim!: mc_stepE
          split: mc_pc.splits if_splits option.splits sum.splits prod.splits)
  qed (simp add: mc_start_def)
  have g: "mc_good env reqs n s" using mc_good_reachable [OF assms(2,3,1,5)] .
  have "\<not> (\<forall>w. \<exists>i. mc_pc s w = M_exit i)"
  proof
    assume "\<forall>w. \<exists>i. mc_pc s w = M_exit i"
    from mc_all_returned [OF g refl this assms(8)] none have "take (n * nat (o_nrequests (me_opts env))) reqs = []" by auto
    then show False using assms(6-8) by auto
  qed
  with none show ?thesis by auto
qed

end
