(* ===== verification/Minify.thy ===== *)
theory Minify
  imports Getopt Steque Workload
begin

text \<open>
  The image minifying client and server of \<open>proj4\<close>: \<open>minifyjpeg_main.c\<close> (options, the list
  of requests, the worker threads), \<open>minify_via_rpc.c\<close> (one remote call), \<open>minifyjpeg.c\<close> and
  \<open>magickminify.c\<close> (what the server does for a call). ImageMagick and the transport of the
  remote call are parameters; the stubs \<open>rpcgen\<close> made are in Rpc, but the
  rule of \<open>xdr_bytes\<close> they rely on, decoding into a block the caller gave, is modelled.
\<close>

section \<open>Requests and files\<close>

text \<open>\<open>outputfilename\<close> is \<open>None\<close> when nothing was ever written into it.\<close>

record minify_request =
  inputfilename :: string
  outputfilename :: "string option"

definition NAME_BUF :: nat where "NAME_BUF = 256"

text \<open>
  \<open>fscanf\<close> with \<open>%s %s\<close>: \<open>EOF\<close> only when there is no word at all; a last word alone fills the
  input name and leaves the output name as \<open>malloc\<close> returned it.
\<close>

definition scan_request :: "string \<Rightarrow> cfault + (minify_request \<times> string) option" where
  "scan_request s =
     (case scan_word s of
        None \<Rightarrow> Inr None
      | Some (inp, s1) \<Rightarrow>
          bindE (assertE Out_of_bounds (length inp < NAME_BUF)) (\<lambda>_.
          case scan_word s1 of
            None \<Rightarrow> Inr (Some (\<lparr>inputfilename = inp, outputfilename = None\<rparr>, []))
          | Some (outp, s2) \<Rightarrow>
              bindE (assertE Out_of_bounds (length outp < NAME_BUF)) (\<lambda>_.
              Inr (Some (\<lparr>inputfilename = inp, outputfilename = Some outp\<rparr>, s2)))))"

lemma scan_request_shorter: "scan_request s = Inr (Some (r, s')) \<Longrightarrow> length s' < length s"
  by (auto simp: scan_request_def split: option.splits elim!: bindE_eq_InrE dest!: scan_word_shorter)

function load_loop :: "string \<Rightarrow> minify_request qstate \<Rightarrow> cfault + minify_request qstate" where
  "load_loop s q =
     (case scan_request s of
        Inl e \<Rightarrow> Inl e
      | Inr None \<Rightarrow> Inr q
      | Inr (Some (req, s1)) \<Rightarrow> bindE (steque_enqueue q req) (load_loop s1))"
  by pat_completeness auto
termination
  by (relation "measure (\<lambda>(s, _). length s)") (auto dest: scan_request_shorter)

declare load_loop.simps [simp del]

definition load_requests :: "string option \<Rightarrow> cfault + minify_request qstate" where
  "load_requests workload_file =
     (case workload_file of
        None \<Rightarrow> Inl (Exit_program EXIT_FAILURE)
      | Some bytes \<Rightarrow> load_loop bytes (steque_init, empty_heap))"

type_synonym files = "string \<rightharpoonup> char list"

definition read_from_file :: "(nat \<Rightarrow> bool) \<Rightarrow> files \<Rightarrow> string \<Rightarrow> cfault + block \<times> nat" where
  "read_from_file alloc d filename =
     (case d filename of
        None \<Rightarrow> Inl (Exit_program EXIT_FAILURE)
      | Some bytes \<Rightarrow>
          if alloc (length bytes) then Inr (bytes, length bytes) else Inl (Exit_program EXIT_FAILURE))"

definition write_to_file :: "(string \<Rightarrow> bool) \<Rightarrow> files \<Rightarrow> string \<Rightarrow> block \<Rightarrow> nat \<Rightarrow> cfault + int \<times> files" where
  "write_to_file writable d filename data len =
     (if \<not> writable filename then Inr (1, d)
      else bindE (get_bytes data 0 len) (\<lambda>bytes. Inr (0, d(filename \<mapsto> bytes))))"

section \<open>The remote call\<close>

text \<open>\<open>xdr_bytes\<close>, decoding: into the caller's block when there is one, else into a new one.\<close>

definition xdr_bytes_decode :: "block option \<Rightarrow> char list \<Rightarrow> cfault + block" where
  "xdr_bytes_decode dst bytes = (case dst of None \<Rightarrow> Inr bytes | Some b \<Rightarrow> put_bytes b 0 bytes)"

text \<open>
  \<open>call\<close> is the remote procedure: the bytes it returns, or \<open>None\<close> when the call is not
  \<open>RPC_SUCCESS\<close>. The length is passed on in 32 bits.
\<close>

definition minify_via_rpc :: "(char list \<Rightarrow> char list option) \<Rightarrow> (nat \<Rightarrow> bool) \<Rightarrow> bool \<Rightarrow> block \<Rightarrow> nat \<Rightarrow> cfault + block \<times> nat" where
  "minify_via_rpc call alloc cl src_val src_len =
     (let dst = (if alloc src_len then Some (replicate src_len NUL) else None) in
      if \<not> cl then Inl Null_deref
      else bindE (get_bytes src_val 0 (src_len mod 2 ^ 32)) (\<lambda>src.
        case call src of
          None \<Rightarrow> Inl (Exit_program 1)
        | Some ans \<Rightarrow> bindE (xdr_bytes_decode dst ans) (\<lambda>dst_val. Inr (dst_val, length ans))))"

definition get_minify_client :: "(string \<Rightarrow> bool) \<Rightarrow> string \<Rightarrow> bool" where
  "get_minify_client clnt_create server = clnt_create server"

text \<open>
  The server: the three calls of ImageMagick, of which the last may be given a null image.
  The second test is made on \<open>image\<close>, not on \<open>resize\<close>.
\<close>

record 'i magick =
  mg_decode :: "char list \<Rightarrow> 'i option"         \<comment> \<open>\<open>BlobToImage\<close>\<close>
  mg_minify :: "'i \<Rightarrow> 'i option"                \<comment> \<open>\<open>MinifyImage\<close>\<close>
  mg_encode :: "'i option \<Rightarrow> cfault + char list option"   \<comment> \<open>\<open>ImageToBlob\<close>\<close>

definition magickminify :: "'i magick \<Rightarrow> char list \<Rightarrow> cfault + char list option" where
  "magickminify m src =
     (case mg_decode m src of
        None \<Rightarrow> Inl (Exit_program 1)
      | Some img \<Rightarrow> mg_encode m (mg_minify m img))"

definition minifyjpeg_proc_1_svc :: "'i magick \<Rightarrow> char list \<Rightarrow> cfault + char list" where
  "minifyjpeg_proc_1_svc m src =
     bindE (magickminify m src) (\<lambda>r. case r of None \<Rightarrow> Inl (Exit_program 1) | Some dst \<Rightarrow> Inr dst)"

section \<open>Options\<close>

record vo_opts =
  vo_workload :: string
  vo_server :: string
  vo_nthreads :: int

definition vo_defaults :: vo_opts where
  "vo_defaults = \<lparr>vo_workload = ''workload.txt'', vo_server = ''localhost'', vo_nthreads = 1\<rparr>"

definition vo_option :: "char \<times> string \<Rightarrow> vo_opts \<Rightarrow> cfault + vo_opts" where
  "vo_option x opts =
     (let (c, optarg) = x in
      if c = CHR ''s'' then Inr (opts\<lparr>vo_server := optarg\<rparr>)
      else if c = CHR ''w'' then Inr (opts\<lparr>vo_workload := optarg\<rparr>)
      else if c = CHR ''t'' then Inr (opts\<lparr>vo_nthreads := atoi optarg\<rparr>)
      else if c = CHR ''h'' then Inl (Exit_program 0)
      else Inl (Exit_program 1))"

definition vo_long :: "long_option list" where
  "vo_long =
    [(''server'', Required_argument, CHR ''s''),
     (''workload'', Required_argument, CHR ''w''),
     (''nthreads'', Required_argument, CHR ''t''),
     (''help'', No_argument, CHR ''h'')]"

definition vo_options :: "string list \<Rightarrow> cfault + vo_opts" where
  "vo_options argv = foldE vo_option (getopt_long ''s:w:t:h'' vo_long argv) vo_defaults"

section \<open>Threads\<close>

datatype minify_pc =
    V_lock
  | V_test                              \<comment> \<open>holds the lock from here\<close>
  | V_pop
  | V_unlock minify_request
  | V_last                              \<comment> \<open>the queue was empty\<close>
  | V_read minify_request               \<comment> \<open>the lock is released\<close>
  | V_rpc minify_request block nat
  | V_write minify_request block nat
  | V_exit

record minify_env =
  ve_call :: "char list \<Rightarrow> char list option"
  ve_client :: "nat \<Rightarrow> bool"            \<comment> \<open>the client of thread \<open>w\<close> is not null\<close>
  ve_alloc :: "nat \<Rightarrow> bool"             \<comment> \<open>whether that many bytes can be allocated\<close>
  ve_writable :: "string \<Rightarrow> bool"

record minify_state =
  vs_queue :: "minify_request qstate"
  vs_lock :: "nat option"
  vs_pc :: "nat \<Rightarrow> minify_pc"
  vs_files :: files
  vs_fault :: "cfault option"
  vs_taken :: "minify_request list"     \<comment> \<open>history: taken from the queue\<close>
  vs_done :: "minify_request list"      \<comment> \<open>history: written\<close>

definition vs_set :: "nat \<Rightarrow> minify_pc \<Rightarrow> minify_state \<Rightarrow> minify_state" where
  "vs_set w pc s = s\<lparr>vs_pc := (vs_pc s)(w := pc)\<rparr>"

definition vs_crash :: "cfault \<Rightarrow> minify_state \<Rightarrow> minify_state" where
  "vs_crash e s = s\<lparr>vs_fault := Some e\<rparr>"

text \<open>The name the file is written under; a name nothing wrote is read.\<close>

definition output_name :: "minify_request \<Rightarrow> cfault + string" where
  "output_name r = (case outputfilename r of None \<Rightarrow> Inl Uninitialised | Some f \<Rightarrow> Inr f)"

definition minify_move :: "minify_env \<Rightarrow> nat \<Rightarrow> minify_state \<Rightarrow> minify_state option" where
  "minify_move env w s =
     (case vs_pc s w of
        V_lock \<Rightarrow> if vs_lock s = None then Some ((vs_set w V_test s)\<lparr>vs_lock := Some w\<rparr>) else None
      | V_test \<Rightarrow> Some (vs_set w (if steque_isempty (vs_queue s) then V_last else V_pop) s)
      | V_pop \<Rightarrow> Some (case steque_pop (vs_queue s) of
            Inl e \<Rightarrow> vs_crash e s
          | Inr (r, q) \<Rightarrow> (vs_set w (V_unlock r) s)\<lparr>vs_queue := q, vs_taken := vs_taken s @ [r]\<rparr>)
      | V_unlock r \<Rightarrow> Some ((vs_set w (V_read r) s)\<lparr>vs_lock := None\<rparr>)
      | V_last \<Rightarrow> Some ((vs_set w V_exit s)\<lparr>vs_lock := None\<rparr>)
      | V_read r \<Rightarrow> Some (case read_from_file (ve_alloc env) (vs_files s) (inputfilename r) of
            Inl e \<Rightarrow> vs_crash e s
          | Inr (src, n) \<Rightarrow> vs_set w (V_rpc r src n) s)
      | V_rpc r src n \<Rightarrow> Some (case minify_via_rpc (ve_call env) (ve_alloc env) (ve_client env w) src n of
            Inl e \<Rightarrow> vs_crash e s
          | Inr (dst, m) \<Rightarrow> vs_set w (V_write r dst m) s)
      | V_write r dst m \<Rightarrow> Some (case bindE (output_name r) (\<lambda>f. write_to_file (ve_writable env) (vs_files s) f dst m) of
            Inl e \<Rightarrow> vs_crash e s
          | Inr (_, d) \<Rightarrow> (vs_set w V_lock s)\<lparr>vs_files := d, vs_done := vs_done s @ [r]\<rparr>)
      | V_exit \<Rightarrow> None)"

definition minify_start :: "nat \<Rightarrow> minify_request qstate \<Rightarrow> files \<Rightarrow> minify_state" where
  "minify_start n q d = \<lparr>vs_queue = q, vs_lock = None, vs_pc = (\<lambda>w. if w < n then V_lock else V_exit),
     vs_files = d, vs_fault = None, vs_taken = [], vs_done = []\<rparr>"

inductive minify_step :: "minify_env \<Rightarrow> minify_state \<Rightarrow> minify_state \<Rightarrow> bool" for env :: minify_env where
  thread: "vs_fault s = None \<Longrightarrow> minify_move env w s = Some s' \<Longrightarrow> minify_step env s s'"

inductive_cases minify_stepE: "minify_step env s s'"

text \<open>\<open>main\<close> up to the creation of the threads; what a failed \<open>get_minify_client\<close> returns is kept.\<close>

definition minify_setup :: "(string \<Rightarrow> string option) \<Rightarrow> string list \<Rightarrow> cfault + vo_opts \<times> minify_request qstate" where
  "minify_setup read_file argv =
     bindE (vo_options argv) (\<lambda>opts.
     bindE (load_requests (read_file (vo_workload opts))) (\<lambda>q. Inr (opts, q)))"

definition minify_reachable :: "minify_env \<Rightarrow> nat \<Rightarrow> minify_request qstate \<Rightarrow> files \<Rightarrow> minify_state \<Rightarrow> bool" where
  "minify_reachable env n q d s \<longleftrightarrow> (minify_step env)\<^sup>*\<^sup>* (minify_start n q d) s"

section \<open>Invariants\<close>

definition vs_inside :: "minify_pc \<Rightarrow> bool" where
  "vs_inside pc = (case pc of V_test \<Rightarrow> True | V_pop \<Rightarrow> True | V_unlock _ \<Rightarrow> True | V_last \<Rightarrow> True | _ \<Rightarrow> False)"

definition vs_held :: "minify_pc \<Rightarrow> minify_request multiset" where
  "vs_held pc = (case pc of V_unlock r \<Rightarrow> {#r#} | V_read r \<Rightarrow> {#r#} | V_rpc r _ _ \<Rightarrow> {#r#} | V_write r _ _ \<Rightarrow> {#r#} | _ \<Rightarrow> {#})"

lemma vs_inside_simps [simp]:
  "\<not> vs_inside V_lock" "vs_inside V_test" "vs_inside V_pop" "vs_inside (V_unlock r)" "vs_inside V_last"
  "\<not> vs_inside (V_read r)" "\<not> vs_inside (V_rpc r b k)" "\<not> vs_inside (V_write r b k)" "\<not> vs_inside V_exit"
  by (simp_all add: vs_inside_def)

lemma vs_held_simps [simp]:
  "vs_held V_lock = {#}" "vs_held V_test = {#}" "vs_held V_pop = {#}" "vs_held (V_unlock r) = {#r#}" "vs_held V_last = {#}"
  "vs_held (V_read r) = {#r#}" "vs_held (V_rpc r b k) = {#r#}" "vs_held (V_write r b k) = {#r#}" "vs_held V_exit = {#}"
  by (simp_all add: vs_held_def)

text \<open>The lock, the queue, and that every request is in one place.\<close>

definition minify_inv :: "minify_request list \<Rightarrow> nat \<Rightarrow> minify_state \<Rightarrow> bool" where
  "minify_inv reqs n s \<longleftrightarrow>
     steque_inv (vs_queue s) \<and> reqs = vs_taken s @ steque_elems (vs_queue s) \<and>
     (\<forall>w. vs_inside (vs_pc s w) \<longleftrightarrow> vs_lock s = Some w) \<and>
     (\<forall>w. vs_pc s w = V_pop \<longrightarrow> steque_elems (vs_queue s) \<noteq> []) \<and>
     (\<forall>w. vs_pc s w = V_last \<longrightarrow> steque_elems (vs_queue s) = []) \<and>
     (\<forall>w < n. vs_pc s w = V_exit \<longrightarrow> steque_elems (vs_queue s) = []) \<and>
     (\<forall>w \<ge> n. vs_pc s w = V_exit) \<and>
     mset (vs_taken s) = mset (vs_done s) + (\<Sum>w<n. vs_held (vs_pc s w))"

lemma minify_inv_start:
  assumes "steque_inv q" and "steque_elems q = reqs"
  shows "minify_inv reqs n (minify_start n q d)"
proof -
  have "(\<Sum>w<n. vs_held (if w < n then V_lock else V_exit)) = {#}" by simp
  then show ?thesis using assms by (auto simp: minify_inv_def minify_start_def)
qed

lemma sum_held_upd:
  fixes w n :: nat
  assumes "w < n"
  shows "(\<Sum>v<n. vs_held ((g(w := pc)) v)) + vs_held (g w) = (\<Sum>v<n. vs_held (g v)) + vs_held pc"
proof -
  have "(\<lambda>v. vs_held ((g(w := pc)) v)) = (\<lambda>v. vs_held (g v))(w := vs_held pc)" by auto
  then show ?thesis
    using sum_upd [OF assms, of "\<lambda>v. vs_held (g v)" "vs_held (g w)" "vs_held pc"] by metis
qed

lemma minify_inv_crash: "minify_inv reqs n (vs_crash e s) \<longleftrightarrow> minify_inv reqs n s"
  by (simp add: minify_inv_def vs_crash_def)

lemma minify_lock_holder: "minify_inv reqs n s \<Longrightarrow> vs_inside (vs_pc s w) \<longleftrightarrow> vs_lock s = Some w"
  by (simp add: minify_inv_def)

lemma minify_alone: "minify_inv reqs n s \<Longrightarrow> vs_inside (vs_pc s w) \<Longrightarrow> v \<noteq> w \<Longrightarrow> \<not> vs_inside (vs_pc s v)"
  by (auto simp: minify_inv_def)

text \<open>A thread moves on between two points of the same side of the lock.\<close>

lemma minify_inv_set:
  assumes inv: "minify_inv reqs n s" and w: "w < n" and "vs_inside pc = vs_inside (vs_pc s w)"
    and "pc = V_pop \<longrightarrow> steque_elems (vs_queue s) \<noteq> []" and "pc \<in> {V_last, V_exit} \<longrightarrow> steque_elems (vs_queue s) = []"
    and "vs_held pc = vs_held (vs_pc s w)"
  shows "minify_inv reqs n (vs_set w pc s)"
proof -
  have "(\<Sum>v<n. vs_held (((vs_pc s)(w := pc)) v)) = (\<Sum>v<n. vs_held (vs_pc s v))"
    using sum_held_upd [OF w, of "vs_pc s" pc] assms(6) by simp
  then show ?thesis using assms by (auto simp: minify_inv_def vs_set_def)
qed

text \<open>A thread gives the lock back.\<close>

lemma minify_inv_release:
  assumes inv: "minify_inv reqs n s" and w: "w < n" and i: "vs_inside (vs_pc s w)" and o: "\<not> vs_inside pc"
    and "pc = V_exit \<longrightarrow> steque_elems (vs_queue s) = []" and "vs_held pc = vs_held (vs_pc s w)"
  shows "minify_inv reqs n ((vs_set w pc s)\<lparr>vs_lock := None\<rparr>)"
proof -
  have "(\<Sum>v<n. vs_held (((vs_pc s)(w := pc)) v)) = (\<Sum>v<n. vs_held (vs_pc s v))"
    using sum_held_upd [OF w, of "vs_pc s" pc] assms(6) by simp
  moreover have "vs_lock s = Some w" using inv i by (simp add: minify_inv_def)
  moreover have "pc \<noteq> V_pop" "pc \<noteq> V_last" using o by auto
  ultimately show ?thesis using assms by (auto simp: minify_inv_def vs_set_def)
qed

lemma minify_inv_move:
  assumes inv: "minify_inv reqs n s" and m: "minify_move env w s = Some s'"
  shows "minify_inv reqs n s'"
proof -
  have w: "w < n" using inv m by (rule_tac ccontr) (simp add: minify_inv_def minify_move_def)
  note set = minify_inv_set [OF inv w] and release = minify_inv_release [OF inv w]
  show ?thesis
  proof (cases "vs_pc s w")
    case V_lock
    with m have l: "vs_lock s = None" "s' = (vs_set w V_test s)\<lparr>vs_lock := Some w\<rparr>"
      by (auto simp: minify_move_def split: if_splits)
    have "(\<Sum>v<n. vs_held (((vs_pc s)(w := V_test)) v)) = (\<Sum>v<n. vs_held (vs_pc s v))"
      using sum_held_upd [OF w, of "vs_pc s" V_test] V_lock by simp
    with inv l w show ?thesis by (auto simp: minify_inv_def vs_set_def)
  next
    case V_test
    have "steque_isempty (vs_queue s) \<longleftrightarrow> steque_elems (vs_queue s) = []"
      using inv by (intro sq.isempty_iff) (simp add: minify_inv_def)
    with m V_test set [of V_last] set [of V_pop] show ?thesis by (auto simp: minify_move_def split: if_splits)
  next
    case V_pop
    then obtain r xs where e: "steque_elems (vs_queue s) = r # xs"
      using inv by (auto simp: minify_inv_def neq_Nil_conv)
    obtain q where q: "steque_pop (vs_queue s) = Inr (r, q)" "steque_inv q" "steque_elems q = xs"
      using sq.deq_elems [OF _ e] inv by (auto simp: minify_inv_def)
    have s': "s' = (vs_set w (V_unlock r) s)\<lparr>vs_queue := q, vs_taken := vs_taken s @ [r]\<rparr>"
      using m V_pop q by (simp add: minify_move_def)
    have others: "vs_pc s v \<noteq> V_pop" "vs_pc s v \<noteq> V_last" if "v \<noteq> w" for v
      using minify_alone [OF inv, of w v] that V_pop by auto
    have lock: "vs_lock s = Some w" using inv V_pop by (auto simp: minify_inv_def)
    have sum: "(\<Sum>v<n. vs_held (((vs_pc s)(w := V_unlock r)) v)) = (\<Sum>v<n. vs_held (vs_pc s v)) + {#r#}"
      using sum_held_upd [OF w, of "vs_pc s" "V_unlock r"] V_pop by simp
    show ?thesis unfolding minify_inv_def
    proof (intro conjI allI impI)
      show "reqs = vs_taken s' @ steque_elems (vs_queue s')" using inv e q s' by (simp add: minify_inv_def)
      show "vs_inside (vs_pc s' v) \<longleftrightarrow> vs_lock s' = Some v" for v
        using inv lock s' by (cases "v = w") (simp_all add: minify_inv_def vs_set_def)
      show "vs_pc s' v = V_pop \<Longrightarrow> steque_elems (vs_queue s') \<noteq> []" for v
        using others [of v] s' by (cases "v = w") (simp_all add: vs_set_def)
      show "vs_pc s' v = V_last \<Longrightarrow> steque_elems (vs_queue s') = []" for v
        using others [of v] s' by (cases "v = w") (simp_all add: vs_set_def)
      show "v < n \<Longrightarrow> vs_pc s' v = V_exit \<Longrightarrow> steque_elems (vs_queue s') = []" for v
        using inv e s' by (cases "v = w") (simp_all add: minify_inv_def vs_set_def)
      show "n \<le> v \<Longrightarrow> vs_pc s' v = V_exit" for v
        using inv w s' by (simp add: minify_inv_def vs_set_def)
      show "mset (vs_taken s') = mset (vs_done s') + (\<Sum>w<n. vs_held (vs_pc s' w))"
        using inv sum s' by (simp add: minify_inv_def vs_set_def)
    qed (use q s' in simp)
  next
    case (V_unlock r)
    with m release [of "V_read r"] show ?thesis by (auto simp: minify_move_def)
  next
    case V_last
    with inv have "steque_elems (vs_queue s) = []" by (auto simp: minify_inv_def)
    with m V_last release [of V_exit] show ?thesis by (auto simp: minify_move_def)
  next
    case (V_read r)
    with m inv set [of "V_rpc r b k" for b k] show ?thesis
      by (auto simp: minify_move_def minify_inv_crash split: sum.splits)
  next
    case (V_rpc r b k)
    with m inv set [of "V_write r c j" for c j] show ?thesis
      by (auto simp: minify_move_def minify_inv_crash split: sum.splits)
  next
    case (V_write r b k)
    have "(\<Sum>v<n. vs_held (((vs_pc s)(w := V_lock)) v)) + {#r#} = (\<Sum>v<n. vs_held (vs_pc s v))"
      using sum_held_upd [OF w, of "vs_pc s" V_lock] V_write by simp
    moreover have "vs_lock s \<noteq> Some w" using minify_lock_holder [OF inv, of w] V_write by simp
    ultimately have "minify_inv reqs n ((vs_set w V_lock s)\<lparr>vs_files := d, vs_done := vs_done s @ [r]\<rparr>)" for d
      using inv V_write w by (simp add: minify_inv_def vs_set_def) blast
    with m V_write inv show ?thesis by (auto simp: minify_move_def minify_inv_crash split: sum.splits)
  qed (use m in \<open>simp add: minify_move_def\<close>)
qed

section \<open>What is written\<close>

text \<open>What the server makes of the file of a request, and the disk after it was written.\<close>

definition result_of :: "minify_env \<Rightarrow> files \<Rightarrow> minify_request \<Rightarrow> char list" where
  "result_of env d0 r = the (ve_call env (the (d0 (inputfilename r))))"

definition store_result :: "minify_env \<Rightarrow> files \<Rightarrow> files \<Rightarrow> minify_request \<Rightarrow> files" where
  "store_result env d0 d r = d(the (outputfilename r) \<mapsto> result_of env d0 r)"

text \<open>
  A run in which nothing goes wrong: the files exist and fit in memory, the server answers
  with no more bytes than it got, the output files can be opened, have names of their own
  and are not among the input files.
\<close>

definition request_ok :: "minify_env \<Rightarrow> files \<Rightarrow> minify_request \<Rightarrow> bool" where
  "request_ok env d0 r \<longleftrightarrow> (\<exists>src out f. d0 (inputfilename r) = Some src \<and> length src < 2 ^ 32 \<and> ve_alloc env (length src) \<and>
     ve_call env src = Some out \<and> length out \<le> length src \<and> outputfilename r = Some f \<and> ve_writable env f)"

definition requests_ok :: "minify_env \<Rightarrow> nat \<Rightarrow> files \<Rightarrow> minify_request list \<Rightarrow> bool" where
  "requests_ok env n d0 reqs \<longleftrightarrow> (\<forall>w < n. ve_client env w) \<and> (\<forall>r \<in> set reqs. request_ok env d0 r) \<and>
     distinct (map outputfilename reqs) \<and> (\<forall>r \<in> set reqs. Some (inputfilename r) \<notin> outputfilename ` set reqs)"

definition pc_data_ok :: "minify_env \<Rightarrow> files \<Rightarrow> minify_request list \<Rightarrow> minify_pc \<Rightarrow> bool" where
  "pc_data_ok env d0 reqs pc = (case pc of
       V_unlock r \<Rightarrow> r \<in> set reqs
     | V_read r \<Rightarrow> r \<in> set reqs
     | V_rpc r src k \<Rightarrow> r \<in> set reqs \<and> d0 (inputfilename r) = Some src \<and> k = length src
     | V_write r dst k \<Rightarrow> r \<in> set reqs \<and> k \<le> length dst \<and> take k dst = result_of env d0 r
     | _ \<Rightarrow> True)"

definition minify_data :: "minify_env \<Rightarrow> files \<Rightarrow> minify_request list \<Rightarrow> minify_state \<Rightarrow> bool" where
  "minify_data env d0 reqs s \<longleftrightarrow> vs_fault s = None \<and> set (vs_done s) \<subseteq> set reqs \<and>
     (\<forall>w. pc_data_ok env d0 reqs (vs_pc s w)) \<and> vs_files s = foldl (store_result env d0) d0 (vs_done s)"

lemma stored_elsewhere:
  "\<forall>r \<in> set rs. outputfilename r \<noteq> Some x \<and> outputfilename r \<noteq> None \<Longrightarrow> foldl (store_result env d0) d rs x = d x"
  by (induction rs arbitrary: d) (auto simp: store_result_def)

lemma stored_once:
  "distinct (map outputfilename rs) \<Longrightarrow> \<forall>r \<in> set rs. outputfilename r \<noteq> None \<Longrightarrow> r \<in> set rs \<Longrightarrow> outputfilename r = Some f \<Longrightarrow>
   foldl (store_result env d0) d rs f = Some (result_of env d0 r)"
proof (induction rs arbitrary: d)
  case (Cons a rs)
  show ?case
  proof (cases "r = a")
    case True
    have "outputfilename r' \<noteq> Some f" if "r' \<in> set rs" for r'
      using Cons.prems(1,4) True that by (metis image_eqI distinct.simps(2) list.simps(9) list.set_map)
    then have "foldl (store_result env d0) (store_result env d0 d a) rs f = store_result env d0 d a f"
      using Cons.prems(2) by (intro stored_elsewhere) auto
    moreover have "store_result env d0 d a f = Some (result_of env d0 a)" using True Cons.prems(4) by (simp add: store_result_def)
    ultimately show ?thesis using True by simp
  next
    case False
    then show ?thesis using Cons by simp
  qed
qed simp

lemma minify_rpc_ok:
  assumes "ve_call env src = Some out" and "length src < 2 ^ 32" and "ve_alloc env (length src)" and "length out \<le> length src"
  shows "minify_via_rpc (ve_call env) (ve_alloc env) True src (length src) =
    Inr (out @ replicate (length src - length out) NUL, length out)"
  using assms by (simp add: minify_via_rpc_def get_bytes_def xdr_bytes_decode_def put_bytes_def)

lemma minify_data_move:
  assumes ok: "requests_ok env n d0 reqs" and inv: "minify_inv reqs n s" and data: "minify_data env d0 reqs s"
    and m: "minify_move env w s = Some s'"
  shows "minify_data env d0 reqs s'"
proof -
  have w: "w < n" using inv m by (rule_tac ccontr) (simp add: minify_inv_def minify_move_def)
  have pc: "pc_data_ok env d0 reqs (vs_pc s w)" using data by (simp add: minify_data_def)
  have step: "minify_data env d0 reqs (vs_set w pc s)" if "pc_data_ok env d0 reqs pc" for pc
    using data that by (simp add: minify_data_def vs_set_def)
  have lock: "minify_data env d0 reqs (t\<lparr>vs_lock := l\<rparr>) \<longleftrightarrow> minify_data env d0 reqs t" for t l
    by (simp add: minify_data_def)
  have req: "request_ok env d0 r" if "r \<in> set reqs" for r using ok that by (simp add: requests_ok_def)
  show ?thesis
  proof (cases "vs_pc s w")
    case V_pop
    then obtain r xs where e: "steque_elems (vs_queue s) = r # xs" using inv by (auto simp: minify_inv_def neq_Nil_conv)
    obtain q where q: "steque_pop (vs_queue s) = Inr (r, q)" using sq.deq_elems [OF _ e] inv by (auto simp: minify_inv_def)
    have "r \<in> set reqs" using inv e by (simp add: minify_inv_def)
    with m V_pop q step [of "V_unlock r"] show ?thesis by (auto simp: minify_move_def minify_data_def pc_data_ok_def)
  next
    case (V_read r)
    then have r: "r \<in> set reqs" using pc by (simp add: pc_data_ok_def)
    obtain src where src: "d0 (inputfilename r) = Some src" "ve_alloc env (length src)"
      using req [OF r] by (auto simp: request_ok_def)
    have "outputfilename x \<noteq> Some (inputfilename r) \<and> outputfilename x \<noteq> None" if "x \<in> set (vs_done s)" for x
    proof -
      have "x \<in> set reqs" using data that by (auto simp: minify_data_def)
      then have "outputfilename x \<in> outputfilename ` set reqs" by simp
      moreover have "Some (inputfilename r) \<notin> outputfilename ` set reqs" using ok r by (simp add: requests_ok_def)
      moreover have "outputfilename x \<noteq> None" using req [of x] \<open>x \<in> set reqs\<close> by (auto simp: request_ok_def)
      ultimately show ?thesis by metis
    qed
    then have "vs_files s (inputfilename r) = Some src"
      using stored_elsewhere [of "vs_done s" "inputfilename r"] data src(1) by (simp add: minify_data_def)
    with m V_read src r step [of "V_rpc r src (length src)"] show ?thesis
      by (auto simp: minify_move_def read_from_file_def pc_data_ok_def)
  next
    case (V_rpc r src k)
    then have r: "r \<in> set reqs" "d0 (inputfilename r) = Some src" "k = length src" using pc by (simp_all add: pc_data_ok_def)
    obtain out where out: "length src < 2 ^ 32" "ve_alloc env (length src)" "ve_call env src = Some out" "length out \<le> length src"
      using req [OF r(1)] r(2) by (auto simp: request_ok_def)
    have "ve_client env w" using ok w by (simp add: requests_ok_def)
    with minify_rpc_ok [OF out(3,1,2,4)] m V_rpc r out(3)
      step [of "V_write r (out @ replicate (length src - length out) NUL) (length out)"] show ?thesis
      by (auto simp: minify_move_def pc_data_ok_def result_of_def)
  next
    case (V_write r dst k)
    then have r: "r \<in> set reqs" "k \<le> length dst" "take k dst = result_of env d0 r" using pc by (simp_all add: pc_data_ok_def)
    obtain f where f: "outputfilename r = Some f" "ve_writable env f" using req [OF r(1)] by (auto simp: request_ok_def)
    have "write_to_file (ve_writable env) (vs_files s) f dst k = Inr (0, (vs_files s)(f \<mapsto> result_of env d0 r))"
      using r f by (simp add: write_to_file_def get_bytes_def)
    with m V_write f r data step [of V_lock] show ?thesis
      by (auto simp: minify_move_def output_name_def minify_data_def store_result_def vs_set_def pc_data_ok_def)
  next
    case V_lock
    with m lock step [of V_test] show ?thesis by (auto simp: minify_move_def pc_data_ok_def split: if_splits)
  next
    case V_test
    with m step [of V_last] step [of V_pop] show ?thesis by (auto simp: minify_move_def pc_data_ok_def split: if_splits)
  next
    case (V_unlock r)
    with m pc lock step [of "V_read r"] show ?thesis by (auto simp: minify_move_def pc_data_ok_def)
  next
    case V_last
    with m lock step [of V_exit] show ?thesis by (auto simp: minify_move_def pc_data_ok_def)
  qed (use m in \<open>simp add: minify_move_def\<close>)
qed

section \<open>The threads come to an end\<close>

definition vs_rank :: "minify_pc \<Rightarrow> nat" where
  "vs_rank pc = (case pc of V_unlock _ \<Rightarrow> 8 | V_read _ \<Rightarrow> 7 | V_rpc _ _ _ \<Rightarrow> 6 | V_write _ _ _ \<Rightarrow> 5
     | V_lock \<Rightarrow> 4 | V_test \<Rightarrow> 3 | V_pop \<Rightarrow> 2 | V_last \<Rightarrow> 1 | V_exit \<Rightarrow> 0)"

definition minify_work :: "nat \<Rightarrow> minify_state \<Rightarrow> nat" where
  "minify_work n s = (\<Sum>w<n. vs_rank (vs_pc s w)) + 8 * length (steque_elems (vs_queue s))"

lemma sum_rank_upd:
  fixes w n :: nat
  assumes "w < n"
  shows "(\<Sum>v<n. vs_rank ((g(w := pc)) v)) + vs_rank (g w) = (\<Sum>v<n. vs_rank (g v)) + vs_rank pc"
proof -
  have "(\<lambda>v. vs_rank ((g(w := pc)) v)) = (\<lambda>v. vs_rank (g v))(w := vs_rank pc)" by auto
  then show ?thesis
    using sum_upd [OF assms, of "\<lambda>v. vs_rank (g v)" "vs_rank (g w)" "vs_rank pc"] by metis
qed

lemma vs_rank_simps [simp]:
  "vs_rank (V_unlock r) = 8" "vs_rank (V_read r) = 7" "vs_rank (V_rpc r b k) = 6" "vs_rank (V_write r b k) = 5"
  "vs_rank V_lock = 4" "vs_rank V_test = 3" "vs_rank V_pop = 2" "vs_rank V_last = 1" "vs_rank V_exit = 0"
  by (simp_all add: vs_rank_def)

lemma minify_work_simps [simp]:
  "minify_work n (s\<lparr>vs_lock := l\<rparr>) = minify_work n s"
  "minify_work n (s\<lparr>vs_files := d, vs_done := rs\<rparr>) = minify_work n s"
  by (simp_all add: minify_work_def)

lemma minify_work_set:
  assumes "w < n" and "vs_rank pc < vs_rank (vs_pc s w)"
  shows "minify_work n (vs_set w pc s) < minify_work n s"
  using sum_rank_upd [OF assms(1), of "vs_pc s" pc] assms(2) by (simp add: minify_work_def vs_set_def)

lemma minify_move_work:
  assumes inv: "minify_inv reqs n s" and m: "minify_move env w s = Some s'" and "vs_fault s' = None" and "vs_fault s = None"
  shows "minify_work n s' < minify_work n s"
proof -
  have w: "w < n" using inv m by (rule_tac ccontr) (simp add: minify_inv_def minify_move_def)
  show ?thesis
  proof (cases "vs_pc s w")
    case V_pop
    then obtain r xs where e: "steque_elems (vs_queue s) = r # xs" using inv by (auto simp: minify_inv_def neq_Nil_conv)
    obtain q where q: "steque_pop (vs_queue s) = Inr (r, q)" "steque_elems q = xs"
      using sq.deq_elems [OF _ e] inv by (auto simp: minify_inv_def)
    then have "s' = (vs_set w (V_unlock r) s)\<lparr>vs_queue := q, vs_taken := vs_taken s @ [r]\<rparr>"
      using m V_pop by (simp add: minify_move_def)
    then show ?thesis using sum_rank_upd [OF w, of "vs_pc s" "V_unlock r"] V_pop e q by (simp add: minify_work_def vs_set_def)
  qed (use m w assms(3,4) in \<open>auto simp: minify_move_def vs_crash_def intro!: minify_work_set split: if_splits sum.splits\<close>)
qed

definition minify_good :: "minify_env \<Rightarrow> files \<Rightarrow> minify_request list \<Rightarrow> nat \<Rightarrow> minify_state \<Rightarrow> bool" where
  "minify_good env d0 reqs n s \<longleftrightarrow> minify_inv reqs n s \<and> minify_data env d0 reqs s"

lemma minify_good_start:
  assumes "steque_inv q" and "steque_elems q = reqs"
  shows "minify_good env d reqs n (minify_start n q d)"
  using minify_inv_start [OF assms, of n d]
  by (simp add: minify_good_def minify_data_def minify_start_def pc_data_ok_def)

lemma minify_good_step:
  assumes "requests_ok env n d0 reqs" and "minify_step env s s'" and "minify_good env d0 reqs n s"
  shows "minify_good env d0 reqs n s' \<and> minify_work n s' < minify_work n s"
  using assms
  by (auto simp: minify_good_def elim!: minify_stepE intro: minify_inv_move minify_data_move)
    (metis minify_move_work minify_data_move minify_data_def)

lemma minify_good_run:
  assumes "requests_ok env n d0 reqs"
  shows "(minify_step env ^^ k) s s' \<Longrightarrow> minify_good env d0 reqs n s \<Longrightarrow>
    minify_good env d0 reqs n s' \<and> minify_work n s' + k \<le> minify_work n s"
proof (induction k arbitrary: s')
  case (Suc k)
  then obtain t where "(minify_step env ^^ k) s t" "minify_step env t s'" by auto
  with Suc minify_good_step [OF assms, of t s'] show ?case by fastforce
qed simp

lemma minify_progress:
  assumes "minify_inv reqs n s" and "vs_pc s w \<noteq> V_exit"
  shows "\<exists>v s'. minify_move env v s = Some s'"
proof (cases "vs_lock s")
  case None
  have "minify_move env w s \<noteq> None" using assms(2) None by (cases "vs_pc s w") (auto simp: minify_move_def)
  then show ?thesis by blast
next
  case (Some v)
  then have "vs_inside (vs_pc s v)" using assms(1) by (simp add: minify_inv_def)
  then have "minify_move env v s \<noteq> None" by (cases "vs_pc s v") (auto simp: minify_move_def)
  then show ?thesis by blast
qed

text \<open>When every thread has returned, every request was written, in some order.\<close>

lemma minify_all_written:
  assumes ok: "requests_ok env n d0 reqs" and g: "minify_good env d0 reqs n s" and "0 < n" and ex: "\<forall>w. vs_pc s w = V_exit"
  shows "(\<forall>r \<in> set reqs. vs_files s (the (outputfilename r)) = Some (result_of env d0 r)) \<and>
    (\<forall>x. Some x \<notin> outputfilename ` set reqs \<longrightarrow> vs_files s x = d0 x)"
proof -
  have "steque_elems (vs_queue s) = []" using g assms(3) ex by (auto simp: minify_good_def minify_inv_def)
  then have m: "mset reqs = mset (vs_done s)" using g ex by (simp add: minify_good_def minify_inv_def)
  then have st: "set (vs_done s) = set reqs" by (metis set_mset_mset)
  have "mset (map outputfilename reqs) = mset (map outputfilename (vs_done s))" using m by simp
  then have d: "distinct (map outputfilename (vs_done s))" using ok by (metis mset_eq_imp_distinct_iff requests_ok_def)
  have named: "\<forall>r \<in> set (vs_done s). outputfilename r \<noteq> None"
    using ok st by (auto simp: requests_ok_def request_ok_def)
  have f: "vs_files s = foldl (store_result env d0) d0 (vs_done s)" using g by (simp add: minify_good_def minify_data_def)
  have "vs_files s (the (outputfilename r)) = Some (result_of env d0 r)" if "r \<in> set reqs" for r
    using stored_once [OF d named, of r "the (outputfilename r)" env d0 d0] that st named by (auto simp: f)
  moreover have "vs_files s x = d0 x" if "Some x \<notin> outputfilename ` set reqs" for x
    unfolding f using that st named by (intro stored_elsewhere) (metis imageI)
  ultimately show ?thesis by blast
qed

section \<open>Loading the list of requests\<close>

definition make_request :: "string \<times> string \<Rightarrow> minify_request" where
  "make_request p = \<lparr>inputfilename = fst p, outputfilename = Some (snd p)\<rparr>"

definition request_lines :: "(string \<times> string) list \<Rightarrow> string" where
  "request_lines ps = concat (map (\<lambda>(i, j). i @ CHR 0x20 # j @ [CHR 0x0A]) ps)"

lemma path_word_name: "path_word w \<Longrightarrow> length w < NAME_BUF"
  by (simp add: path_word_def WORD_BUF_def NAME_BUF_def)

lemma load_loop_newline: "load_loop (CHR 0x0A # s) q = load_loop s q"
  by (simp add: load_loop.simps [of "CHR 0x0A # s"] load_loop.simps [of s] scan_request_def scan_word_newline)

lemma load_loop_line:
  assumes "path_word i" and "path_word j"
  shows "load_loop (i @ CHR 0x20 # j @ CHR 0x0A # s) q =
    bindE (steque_enqueue q (make_request (i, j))) (load_loop s)"
proof -
  have "scan_request (i @ CHR 0x20 # j @ CHR 0x0A # s) = Inr (Some (make_request (i, j), CHR 0x0A # s))"
    using assms by (simp add: scan_request_def scan_word_sep scan_word_space newline_space path_word_name make_request_def)
  then show ?thesis
    by (cases "steque_enqueue q (make_request (i, j))") (simp_all add: load_loop.simps [of "i @ x" for x] load_loop_newline)
qed

lemma load_lines:
  "\<forall>(i, j) \<in> set ps. path_word i \<and> path_word j \<Longrightarrow> steque_inv q \<Longrightarrow> length (steque_elems q) + length ps \<le> nat int_max \<Longrightarrow>
   \<exists>q'. load_loop (request_lines ps @ t) q = load_loop t q' \<and> steque_inv q' \<and>
     steque_elems q' = steque_elems q @ map make_request ps"
proof (induction ps arbitrary: q)
  case (Cons p ps)
  obtain i j where p: "p = (i, j)" by (cases p)
  with Cons.prems(1) have ij: "path_word i" "path_word j" by auto
  obtain q1 where q1: "steque_enqueue q (make_request (i, j)) = Inr q1" "steque_inv q1"
    "steque_elems q1 = steque_elems q @ [make_request (i, j)]"
    using sq.enq_elems [OF Cons.prems(2), of "make_request (i, j)"] Cons.prems(3) by auto
  have "load_loop (request_lines (p # ps) @ t) q = load_loop (request_lines ps @ t) q1"
    using load_loop_line [OF ij, of "request_lines ps @ t" q] q1(1) p by (simp add: request_lines_def)
  with Cons.IH [OF _ q1(2)] Cons.prems(1,3) q1(3) p show ?case by auto
qed (auto simp: request_lines_def)

lemma load_loop_word:
  assumes "path_word w"
  shows "load_loop w q = steque_enqueue q \<lparr>inputfilename = w, outputfilename = None\<rparr>"
proof -
  obtain c cs where "w = c # cs" "\<not> is_space c" using assms by (cases w) (auto simp: path_word_def)
  then have "dropWhile is_space w = w" "w \<noteq> []" by simp_all
  moreover have "takeWhile (\<lambda>c. \<not> is_space c) w = w" "dropWhile (\<lambda>c. \<not> is_space c) w = []"
    using assms by (simp_all add: path_word_def takeWhile_eq_all_conv)
  ultimately have "scan_word w = Some (w, [])" by (simp add: scan_word_def)
  then have "scan_request w = Inr (Some (\<lparr>inputfilename = w, outputfilename = None\<rparr>, []))"
    using path_word_name [OF assms] by (simp add: scan_request_def scan_word_def)
  moreover have "load_loop [] q' = Inr q'" for q'
    by (simp add: load_loop.simps [of "[]"] scan_request_def scan_word_def)
  ultimately show ?thesis
    by (cases "steque_enqueue q \<lparr>inputfilename = w, outputfilename = None\<rparr>") (simp_all add: load_loop.simps [of w])
qed

section \<open>Properties\<close>

text \<open>One image, a server that keeps every other byte of it, and a server that adds one.\<close>

definition halver :: "char list magick" where
  "halver = \<lparr>mg_decode = Some, mg_minify = (\<lambda>i. Some (take (length i div 2) i)), mg_encode = (\<lambda>i. Inr i)\<rparr>"

definition padder :: "char list magick" where
  "padder = \<lparr>mg_decode = Some, mg_minify = (\<lambda>i. Some (CHR ''x'' # i)), mg_encode = (\<lambda>i. Inr i)\<rparr>"

definition remote :: "'i magick \<Rightarrow> char list \<Rightarrow> char list option" where
  "remote m x = (case minifyjpeg_proc_1_svc m x of Inl e \<Rightarrow> None | Inr y \<Rightarrow> Some y)"

definition sample_minify :: minify_env where
  "sample_minify = \<lparr>ve_call = remote halver, ve_client = (\<lambda>_. True), ve_alloc = (\<lambda>_. True), ve_writable = (\<lambda>_. True)\<rparr>"

lemma sample_words: "path_word ''a''" "path_word ''b''" "path_word ''c''"
  by (simp_all add: path_word_def WORD_BUF_def is_space_def)

lemma minify_setup_queue:
  assumes "vo_options argv = Inr opts" and "read_file (vo_workload opts) = Some (request_lines ps)"
    and "\<forall>(i, j) \<in> set ps. path_word i \<and> path_word j" and "length ps \<le> nat int_max"
  shows "\<exists>q. minify_setup read_file argv = Inr (opts, q) \<and> steque_inv q \<and> steque_elems q = map make_request ps"
proof -
  obtain q where "load_loop (request_lines ps) (steque_init, empty_heap) = Inr q" "steque_inv q" "steque_elems q = map make_request ps"
    using load_lines [of ps "(steque_init, empty_heap)" "[]"] assms(3,4)
    by (auto simp: steque_init_inv steque_init_elems load_loop.simps [of "[]"] scan_request_def scan_word_def)
  then show ?thesis using assms(1,2) by (simp add: minify_setup_def load_requests_def)
qed

lemma minify_pairs_written:
  assumes "requests_ok env n d (map make_request ps)" and "minify_good env d (map make_request ps) n s" and "0 < n"
    and "\<forall>w. vs_pc s w = V_exit"
  shows "(\<forall>(i, j) \<in> set ps. vs_files s j = Some (the (ve_call env (the (d i))))) \<and> (\<forall>x. x \<notin> snd ` set ps \<longrightarrow> vs_files s x = d x)"
proof -
  have "outputfilename ` set (map make_request ps) = Some ` snd ` set ps" by (auto simp: make_request_def image_image)
  with minify_all_written [OF assms] show ?thesis by (auto simp: make_request_def result_of_def image_iff)
qed

text \<open>
  From the options and the workload file to the disk: every line gives one request;
  with any number of threads and in any interleaving no thread faults, every run is finite,
  and when nobody can go on every output file holds what the server made of its input
  file, and no other file has changed.
\<close>

lemma minify_writes_all:
  assumes "vo_options argv = Inr opts" and "read_file (vo_workload opts) = Some (request_lines ps)"
    and "\<forall>(i, j) \<in> set ps. path_word i \<and> path_word j" and "length ps \<le> nat int_max"
    and "requests_ok env n d (map make_request ps)" and "0 < n"
  shows "\<exists>q. minify_setup read_file argv = Inr (opts, q) \<and>
    (\<forall>k s. (minify_step env ^^ k) (minify_start n q d) s \<longrightarrow>
      vs_fault s = None \<and> k \<le> 4 * n + 8 * length ps \<and>
      ((\<nexists>s'. minify_step env s s') \<longrightarrow>
        (\<forall>(i, j) \<in> set ps. vs_files s j = Some (the (ve_call env (the (d i))))) \<and>
        (\<forall>x. x \<notin> snd ` set ps \<longrightarrow> vs_files s x = d x)))"
proof -
  let ?reqs = "map make_request ps"
  obtain q where su: "minify_setup read_file argv = Inr (opts, q)" and q: "steque_inv q" "steque_elems q = ?reqs"
    using minify_setup_queue [where read_file = read_file, OF assms(1-4)] by blast
  have "vs_fault s = None \<and> k \<le> 4 * n + 8 * length ps \<and> ((\<nexists>s'. minify_step env s s') \<longrightarrow>
        (\<forall>(i, j) \<in> set ps. vs_files s j = Some (the (ve_call env (the (d i))))) \<and>
        (\<forall>x. x \<notin> snd ` set ps \<longrightarrow> vs_files s x = d x))"
    if run: "(minify_step env ^^ k) (minify_start n q d) s" for k s
  proof -
    from minify_good_run [OF assms(5) run minify_good_start [OF q]]
    have g: "minify_good env d ?reqs n s" and le: "minify_work n s + k \<le> minify_work n (minify_start n q d)" by auto
    have f: "vs_fault s = None" using g by (simp add: minify_good_def minify_data_def)
    have "minify_work n (minify_start n q d) = 4 * n + 8 * length ps"
      using q(2) by (simp add: minify_work_def minify_start_def)
    then have "k \<le> 4 * n + 8 * length ps" using le by simp
    moreover have "\<forall>w. vs_pc s w = V_exit" if stuck: "\<nexists>s'. minify_step env s s'"
      using minify_progress [of ?reqs n s] g f stuck by (metis minify_good_def minify_step.thread)
    ultimately show ?thesis using f minify_pairs_written [OF assms(5) g assms(6)] by blast
  qed
  with su show ?thesis by blast
qed

text \<open>
  C31: The remote call brings back exactly what the server's handler made of the image,
  but into a block of the size of the original: an answer that is longer than the image is
  written past its end.
\<close>

theorem minify_remote_call:
  assumes "\<forall>x. call x = (case minifyjpeg_proc_1_svc m x of Inl e \<Rightarrow> None | Inr y \<Rightarrow> Some y)"
    and "length src < 2 ^ 32" and "mg_decode m src = Some img" and "mg_encode m (mg_minify m img) = Inr (Some out)"
  shows "(length out \<le> length src \<or> \<not> alloc (length src) \<longrightarrow>
      (\<exists>dst. minify_via_rpc call alloc True src (length src) = Inr (dst, length out) \<and> take (length out) dst = out)) \<and>
    (length src < length out \<and> alloc (length src) \<longrightarrow> minify_via_rpc call alloc True src (length src) = Inl Out_of_bounds)"
proof -
  have "call src = Some out"
    using assms(1,3,4) by (simp add: minifyjpeg_proc_1_svc_def magickminify_def)
  then show ?thesis using assms(2)
    by (auto simp: minify_via_rpc_def get_bytes_def xdr_bytes_decode_def put_bytes_def)
qed

theorem minify_remote_call_witness:
  "(\<exists>dst. minify_via_rpc (remote halver) (\<lambda>_. True) True ''image!'' (length ''image!'') = Inr (dst, length ''ima'') \<and>
      take (length ''ima'') dst = ''ima'') \<and>
    minify_via_rpc (remote padder) (\<lambda>_. True) True ''image!'' (length ''image!'') = Inl Out_of_bounds"
proof (rule conjI)
  have "mg_decode halver ''image!'' = Some ''image!''" "mg_encode halver (mg_minify halver ''image!'') = Inr (Some ''ima'')"
    by (simp_all add: halver_def)
  from minify_remote_call [OF _ _ this, of "remote halver" "\<lambda>_. True"]
  show "\<exists>dst. minify_via_rpc (remote halver) (\<lambda>_. True) True ''image!'' (length ''image!'') = Inr (dst, length ''ima'') \<and>
      take (length ''ima'') dst = ''ima''" by (simp add: remote_def)
next
  have "mg_decode padder ''image!'' = Some ''image!''" "mg_encode padder (mg_minify padder ''image!'') = Inr (Some ''ximage!'')"
    by (simp_all add: padder_def)
  from minify_remote_call [OF _ _ this, of "remote padder" "\<lambda>_. True"]
  show "minify_via_rpc (remote padder) (\<lambda>_. True) True ''image!'' (length ''image!'') = Inl Out_of_bounds"
    by (simp add: remote_def)
qed



end
