(* ===== verification/ShmSegment.thy ===== *)
theory ShmSegment
  imports ShmPool
begin

text \<open>
  The life of a shared memory segment in the proxy: \<open>create_shm_channel\<close> and
  \<open>destroy_shm_seg\<close> of \<open>handle_with_cache.c\<close>, put together with the pool of names, and the
  signal handler of \<open>webproxy.c\<close>. The operating system is a table of names and of the
  objects they stand for; an object whose name was unlinked lives on for those who map it.
\<close>

section \<open>Names and objects\<close>

record shm_object =
  ob_size :: int
  ob_bytes_written :: int
  ob_file_length :: int
  ob_ready :: bool                \<comment> \<open>its mutexes and conditions are initialised\<close>
  ob_mapped :: bool               \<comment> \<open>by the proxy\<close>

record shm_os =
  sh_name :: "string \<rightharpoonup> nat"
  sh_object :: "nat \<rightharpoonup> shm_object"
  sh_next :: nat

definition shm_empty :: shm_os where
  "shm_empty = \<lparr>sh_name = Map.empty, sh_object = Map.empty, sh_next = 0\<rparr>"

definition shm_unlink :: "string \<Rightarrow> shm_os \<Rightarrow> int \<times> shm_os" where
  "shm_unlink name os = (if sh_name os name = None then - 1 else 0, os\<lparr>sh_name := (sh_name os)(name := None)\<rparr>)"

text \<open>\<open>shm_open\<close> with \<open>O_CREAT | O_EXCL\<close>, which may be refused: a new object of no bytes.\<close>

definition shm_open_excl :: "bool \<Rightarrow> string \<Rightarrow> shm_os \<Rightarrow> (nat \<times> shm_os) option" where
  "shm_open_excl allowed name os =
     (if \<not> allowed \<or> sh_name os name \<noteq> None then None
      else Some (sh_next os, os\<lparr>sh_name := (sh_name os)(name \<mapsto> sh_next os),
        sh_object := (sh_object os)(sh_next os \<mapsto>
          \<lparr>ob_size = 0, ob_bytes_written = 0, ob_file_length = 0, ob_ready = False, ob_mapped = False\<rparr>),
        sh_next := Suc (sh_next os)\<rparr>))"

text \<open>\<open>sizeof(shm_data)\<close> on the platform of the makefile: two ints, two mutexes, two conditions.\<close>

definition SHM_STRUCT :: int where "SHM_STRUCT = 184"

section \<open>Creating and destroying a segment\<close>

text \<open>
  The failures of \<open>shm_open\<close> are reported and then ignored (the \<open>exit\<close> is commented out):
  the mapping of a bad descriptor fails, and the fields are read through its result.
\<close>

definition create_shm_channel :: "bool \<Rightarrow> int \<Rightarrow> string \<Rightarrow> shm_os \<Rightarrow> cfault + nat \<times> shm_os" where
  "create_shm_channel allowed segment_size fldes os =
     (let os1 = snd (shm_unlink fldes os) in
      case shm_open_excl allowed fldes os1 of
        None \<Rightarrow> Inl Out_of_bounds
      | Some (k, os2) \<Rightarrow>
          if segment_size < SHM_STRUCT then Inl Out_of_bounds
          else Inr (k, os2\<lparr>sh_object := (sh_object os2)(k \<mapsto>
            \<lparr>ob_size = segment_size, ob_bytes_written = 0, ob_file_length = 0, ob_ready = True, ob_mapped = True\<rparr>)\<rparr>))"

text \<open>The object is cleared and unmapped, its name removed and given back; \<open>None\<close>: waits for room.\<close>

definition destroy_shm_seg :: "string \<Rightarrow> nat \<Rightarrow> shm_os \<Rightarrow> pool \<Rightarrow> (cfault + shm_os \<times> pool) option" where
  "destroy_shm_seg fldes k os p =
     (case sh_object os k of
        None \<Rightarrow> Some (Inl Out_of_bounds)
      | Some ob \<Rightarrow>
          if \<not> ob_mapped ob then Some (Inl Out_of_bounds)
          else
            let os1 = os\<lparr>sh_object := (sh_object os)(k \<mapsto>
                  ob\<lparr>ob_ready := False, ob_file_length := 0, ob_bytes_written := 0, ob_mapped := False\<rparr>)\<rparr>;
                os2 = snd (shm_unlink fldes os1)
            in map_option (\<lambda>r. bindE r (\<lambda>p1. Inr (os2, p1))) (pool_release fldes p))"

section \<open>Handlers, pool and segments together\<close>

text \<open>
  A handler takes a name, creates its segment, transfers, and destroys it; or it returns
  early with segment and name. Whether \<open>shm_open\<close> succeeds is free; a step that faults would
  end the process.
\<close>

record seg_state =
  sg_proxy :: proxy_state
  sg_os :: shm_os
  sg_mem :: "nat \<Rightarrow> nat option"       \<comment> \<open>the object behind \<open>mem\<close> of a handler\<close>

inductive seg_step :: "int \<Rightarrow> seg_state \<Rightarrow> seg_state \<Rightarrow> bool" for segment_size :: int where
  take_name: "px_handler (sg_proxy s) h = Waiting_for_name \<Longrightarrow>
    pool_acquire (px_pool (sg_proxy s)) = Some (Inr (fldes, p)) \<Longrightarrow>
    seg_step segment_size s (s\<lparr>sg_proxy := \<lparr>px_pool = p, px_handler = (px_handler (sg_proxy s))(h := Holds fldes)\<rparr>\<rparr>)"
| create: "px_handler (sg_proxy s) h = Holds fldes \<Longrightarrow> sg_mem s h = None \<Longrightarrow>
    create_shm_channel allowed segment_size fldes (sg_os s) = Inr (k, os) \<Longrightarrow>
    seg_step segment_size s (s\<lparr>sg_os := os, sg_mem := (sg_mem s)(h \<mapsto> k)\<rparr>)"
| destroy: "px_handler (sg_proxy s) h = Holds fldes \<Longrightarrow> sg_mem s h = Some k \<Longrightarrow>
    destroy_shm_seg fldes k (sg_os s) (px_pool (sg_proxy s)) = Some (Inr (os, p)) \<Longrightarrow>
    seg_step segment_size s (s\<lparr>sg_proxy := \<lparr>px_pool = p, px_handler = (px_handler (sg_proxy s))(h := Gave_back)\<rparr>,
      sg_os := os, sg_mem := (sg_mem s)(h := None)\<rparr>)"
| early: "px_handler (sg_proxy s) h = Holds fldes \<Longrightarrow> sg_mem s h = Some k \<Longrightarrow>
    seg_step segment_size s (s\<lparr>sg_proxy := (sg_proxy s)\<lparr>px_handler := (px_handler (sg_proxy s))(h := Returned_early fldes)\<rparr>\<rparr>)"

definition seg_start :: "pool \<Rightarrow> seg_state" where
  "seg_start p = \<lparr>sg_proxy = \<lparr>px_pool = p, px_handler = (\<lambda>_. Waiting_for_name)\<rparr>, sg_os = shm_empty, sg_mem = (\<lambda>_. None)\<rparr>"

definition seg_reachable :: "int \<Rightarrow> int \<Rightarrow> seg_state \<Rightarrow> bool" where
  "seg_reachable segment_size segments s \<longleftrightarrow>
     (\<exists>p. init_proxy segments = Inr p \<and> (seg_step segment_size)\<^sup>*\<^sup>* (seg_start p) s)"

section \<open>The signal handler\<close>

text \<open>It unlinks every name that is in the queue, empties it and ends the process.\<close>

primrec unlink_all :: "nat \<Rightarrow> string qstate \<Rightarrow> shm_os \<Rightarrow> cfault + string qstate \<times> shm_os" where
  "unlink_all 0 q os = Inr (q, os)"
| "unlink_all (Suc n) q os = bindE (steque_pop q) (\<lambda>(temp, q1). unlink_all n q1 (snd (shm_unlink temp os)))"

definition proxy_sig_handler :: "pool \<Rightarrow> shm_os \<Rightarrow> cfault + string qstate \<times> shm_os" where
  "proxy_sig_handler p os =
     bindE (unlink_all (nat (steque_size (fldes_queue p))) (fldes_queue p) os) (\<lambda>(q, os1).
     case steque_destroy q of
       None \<Rightarrow> Inl Out_of_bounds
     | Some r \<Rightarrow> bindE r (\<lambda>q1. Inr (q1, os1)))"

section \<open>Invariant\<close>

definition seg_inv :: "nat \<Rightarrow> int \<Rightarrow> seg_state \<Rightarrow> bool" where
  "seg_inv n segment_size s \<longleftrightarrow> proxy_inv n (sg_proxy s) \<and>
     (\<forall>f k. sh_name (sg_os s) f = Some k \<longrightarrow> k < sh_next (sg_os s)) \<and>
     (\<forall>f f' k. sh_name (sg_os s) f = Some k \<longrightarrow> sh_name (sg_os s) f' = Some k \<longrightarrow> f = f') \<and>
     (\<forall>h k. sg_mem s h = Some k \<longrightarrow> (\<exists>f. owned (px_handler (sg_proxy s) h) = Some f \<and> sh_name (sg_os s) f = Some k)) \<and>
     (\<forall>h k. sg_mem s h = Some k \<longrightarrow> (\<exists>ob. sh_object (sg_os s) k = Some ob \<and> ob_mapped ob \<and> ob_ready ob \<and> ob_size ob = segment_size))"

lemma seg_inv_start: "pool_ok n p \<Longrightarrow> steque_elems (fldes_queue p) = segment_names n \<Longrightarrow> seg_inv n segment_size (seg_start p)"
  by (simp add: seg_inv_def seg_start_def proxy_inv_def shm_empty_def distinct_segment_names)

lemma create_known:
  assumes "create_shm_channel allowed segment_size fldes os = Inr (k, os')"
  shows "k = sh_next os \<and> sh_name os' = (sh_name os)(fldes \<mapsto> k) \<and> sh_next os' = Suc k \<and> SHM_STRUCT \<le> segment_size \<and>
    sh_object os' = (sh_object os)(k \<mapsto>
      \<lparr>ob_size = segment_size, ob_bytes_written = 0, ob_file_length = 0, ob_ready = True, ob_mapped = True\<rparr>)"
  using assms
  by (auto simp: create_shm_channel_def shm_unlink_def shm_open_excl_def Let_def split: if_splits)

lemma destroy_known:
  assumes "destroy_shm_seg fldes k os p = Some (Inr (os', p'))"
  shows "pool_release fldes p = Some (Inr p') \<and> sh_name os' = (sh_name os)(fldes := None) \<and> sh_next os' = sh_next os \<and>
    (\<forall>j. j \<noteq> k \<longrightarrow> sh_object os' j = sh_object os j)"
  using assms
  by (auto simp: destroy_shm_seg_def shm_unlink_def Let_def split: option.splits if_splits)

lemma seg_inv_mem:
  assumes "seg_inv n sz s" and "sg_mem s h = Some k"
  obtains f where "owned (px_handler (sg_proxy s) h) = Some f" and "sh_name (sg_os s) f = Some k"
  using assms unfolding seg_inv_def by blast

lemma seg_inv_owned_name:
  assumes "seg_inv n sz s" and "sg_mem s h = Some k" and "owned (px_handler (sg_proxy s) h) = Some f"
  shows "sh_name (sg_os s) f = Some k"
  using seg_inv_mem [OF assms(1,2)] assms(3) by auto

lemma seg_inv_step:
  assumes "seg_step sz s s'" and inv: "seg_inv n sz s"
  shows "seg_inv n sz s'"
  using assms(1)
proof cases
  case (take_name h fldes p)
  have "proxy_step (sg_proxy s) \<lparr>px_pool = p, px_handler = (px_handler (sg_proxy s))(h := Holds fldes)\<rparr>"
    using take_name(2,3) by (rule proxy_step.acquire)
  then have "proxy_inv n \<lparr>px_pool = p, px_handler = (px_handler (sg_proxy s))(h := Holds fldes)\<rparr>"
    by (rule proxy_inv_step) (use inv in \<open>simp add: seg_inv_def\<close>)
  moreover have "sg_mem s h = None"
  proof (rule ccontr)
    assume "sg_mem s h \<noteq> None"
    then obtain j where "sg_mem s h = Some j" by blast
    from seg_inv_mem [OF inv this] take_name(2) show False by simp
  qed
  then have "\<exists>f. owned (((px_handler (sg_proxy s))(h := Holds fldes)) v) = Some f \<and> sh_name (sg_os s) f = Some j"
    if "sg_mem s v = Some j" for v j
    using seg_inv_mem [OF inv that] that by (cases "v = h") auto
  ultimately show ?thesis using inv take_name(1) by (simp add: seg_inv_def del: fun_upd_apply)
next
  case (create h fldes allowed os k)
  note c = create_known [OF create(4)]
  let ?own = "\<lambda>v. owned (px_handler (sg_proxy s) v)"
  have uniq: "f \<noteq> fldes" if "?own v = Some f" "v \<noteq> h" for v f
    using inv create(2) that unfolding seg_inv_def proxy_inv_def by (metis owned_simps(1))
  have mem: "\<exists>f. ?own v = Some f \<and> f \<noteq> fldes \<and> sh_name (sg_os s) f = Some j \<and> j < sh_next (sg_os s)"
    if v: "sg_mem s v = Some j" for v j
  proof -
    obtain f where f: "?own v = Some f" "sh_name (sg_os s) f = Some j" using seg_inv_mem [OF inv v] .
    have "v \<noteq> h" using v create(3) by auto
    with f uniq inv show ?thesis by (auto simp: seg_inv_def)
  qed
  show ?thesis unfolding seg_inv_def
  proof (intro conjI allI impI)
    show "proxy_inv n (sg_proxy s')" using inv create(1) by (simp add: seg_inv_def)
    show "sh_name (sg_os s') f = Some j \<Longrightarrow> j < sh_next (sg_os s')" for f j
      using inv c create(1) by (auto simp: seg_inv_def less_Suc_eq split: if_splits)
    show "sh_name (sg_os s') f = Some j \<Longrightarrow> sh_name (sg_os s') f' = Some j \<Longrightarrow> f = f'" for f f' j
      using inv c create(1) by (auto simp: seg_inv_def split: if_splits)
    show "\<exists>f. owned (px_handler (sg_proxy s') v) = Some f \<and> sh_name (sg_os s') f = Some j" if "sg_mem s' v = Some j" for v j
      using that mem [of v j] c create by (cases "v = h") auto
    show "\<exists>ob. sh_object (sg_os s') j = Some ob \<and> ob_mapped ob \<and> ob_ready ob \<and> ob_size ob = sz" if "sg_mem s' v = Some j" for v j
      using that mem [of v j] inv c create(1) by (cases "v = h") (auto simp: seg_inv_def)
  qed
next
  case (destroy h fldes k os p)
  note d = destroy_known [OF destroy(4)]
  let ?own = "\<lambda>v. owned (px_handler (sg_proxy s) v)"
  have "proxy_step (sg_proxy s) \<lparr>px_pool = p, px_handler = (px_handler (sg_proxy s))(h := Gave_back)\<rparr>"
    using destroy(2) d by (intro proxy_step.release) auto
  then have pinv: "proxy_inv n \<lparr>px_pool = p, px_handler = (px_handler (sg_proxy s))(h := Gave_back)\<rparr>"
    by (rule proxy_inv_step) (use inv in \<open>simp add: seg_inv_def\<close>)
  have name: "sh_name (sg_os s) fldes = Some k" using seg_inv_owned_name [OF inv destroy(3)] destroy(2) by simp
  have mem: "\<exists>f. ?own v = Some f \<and> f \<noteq> fldes \<and> sh_name (sg_os s) f = Some j \<and> j \<noteq> k" if v: "sg_mem s v = Some j" "v \<noteq> h" for v j
  proof -
    obtain f where f: "?own v = Some f" "sh_name (sg_os s) f = Some j" using seg_inv_mem [OF inv v(1)] .
    have "f \<noteq> fldes" using inv destroy(2) f(1) v(2) unfolding seg_inv_def proxy_inv_def by (metis owned_simps(1))
    moreover have "j \<noteq> k" using inv f(2) name \<open>f \<noteq> fldes\<close> unfolding seg_inv_def by metis
    ultimately show ?thesis using f by blast
  qed
  show ?thesis unfolding seg_inv_def
  proof (intro conjI allI impI)
    show "proxy_inv n (sg_proxy s')" using pinv destroy(1) by simp
    show "sh_name (sg_os s') f = Some j \<Longrightarrow> j < sh_next (sg_os s')" for f j
      using inv d destroy(1) by (auto simp: seg_inv_def split: if_splits)
    show "sh_name (sg_os s') f = Some j \<Longrightarrow> sh_name (sg_os s') f' = Some j \<Longrightarrow> f = f'" for f f' j
      using inv d destroy(1) by (auto simp: seg_inv_def split: if_splits)
    show "\<exists>f. owned (px_handler (sg_proxy s') v) = Some f \<and> sh_name (sg_os s') f = Some j" if "sg_mem s' v = Some j" for v j
      using that mem [of v j] d destroy(1) by (cases "v = h") auto
    show "\<exists>ob. sh_object (sg_os s') j = Some ob \<and> ob_mapped ob \<and> ob_ready ob \<and> ob_size ob = sz" if "sg_mem s' v = Some j" for v j
      using that mem [of v j] inv d destroy(1) by (cases "v = h") (auto simp: seg_inv_def)
  qed
next
  case (early h fldes k)
  have "proxy_step (sg_proxy s) ((sg_proxy s)\<lparr>px_handler := (px_handler (sg_proxy s))(h := Returned_early fldes)\<rparr>)"
    using early(2) by (rule proxy_step.write_error)
  then have "proxy_inv n ((sg_proxy s)\<lparr>px_handler := (px_handler (sg_proxy s))(h := Returned_early fldes)\<rparr>)"
    by (rule proxy_inv_step) (use inv in \<open>simp add: seg_inv_def\<close>)
  moreover have "owned (((px_handler (sg_proxy s))(h := Returned_early fldes)) v) = owned (px_handler (sg_proxy s) v)" for v
    using early(2) by simp
  ultimately show ?thesis using inv early(1) by (simp add: seg_inv_def del: fun_upd_apply)
qed

lemma seg_inv_reachable:
  assumes "seg_reachable sz (int n) s" and "int n \<le> int_max"
  shows "seg_inv n sz s"
proof -
  obtain p where p: "init_proxy (int n) = Inr p" "pool_ok n p" "steque_elems (fldes_queue p) = segment_names n"
    using init_proxy_known [OF assms(2)] by blast
  have "(seg_step sz)\<^sup>*\<^sup>* (seg_start p) s" using assms(1) p(1) by (auto simp: seg_reachable_def)
  then show ?thesis by (induction rule: rtranclp_induct) (auto intro: seg_inv_start [OF p(2,3)] seg_inv_step)
qed

section \<open>Shutting down\<close>

lemma unlink_all_elems:
  "steque_inv q \<Longrightarrow> n = length (steque_elems q) \<Longrightarrow>
   \<exists>q'. unlink_all n q os = Inr (q', os\<lparr>sh_name := (\<lambda>f. if f \<in> set (steque_elems q) then None else sh_name os f)\<rparr>) \<and>
     steque_inv q' \<and> steque_elems q' = []"
proof (induction n arbitrary: q os)
  case (Suc n)
  then obtain x xs where e: "steque_elems q = x # xs" by (cases "steque_elems q") auto
  obtain q1 where q1: "steque_pop q = Inr (x, q1)" "steque_inv q1" "steque_elems q1 = xs"
    using sq.deq_elems [OF Suc.prems(1) e] by blast
  have n: "n = length (steque_elems q1)" using Suc.prems(2) e q1(3) by simp
  have eq: "(\<lambda>f. if f \<in> set xs then None else ((sh_name os)(x := None)) f) = (\<lambda>f. if f \<in> set (x # xs) then None else sh_name os f)"
    by auto
  have sn: "snd (shm_unlink x os) = os\<lparr>sh_name := (sh_name os)(x := None)\<rparr>" by (simp add: shm_unlink_def)
  obtain q' where q': "unlink_all n q1 (snd (shm_unlink x os)) =
      Inr (q', os\<lparr>sh_name := (\<lambda>f. if f \<in> set xs then None else ((sh_name os)(x := None)) f)\<rparr>)"
    "steque_inv q'" "steque_elems q' = []"
    using Suc.IH [OF q1(2) n, of "snd (shm_unlink x os)"] unfolding sn q1(3) by (auto cong: if_cong)
  then show ?case using q1(1) e unfolding eq by (intro exI [of _ q']) simp
qed simp

section \<open>Properties\<close>

text \<open>
  C23: In every interleaving of the handlers, a request that has a segment has one of its
  own: mapped, initialised, of the configured size, and the name the request holds still
  denotes it, whatever the others create, unlink or leave behind. Destroying it never
  faults or waits, and a request whose \<open>shm_open\<close> is not refused always gets one.
\<close>

theorem segments_private:
  assumes "seg_reachable segment_size (int n) s" and "int n \<le> int_max"
  shows "(\<forall>h k. sg_mem s h = Some k \<longrightarrow>
      (\<exists>f. owned (px_handler (sg_proxy s) h) = Some f \<and> sh_name (sg_os s) f = Some k) \<and>
      (\<exists>ob. sh_object (sg_os s) k = Some ob \<and> ob_mapped ob \<and> ob_ready ob \<and> ob_size ob = segment_size)) \<and>
    (\<forall>h h' k. sg_mem s h = Some k \<longrightarrow> sg_mem s h' = Some k \<longrightarrow> h = h') \<and>
    (\<forall>h f k. px_handler (sg_proxy s) h = Holds f \<longrightarrow> sg_mem s h = Some k \<longrightarrow>
      (\<exists>r. destroy_shm_seg f k (sg_os s) (px_pool (sg_proxy s)) = Some (Inr r))) \<and>
    (\<forall>f. SHM_STRUCT \<le> segment_size \<longrightarrow> (\<exists>r. create_shm_channel True segment_size f (sg_os s) = Inr r))"
proof -
  have inv: "seg_inv n segment_size s" using assms by (rule seg_inv_reachable)
  then have pinv: "proxy_inv n (sg_proxy s)" by (simp add: seg_inv_def)
  then have ok: "pool_ok n (px_pool (sg_proxy s))" by (simp add: proxy_inv_def)
  have ob: "\<exists>ob. sh_object (sg_os s) k = Some ob \<and> ob_mapped ob \<and> ob_ready ob \<and> ob_size ob = segment_size"
    if "sg_mem s h = Some k" for h k using inv that unfolding seg_inv_def by blast
  have one: "h = h'" if m: "sg_mem s h = Some k" "sg_mem s h' = Some k" for h h' k
  proof -
    obtain f where f: "owned (px_handler (sg_proxy s) h) = Some f" "sh_name (sg_os s) f = Some k" using seg_inv_mem [OF inv m(1)] .
    obtain f' where f': "owned (px_handler (sg_proxy s) h') = Some f'" "sh_name (sg_os s) f' = Some k" using seg_inv_mem [OF inv m(2)] .
    have "f = f'" using inv f(2) f'(2) unfolding seg_inv_def by metis
    then show ?thesis using pinv f(1) f'(1) unfolding proxy_inv_def by metis
  qed
  have des: "\<exists>r. destroy_shm_seg f k (sg_os s) (px_pool (sg_proxy s)) = Some (Inr r)"
    if "px_handler (sg_proxy s) h = Holds f" "sg_mem s h = Some k" for h f k
    using release_ok [OF ok owner_room [OF pinv, of h f], of f] ob [OF that(2)] that(1)
    by (auto simp: destroy_shm_seg_def Let_def)
  have cre: "\<exists>r. create_shm_channel True segment_size f (sg_os s) = Inr r" if "SHM_STRUCT \<le> segment_size" for f
    using that by (auto simp: create_shm_channel_def shm_unlink_def shm_open_excl_def Let_def)
  have mem: "(\<exists>f. owned (px_handler (sg_proxy s) h) = Some f \<and> sh_name (sg_os s) f = Some k) \<and>
      (\<exists>ob. sh_object (sg_os s) k = Some ob \<and> ob_mapped ob \<and> ob_ready ob \<and> ob_size ob = segment_size)"
    if "sg_mem s h = Some k" for h k using seg_inv_mem [OF inv that] ob [OF that] by blast
  show ?thesis
    by (intro conjI; intro allI impI; (erule mem | erule (1) one | erule (1) des | erule cre))
qed

lemma sample_holder:
  "\<exists>s f. seg_reachable 1024 1 s \<and> px_handler (sg_proxy s) 0 = Holds f"
proof -
  obtain p where p: "init_proxy (int 1) = Inr p" "pool_ok 1 p" "steque_elems (fldes_queue p) = segment_names 1"
    using init_proxy_known [of 1] by (auto simp: int_max_def)
  obtain x xs where x: "segment_names 1 = x # xs" by (simp add: segment_names_def)
  obtain p' where p': "pool_acquire p = Some (Inr (x, p'))" using acquire_ok [OF p(2)] p(3) x by metis
  let ?s = "(seg_start p)\<lparr>sg_proxy := \<lparr>px_pool = p', px_handler = (px_handler (sg_proxy (seg_start p)))(0 := Holds x)\<rparr>\<rparr>"
  have "seg_step 1024 (seg_start p) ?s" using p' by (intro take_name) (simp_all add: seg_start_def)
  then have "seg_reachable 1024 1 ?s" using p(1) unfolding seg_reachable_def by auto
  moreover have "px_handler (sg_proxy ?s) 0 = Holds x" by simp
  ultimately show ?thesis by blast
qed

theorem segments_private_witness:
  "\<exists>s f r. seg_reachable 1024 1 s \<and> px_handler (sg_proxy s) 0 = Holds f \<and>
    create_shm_channel True 1024 f (sg_os s) = Inr r"
proof -
  obtain s f where s: "seg_reachable 1024 1 s" "px_handler (sg_proxy s) 0 = Holds f" using sample_holder by blast
  then have "seg_reachable 1024 (int 1) s" by simp
  from segments_private [OF this] have "\<exists>r. create_shm_channel True 1024 f (sg_os s) = Inr r"
    by (simp add: int_max_def SHM_STRUCT_def)
  with s show ?thesis by blast
qed



end
