(* ===== verification/MtServe.thy ===== *)
theory MtServe
  imports MtServer Mains Workload
begin

text \<open>
  The multithreaded GETFILE server as a whole: \<open>main\<close> of \<open>multithreadgetfile/gfserver_main.c\<close>
  up to the accept loop, and then the workers of \<open>handler.c\<close> serving in parallel. Here the
  body of the worker's loop is taken apart into its calls (look-up, seek, header, each read,
  each send), so that the copying of different files interleaves in every possible way over
  one index, one file system and one server library. The queue part of the system is the
  step relation of MtServer; a simulation carries its theorems over.
\<close>

section \<open>\<open>main\<close> up to \<open>gfserver_serve\<close>\<close>

definition mm_sig_handler :: "int \<Rightarrow> cfault + unit" where
  "mm_sig_handler signo = (if signo = 2 \<or> signo = 15 then Inl (Exit_program signo) else Inr ())"

record mm_env =
  mm_signals :: "bool \<times> bool"          \<comment> \<open>\<open>signal\<close> succeeds for \<open>SIGINT\<close>, \<open>SIGTERM\<close>\<close>
  mm_read :: "string \<Rightarrow> string option"
  mm_open :: "string \<Rightarrow> int"
  mm_junk :: "nat \<Rightarrow> nat \<Rightarrow> char"
  mm_create :: "nat \<Rightarrow> bool"            \<comment> \<open>\<open>pthread_create\<close> succeeds for worker \<open>i\<close>\<close>

text \<open>The loop that creates the workers stops at the first failure.\<close>

definition workers_created :: "(nat \<Rightarrow> bool) \<Rightarrow> nat \<Rightarrow> nat" where
  "workers_created create n = length (takeWhile create [0..<n])"

text \<open>The array of threads needs a positive length. The result: options, index, queue, workers.\<close>

definition mm_main :: "mm_env \<Rightarrow> string list \<Rightarrow> cfault + mm_opts \<times> content_state \<times> nat" where
  "mm_main env argv =
     (if \<not> fst (mm_signals env) then Inl (Exit_program EXIT_FAILURE)
      else if \<not> snd (mm_signals env) then Inl (Exit_program EXIT_FAILURE)
      else bindE (mm_options argv) (\<lambda>opts.
        bindE (content_init (mm_open env) (mm_junk env) (mm_read env (mm_content opts))) (\<lambda>content.
        bindE (assertE Out_of_bounds (0 < mm_nthreads opts)) (\<lambda>_.
        Inr (opts, content, workers_created (mm_create env) (nat (mm_nthreads opts)))))))"

section \<open>A worker serving, call by call\<close>

datatype serve_pc =
    S_get                               \<comment> \<open>at \<open>content_get\<close>\<close>
  | S_missing                           \<comment> \<open>the path was not found\<close>
  | S_size int                          \<comment> \<open>at \<open>lseek\<close>\<close>
  | S_header int int                    \<comment> \<open>descriptor and length, before the header\<close>
  | S_copy int int int                  \<comment> \<open>with the bytes transferred, at the test of the loop\<close>
  | S_send int int int int              \<comment> \<open>and what \<open>pread\<close> returned\<close>

record ('c, 'n) serve_env =
  sv_lib :: "('c, 'n) gfs_lib"
  sv_content :: content_state
  sv_plan :: "int \<Rightarrow> nat \<Rightarrow> nat option"

definition serve_move :: "('c, 'n) serve_env \<Rightarrow> 'c task \<Rightarrow> serve_pc \<Rightarrow> block \<Rightarrow> filesys \<Rightarrow> 'n \<Rightarrow>
    cfault + (serve_pc + serve_end) \<times> block \<times> filesys \<times> 'n" where
  "serve_move env t pc buffer fs n =
     (let lib = sv_lib env; ctx = tk_ctx t in
      case pc of
        S_get \<Rightarrow> bindE (content_get (sv_content env) (tk_path t) fs) (\<lambda>(fd, fs1).
          Inr (Inl (if fd < 0 then S_missing else S_size fd), buffer, fs1, n))
      | S_missing \<Rightarrow> Inr (Inr Thread_returns, buffer, fs, snd (gl_sendheader lib n ctx GF_FILE_NOT_FOUND 0))
      | S_size fd \<Rightarrow> (let (file_len, fs1) = lseek_end fs fd in
          Inr (Inl (S_header fd file_len), buffer, fs1, n))
      | S_header fd file_len \<Rightarrow>
          Inr (Inl (S_copy fd file_len 0), buffer, fs, snd (gl_sendheader lib n ctx GF_OK file_len))
      | S_copy fd file_len bytes_transferred \<Rightarrow>
          if bytes_transferred < file_len then
            let r = (if bytes_transferred < 0 then None
                     else read_fd fs (sv_plan env) fd (nat bytes_transferred) BUFFER_SIZE)
            in Inr (Inl (S_send fd file_len bytes_transferred (case r of None \<Rightarrow> - 1 | Some d \<Rightarrow> int (length d))),
                 case r of None \<Rightarrow> buffer | Some d \<Rightarrow> d @ drop (length d) buffer, fs, n)
          else Inr (Inr Next_task, buffer, fs, n)
      | S_send fd file_len bytes_transferred read_len \<Rightarrow>
          let n1 = (if read_len \<le> 0 then read_failed lib ctx n else n);
              w = gl_send lib n1 ctx buffer read_len;
              n2 = (if fst w \<noteq> read_len then read_failed lib ctx (snd w) else snd w)
          in Inr (Inl (S_copy fd file_len (bytes_transferred + fst w)), buffer, fs, n2))"

text \<open>
  The whole server: boss, queue and workers as in MtServer, where each worker that serves
  is, its buffer, the file system and the state of the server library.
\<close>

record ('c, 'n) mt_sys =
  ms_mt :: "'c mt_state"
  ms_pc :: "nat \<Rightarrow> serve_pc"
  ms_buffer :: "nat \<Rightarrow> block"
  ms_fs :: filesys
  ms_world :: 'n
  ms_fault :: "cfault option"

definition ms_start :: "nat \<Rightarrow> (nat \<Rightarrow> block) \<Rightarrow> filesys \<Rightarrow> 'n \<Rightarrow> ('c, 'n) mt_sys" where
  "ms_start workers buffers fs n = \<lparr>ms_mt = mt_start workers, ms_pc = (\<lambda>_. S_get), ms_buffer = buffers,
     ms_fs = fs, ms_world = n, ms_fault = None\<rparr>"

text \<open>The end of a task: the worker goes back to the lock or returns.\<close>

definition serve_done :: "nat \<Rightarrow> 'c task \<Rightarrow> serve_end \<Rightarrow> 'c mt_state \<Rightarrow> 'c mt_state" where
  "serve_done w t fin m = (set_worker w (case fin of Next_task \<Rightarrow> W_lock | Thread_returns \<Rightarrow> W_exit) m)
     \<lparr>mt_served := mt_served m @ [t]\<rparr>"

inductive ms_internal :: "('c, 'n) serve_env \<Rightarrow> ('c, 'n) mt_sys \<Rightarrow> ('c, 'n) mt_sys \<Rightarrow> bool"
  for env :: "('c, 'n) serve_env" where
  queue: "ms_fault s = None \<Longrightarrow> mt_internal (\<lambda>_. None) (ms_mt s) m' \<Longrightarrow> ms_internal env s (s\<lparr>ms_mt := m'\<rparr>)"
| serve: "ms_fault s = None \<Longrightarrow> mt_worker (ms_mt s) w = W_serve t \<Longrightarrow>
    serve_move env t (ms_pc s w) (ms_buffer s w) (ms_fs s) (ms_world s) = Inr (Inl pc, buffer, fs, n) \<Longrightarrow>
    ms_internal env s (s\<lparr>ms_pc := (ms_pc s)(w := pc), ms_buffer := (ms_buffer s)(w := buffer), ms_fs := fs, ms_world := n\<rparr>)"
| finish: "ms_fault s = None \<Longrightarrow> mt_worker (ms_mt s) w = W_serve t \<Longrightarrow>
    serve_move env t (ms_pc s w) (ms_buffer s w) (ms_fs s) (ms_world s) = Inr (Inr fin, buffer, fs, n) \<Longrightarrow>
    ms_internal env s (s\<lparr>ms_mt := serve_done w t fin (ms_mt s), ms_pc := (ms_pc s)(w := S_get),
      ms_buffer := (ms_buffer s)(w := buffer), ms_fs := fs, ms_world := n\<rparr>)"
| crash: "ms_fault s = None \<Longrightarrow> mt_worker (ms_mt s) w = W_serve t \<Longrightarrow>
    serve_move env t (ms_pc s w) (ms_buffer s w) (ms_fs s) (ms_world s) = Inl e \<Longrightarrow>
    ms_internal env s (s\<lparr>ms_fault := Some e\<rparr>)"

inductive ms_step :: "('c, 'n) serve_env \<Rightarrow> ('c, 'n) mt_sys \<Rightarrow> ('c, 'n) mt_sys \<Rightarrow> bool"
  for env :: "('c, 'n) serve_env" where
  ms_internal: "ms_internal env s s' \<Longrightarrow> ms_step env s s'"
| ms_arrival: "ms_fault s = None \<Longrightarrow> mt_boss (ms_mt s) = Boss_idle \<Longrightarrow>
    ms_step env s (s\<lparr>ms_mt := (ms_mt s)\<lparr>mt_boss := Boss_lock t\<rparr>\<rparr>)"
| ms_spurious: "ms_fault s = None \<Longrightarrow> mt_worker (ms_mt s) w = W_wait \<Longrightarrow>
    ms_step env s (s\<lparr>ms_mt := set_worker w W_wake (ms_mt s)\<rparr>)"

inductive_cases ms_internalE: "ms_internal env s s'"
inductive_cases ms_stepE: "ms_step env s s'"

definition ms_reachable :: "('c, 'n) serve_env \<Rightarrow> nat \<Rightarrow> (nat \<Rightarrow> block) \<Rightarrow> filesys \<Rightarrow> 'n \<Rightarrow> ('c, 'n) mt_sys \<Rightarrow> bool" where
  "ms_reachable env workers buffers fs n s \<longleftrightarrow> (ms_step env)\<^sup>*\<^sup>* (ms_start workers buffers fs n) s"

section \<open>What a worker relies on in the server library\<close>

text \<open>
  Contexts do not disturb each other; on a context that is \<open>good\<close> the header and the data
  arrive as they were given. \<open>sent\<close> is what a context's peer was sent so far.
\<close>

locale gfs_library =
  fixes lib :: "('c, 'n) gfs_lib"
    and sent :: "'c \<Rightarrow> 'n \<Rightarrow> char list"
    and good :: "'c \<Rightarrow> 'n \<Rightarrow> bool"
  assumes header: "good c n \<Longrightarrow> 0 \<le> len \<Longrightarrow> len < 2 ^ 63 \<Longrightarrow>
      good c (snd (gl_sendheader lib n c GF_OK len)) \<and> sent c (snd (gl_sendheader lib n c GF_OK len)) = sent c n @ ok_header (nat len)"
    and data: "good c n \<Longrightarrow> 0 \<le> k \<Longrightarrow> k \<le> int (length b) \<Longrightarrow> k \<le> int BUFFER_SIZE \<Longrightarrow>
      fst (gl_send lib n c b k) = k \<and> good c (snd (gl_send lib n c b k)) \<and>
      sent c (snd (gl_send lib n c b k)) = sent c n @ take (nat k) b"
    and header_frame: "c' \<noteq> c \<Longrightarrow> sent c' (snd (gl_sendheader lib n c st len)) = sent c' n \<and>
      good c' (snd (gl_sendheader lib n c st len)) = good c' n"
    and data_frame: "c' \<noteq> c \<Longrightarrow> sent c' (snd (gl_send lib n c b k)) = sent c' n \<and> good c' (snd (gl_send lib n c b k)) = good c' n"
    and abort_frame: "c' \<noteq> c \<Longrightarrow> sent c' (gl_abort lib n c) = sent c' n \<and> good c' (gl_abort lib n c) = good c' n"
begin

text \<open>Each context by itself is a sink for the copying loop.\<close>

sublocale sink: reply_sink "\<lambda>n. gl_send lib n c" "sent c" "good c" for c
  using data by unfold_locales auto

lemma failed_frame: "c' \<noteq> c \<Longrightarrow> sent c' (read_failed lib c n) = sent c' n \<and> good c' (read_failed lib c n) = good c' n"
  by (simp add: read_failed_def header_frame abort_frame)

lemma serve_move_frame:
  assumes "serve_move env t pc buf fs n = Inr (r, buf', fs', n')" and "sv_lib env = lib" and "c \<noteq> tk_ctx t"
  shows "sent c n' = sent c n \<and> good c n' = good c n"
  using assms(1,3)
  by (cases pc)
    (auto simp: serve_move_def assms(2) Let_def header_frame data_frame failed_frame split: if_split_asm prod.split_asm)

end

text \<open>The functions of the single-threaded server, one connection for each context.\<close>

definition per_context :: "(nat, nat \<Rightarrow> conn) gfs_lib" where
  "per_context = \<lparr>
     gl_sendheader = (\<lambda>n c st len. let r = gl_sendheader getfile_lib (n c) () st len in (fst r, n(c := snd r))),
     gl_send = (\<lambda>n c b k. let r = gl_send getfile_lib (n c) () b k in (fst r, n(c := snd r))),
     gl_abort = (\<lambda>n c. n(c := gl_abort getfile_lib (n c) ()))\<rparr>"

lemma getfile_header:
  assumes "willing c" and "0 \<le> len" and "len < 2 ^ 63"
  shows "willing (snd (gl_sendheader getfile_lib c () GF_OK len)) \<and>
    csent (snd (gl_sendheader getfile_lib c () GF_OK len)) = csent c @ ok_header (nat len)"
proof -
  have "size_of_int len = size_of_nat (nat len)" "nat len < 2 ^ 64"
    using assms(2,3) by (simp_all add: size_of_int_def size_of_nat_def)
  then have "unat (size_of_int len) = nat len" by (simp only: unat_size_of_nat)
  then show ?thesis using assms(1) by (simp add: getfile_lib_def gfs_sendheader_ok gfs_or_fail_def)
qed

interpretation contexts: gfs_library per_context "\<lambda>c n. csent (n c)" "\<lambda>c n. willing (n c)"
proof unfold_locales
  fix c k and n :: "nat \<Rightarrow> conn" and b :: block
  assume "willing (n c)" "0 \<le> k" "k \<le> int (length b)" "k \<le> int BUFFER_SIZE"
  from getfile.send_all [OF this] show "fst (gl_send per_context n c b k) = k \<and> willing (snd (gl_send per_context n c b k) c) \<and>
      csent (snd (gl_send per_context n c b k) c) = csent (n c) @ take (nat k) b"
    by (simp add: per_context_def Let_def)
qed (simp_all add: per_context_def Let_def getfile_header)

section \<open>One worker\<close>

definition serves_ok :: "('c, 'n) serve_env \<Rightarrow> filesys \<Rightarrow> bool" where
  "serves_ok env fs \<longleftrightarrow>
     store_ok \<lparr>st_content = sv_content env, st_fs = fs, st_plan = sv_plan env\<rparr> \<and>
     (\<forall>fd off. \<exists>n > 0. sv_plan env fd off = Some n)"

definition index_of :: "('c, 'n) serve_env \<Rightarrow> (string \<times> int) set" where
  "index_of env = set (entries (sv_content env))"

definition task_ok :: "'c task \<Rightarrow> bool" where
  "task_ok t \<longleftrightarrow> (\<exists>k. tk_path t = Some k \<and> NUL \<notin> set k)"

definition wants :: "('c, 'n) serve_env \<Rightarrow> 'c task \<Rightarrow> int \<Rightarrow> bool" where
  "wants env t fd \<longleftrightarrow> (\<exists>k. tk_path t = Some k \<and> NUL \<notin> set k \<and> (k, fd) \<in> index_of env \<and> 0 \<le> fd)"

definition indexed :: "('c, 'n) serve_env \<Rightarrow> 'c task \<Rightarrow> bool" where
  "indexed env t \<longleftrightarrow> (\<exists>k. tk_path t = Some k \<and> k \<in> fst ` index_of env)"

text \<open>How serving a task ends, which MtServer leaves open.\<close>

definition outcome :: "('c, 'n) serve_env \<Rightarrow> 'c task \<Rightarrow> serve_end option" where
  "outcome env t = Some (if indexed env t then Next_task else Thread_returns)"

type_synonym files_at = "int \<Rightarrow> char list option"

text \<open>
  What a serving worker knows: \<open>D\<close> are the files, \<open>sofar\<close> is what the context had been sent
  before. \<open>at c x\<close> says that the context is good and its peer was sent \<open>x\<close> since.
\<close>

primrec serving_ok :: "('c, 'n) serve_env \<Rightarrow> files_at \<Rightarrow> (char list \<Rightarrow> bool) \<Rightarrow> 'c task \<Rightarrow> block \<Rightarrow> serve_pc \<Rightarrow> bool" where
  "serving_ok env D at t buf S_get \<longleftrightarrow> task_ok t \<and> at []"
| "serving_ok env D at t buf S_missing \<longleftrightarrow> \<not> indexed env t"
| "serving_ok env D at t buf (S_size fd) \<longleftrightarrow> wants env t fd \<and> at []"
| "serving_ok env D at t buf (S_header fd len) \<longleftrightarrow> wants env t fd \<and> at [] \<and>
     (\<exists>d. D fd = Some d \<and> len = int (length d))"
| "serving_ok env D at t buf (S_copy fd len off) \<longleftrightarrow> wants env t fd \<and>
     (\<exists>d j. D fd = Some d \<and> len = int (length d) \<and> off = int j \<and> j \<le> length d \<and> at (ok_header (length d) @ take j d))"
| "serving_ok env D at t buf (S_send fd len off r) \<longleftrightarrow> wants env t fd \<and>
     (\<exists>d j x. D fd = Some d \<and> len = int (length d) \<and> off = int j \<and> j \<le> length d \<and> at (ok_header (length d) @ take j d) \<and>
        r = int (length x) \<and> x \<noteq> [] \<and> x = take (length x) (drop j d) \<and> length x \<le> BUFFER_SIZE \<and> take (length x) buf = x)"

definition served_ok :: "('c, 'n) serve_env \<Rightarrow> files_at \<Rightarrow> (char list \<Rightarrow> bool) \<Rightarrow> 'c task \<Rightarrow> bool" where
  "served_ok env D at t \<longleftrightarrow> (indexed env t \<longrightarrow> (\<exists>fd d. wants env t fd \<and> D fd = Some d \<and> at (ok_header (length d) @ d)))"

text \<open>How many calls a worker still makes for its task, when the files have \<open>M\<close> bytes at most.\<close>

primrec serve_rank :: "nat \<Rightarrow> serve_pc \<Rightarrow> nat" where
  "serve_rank M S_get = 2 * M + 6"
| "serve_rank M S_missing = 3"
| "serve_rank M (S_size fd) = 2 * M + 5"
| "serve_rank M (S_header fd len) = 2 * nat len + 4"
| "serve_rank M (S_copy fd len off) = 2 * nat (len - off) + 3"
| "serve_rank M (S_send fd len off r) = 2 * nat (len - off) + 2"

definition longest_file :: "('c, 'n) serve_env \<Rightarrow> files_at \<Rightarrow> nat" where
  "longest_file env D = fold max (map (\<lambda>(k, fd). case D fd of None \<Rightarrow> 0 | Some d \<Rightarrow> length d) (entries (sv_content env))) 0"

lemma fold_max_ge: "x \<in> set xs \<or> x \<le> y \<Longrightarrow> x \<le> fold max xs (y :: nat)"
proof (induction xs arbitrary: y)
  case (Cons a xs)
  then have "x \<in> set xs \<or> x \<le> max a y" by (auto simp: le_max_iff_disj)
  from Cons.IH [OF this] show ?case by simp
qed simp

lemma wants_longest: "wants env t fd \<Longrightarrow> D fd = Some d \<Longrightarrow> length d \<le> longest_file env D"
  unfolding longest_file_def by (rule fold_max_ge) (force simp: wants_def index_of_def)

lemma wants_indexed: "wants env t fd \<Longrightarrow> indexed env t"
  by (force simp: wants_def indexed_def)

text \<open>The state of a context relative to what it had been sent.\<close>

definition context_at :: "('c \<Rightarrow> 'n \<Rightarrow> char list) \<Rightarrow> ('c \<Rightarrow> 'n \<Rightarrow> bool) \<Rightarrow> ('c \<Rightarrow> char list) \<Rightarrow> 'c \<Rightarrow> 'n \<Rightarrow> char list \<Rightarrow> bool" where
  "context_at sent good sofar c n x \<longleftrightarrow> good c n \<and> sent c n = sofar c @ x"

text \<open>The verdict on one call of a worker.\<close>

definition move_ok :: "('c, 'n) serve_env \<Rightarrow> files_at \<Rightarrow> ('n \<Rightarrow> char list \<Rightarrow> bool) \<Rightarrow> 'c task \<Rightarrow> serve_pc \<Rightarrow>
    cfault + (serve_pc + serve_end) \<times> block \<times> filesys \<times> 'n \<Rightarrow> bool" where
  "move_ok env D at t pc res = (case res of
      Inl _ \<Rightarrow> False
    | Inr (Inl pc', buf', fs', n') \<Rightarrow> serving_ok env D (at n') t buf' pc' \<and> fdata fs' = D \<and>
        serve_rank (longest_file env D) pc' < serve_rank (longest_file env D) pc
    | Inr (Inr fin, buf', fs', n') \<Rightarrow> served_ok env D (at n') t \<and> fdata fs' = D \<and> outcome env t = Some fin \<and>
        2 < serve_rank (longest_file env D) pc)"

lemma served_missing: "\<not> indexed env t \<Longrightarrow> served_ok env D at t"
  by (simp add: served_ok_def)

lemma serves_ok_file:
  assumes "serves_ok env fs" and "wants env t fd"
  obtains d where "fdata fs fd = Some d" and "length d < 2 ^ 63"
  using assms by (fastforce simp: serves_ok_def store_ok_def wants_def index_of_def)

lemma move_get:
  assumes "serves_ok env fs" and "serving_ok env (fdata fs) (at n) t buf S_get"
  shows "move_ok env (fdata fs) at t S_get (serve_move env t S_get buf fs n)"
proof -
  let ?c = "sv_content env"
  have ok: "content_ok ?c" using assms(1) by (simp add: serves_ok_def store_ok_def)
  from assms(2) obtain k where k: "tk_path t = Some k" "NUL \<notin> set k" "at n []" by (auto simp: task_ok_def)
  show ?thesis
  proof (cases "k \<in> fst ` set (entries ?c)")
    case True
    from content_get_hit [OF ok k(2) True, of fs] obtain fd where
      "content_get ?c (Some k) fs = Inr (fd, lseek_set fs fd 0)" "(k, fd) \<in> set (entries ?c)" "0 \<le> fd" by blast
    with k show ?thesis by (simp add: move_ok_def serve_move_def wants_def index_of_def)
  next
    case False
    with content_get_miss [OF ok k(2) False, of fs] k show ?thesis
      by (simp add: move_ok_def serve_move_def indexed_def index_of_def)
  qed
qed

lemma move_size:
  assumes "serves_ok env fs" and "serving_ok env (fdata fs) (at n) t buf (S_size fd)"
  shows "move_ok env (fdata fs) at t (S_size fd) (serve_move env t (S_size fd) buf fs n)"
proof -
  have w: "wants env t fd" "at n []" using assms(2) by simp_all
  obtain d where d: "fdata fs fd = Some d" by (rule serves_ok_file [OF assms(1) w(1)])
  with w wants_longest [where D = "fdata fs", OF w(1) d] show ?thesis by (simp add: move_ok_def serve_move_def lseek_end_def)
qed

lemma move_copy:
  assumes "serves_ok env fs" and "serving_ok env (fdata fs) (at n) t buf (S_copy fd len off)"
  shows "move_ok env (fdata fs) at t (S_copy fd len off) (serve_move env t (S_copy fd len off) buf fs n)"
proof -
  from assms(2) obtain d j where w: "wants env t fd" and d: "fdata fs fd = Some d" "len = int (length d)" "off = int j" "j \<le> length d"
    and at: "at n (ok_header (length d) @ take j d)" by auto
  show ?thesis
  proof (cases "j < length d")
    case False
    with d at w wants_indexed [OF w] show ?thesis
      by (auto simp: move_ok_def serve_move_def served_ok_def outcome_def)
  next
    case True
    obtain m where m: "0 < m" "sv_plan env fd j = Some m" using assms(1) by (auto simp: serves_ok_def)
    obtain x where x: "read_fd fs (sv_plan env) fd j BUFFER_SIZE = Some x" "x \<noteq> []"
      using True m d(1) by (simp add: read_fd_def sys_pread_def BUFFER_SIZE_def)
    have "x = take (length x) (drop j d) \<and> length x \<le> BUFFER_SIZE"
      using fd.read_content [OF x(1)] d(1) by simp
    with True d at w x show ?thesis
      by (auto simp: move_ok_def serve_move_def)
  qed
qed

context gfs_library
begin

abbreviation at_ctx :: "('c \<Rightarrow> char list) \<Rightarrow> 'c task \<Rightarrow> 'n \<Rightarrow> char list \<Rightarrow> bool" where
  "at_ctx sofar t \<equiv> context_at sent good sofar (tk_ctx t)"

lemma move_header:
  assumes "serves_ok env fs" and "sv_lib env = lib" and "serving_ok env (fdata fs) (at_ctx sofar t n) t buf (S_header fd len)"
  shows "move_ok env (fdata fs) (at_ctx sofar t) t (S_header fd len) (serve_move env t (S_header fd len) buf fs n)"
proof -
  from assms(3) obtain d where w: "wants env t fd" and d: "fdata fs fd = Some d" "len = int (length d)"
    and at: "good (tk_ctx t) n" "sent (tk_ctx t) n = sofar (tk_ctx t)" by (auto simp: context_at_def)
  have l: "length d < 2 ^ 63" using serves_ok_file [OF assms(1) w] d by auto
  then have "good (tk_ctx t) (snd (gl_sendheader lib n (tk_ctx t) GF_OK len)) \<and>
      sent (tk_ctx t) (snd (gl_sendheader lib n (tk_ctx t) GF_OK len)) = sofar (tk_ctx t) @ ok_header (length d)"
    using header [OF at(1), of len] d at(2) by simp
  with d w assms(2) show ?thesis
    by (auto simp: move_ok_def serve_move_def context_at_def intro!: exI [of _ "0::nat"])
qed

lemma move_send:
  assumes "sv_lib env = lib" and "serving_ok env (fdata fs) (at_ctx sofar t n) t buf (S_send fd len off r)"
  shows "move_ok env (fdata fs) (at_ctx sofar t) t (S_send fd len off r) (serve_move env t (S_send fd len off r) buf fs n)"
proof -
  from assms(2) obtain d j x where w: "wants env t fd" and d: "fdata fs fd = Some d" "len = int (length d)" "off = int j" "j \<le> length d"
    and at: "good (tk_ctx t) n" "sent (tk_ctx t) n = sofar (tk_ctx t) @ ok_header (length d) @ take j d"
    and x: "r = int (length x)" "x \<noteq> []" "x = take (length x) (drop j d)" "length x \<le> BUFFER_SIZE" "take (length x) buf = x"
    by (auto simp: context_at_def)
  have lx: "length x \<le> length buf" "j + length x \<le> length d"
    using x(3,5) d(4) by (metis length_take min.cobounded1, metis length_take length_drop min.bounded_iff le_refl le_diff_conv2 add.commute)
  have pos: "0 < r" using x(1,2) by simp
  have s: "fst (gl_send lib n (tk_ctx t) buf r) = r" "good (tk_ctx t) (snd (gl_send lib n (tk_ctx t) buf r))"
    "sent (tk_ctx t) (snd (gl_send lib n (tk_ctx t) buf r)) = sent (tk_ctx t) n @ x"
    using data [OF at(1), of r buf] x lx by simp_all
  have "take j d @ x = take (j + length x) d" by (subst x(3)) (simp add: take_add)
  then have "context_at sent good sofar (tk_ctx t) (snd (gl_send lib n (tk_ctx t) buf r)) (ok_header (length d) @ take (j + length x) d)"
    using s at(2) by (simp add: context_at_def)
  moreover have "off + r = int (j + length x)" using d(3) x(1) by simp
  ultimately have "serving_ok env (fdata fs) (at_ctx sofar t (snd (gl_send lib n (tk_ctx t) buf r))) t buf (S_copy fd len (off + r))"
    using w d(1,2) lx(2) by (simp del: append_assoc of_nat_add)
  moreover have "serve_rank M (S_copy fd len (off + r)) < serve_rank M (S_send fd len off r)" for M
  proof -
    have "nat (len - (off + r)) = length d - (j + length x)" "nat (len - off) = length d - j"
      using d x(1) lx(2) by linarith+
    moreover have "0 < length x" using x(2) by simp
    ultimately show ?thesis unfolding serve_rank.simps using lx(2) by linarith
  qed
  ultimately show ?thesis using pos s(1) assms(1) by (simp add: move_ok_def serve_move_def Let_def)
qed

text \<open>Every call of a worker succeeds, keeps what it knows true and brings it closer to the end.\<close>

lemma serve_move_ok:
  assumes "serves_ok env fs" and "sv_lib env = lib" and "serving_ok env (fdata fs) (at_ctx sofar t n) t buf pc"
  shows "move_ok env (fdata fs) (at_ctx sofar t) t pc (serve_move env t pc buf fs n)"
proof (cases pc)
  case S_missing
  with assms show ?thesis by (simp add: move_ok_def serve_move_def served_missing outcome_def)
next
  case S_get
  show ?thesis using assms(3) unfolding S_get by (rule move_get [OF assms(1)])
next
  case (S_size fd)
  show ?thesis using assms(3) unfolding S_size by (rule move_size [OF assms(1)])
next
  case (S_header fd len)
  show ?thesis using assms(3) unfolding S_header by (rule move_header [OF assms(1,2)])
next
  case (S_copy fd len off)
  show ?thesis using assms(3) unfolding S_copy by (rule move_copy [OF assms(1)])
next
  case (S_send fd len off r)
  show ?thesis using assms(3) unfolding S_send by (rule move_send [OF assms(2)])
qed

end

section \<open>The queue part is MtServer's\<close>

lemma internal_any_job: "mt_internal (\<lambda>_. None) m m' \<Longrightarrow> mt_internal job m m'"
  by (induction rule: mt_internal.induct) (auto intro: mt_internal.intros)

text \<open>Only an unlock behind a pop makes a worker serve; nothing the queue part does ends it.\<close>

lemma queue_step_serving:
  assumes "mt_internal (\<lambda>_. None) m m'"
  shows "mt_served m' = mt_served m" and "mt_worker m w = W_serve t \<Longrightarrow> mt_worker m' w = W_serve t"
    and "mt_worker m' w = W_serve t \<Longrightarrow> mt_worker m w = W_serve t \<or> mt_worker m w = W_unlock t"
  using assms by (auto elim!: mt_internal.cases simp: set_worker_def wake_all_def split: if_splits)

lemma accepted_grows: "mt_internal job m m' \<Longrightarrow> \<exists>ts. mt_accepted m' = mt_accepted m @ ts"
  by (auto elim!: mt_internal.cases simp: set_worker_def wake_all_def)

lemma serve_done_step:
  assumes "mt_worker m w = W_serve t" and "job t = Some fin"
  shows "mt_internal job m (serve_done w t fin m)"
  using assms by (cases fin) (auto simp: serve_done_def intro: mt_internal.w_next mt_internal.w_return)

text \<open>With one context for each accepted task, a task in hand shares its context with no other.\<close>

lemma own_context:
  assumes "mt_conserved n m" and d: "distinct (map tk_ctx (mt_taken m))" and h: "in_hand (mt_worker m w) = {#t#}"
  shows "t' \<in> set (mt_served m) \<Longrightarrow> tk_ctx t' \<noteq> tk_ctx t"
    and "in_hand (mt_worker m v) = {#t'#} \<Longrightarrow> v \<noteq> w \<Longrightarrow> tk_ctx t' \<noteq> tk_ctx t"
proof -
  have m: "mset (mt_taken m) = mset (mt_served m) + (\<Sum>v<n. in_hand (mt_worker m v))"
    and out: "\<And>v. n \<le> v \<Longrightarrow> mt_worker m v = W_exit" using assms(1) by (simp_all add: mt_conserved_def)
  have lt: "v < n" if "in_hand (mt_worker m v) = {#x#}" for v x
    using that out [of v] by (auto simp: in_hand_def not_le [symmetric])
  have two: "tk_ctx x \<noteq> tk_ctx y" if "{#x, y#} \<subseteq># mset (mt_taken m)" for x y
  proof
    assume "tk_ctx x = tk_ctx y"
    have "image_mset tk_ctx {#x, y#} \<subseteq># image_mset tk_ctx (mset (mt_taken m))" using that by (rule image_mset_subseteq_mono)
    then have "{#tk_ctx y, tk_ctx y#} \<subseteq># mset (map tk_ctx (mt_taken m))" using \<open>tk_ctx x = tk_ctx y\<close> by simp
    then have "2 \<le> count (mset (map tk_ctx (mt_taken m))) (tk_ctx y)"
      using mset_subset_eq_count [of "{#tk_ctx y, tk_ctx y#}" _ "tk_ctx y"] by force
    then show False using d by (simp add: distinct_count_atmost_1 split: if_splits)
  qed
  have w: "(\<Sum>v<n. in_hand (mt_worker m v)) = {#t#} + (\<Sum>v\<in>{..<n} - {w}. in_hand (mt_worker m v))"
    using lt [OF h] h by (subst sum.remove [of _ w]) auto
  show "tk_ctx t' \<noteq> tk_ctx t" if "t' \<in> set (mt_served m)"
  proof (rule two)
    have "{#t'#} \<subseteq># mset (mt_served m)" using that by simp
    then have "{#t'#} + {#t#} \<subseteq># mset (mt_taken m)" unfolding m w by (intro subset_mset.add_mono) simp_all
    then show "{#t', t#} \<subseteq># mset (mt_taken m)" by (simp add: add_mset_commute)
  qed
  show "tk_ctx t' \<noteq> tk_ctx t" if v: "in_hand (mt_worker m v) = {#t'#}" "v \<noteq> w"
  proof (rule two)
    have "(\<Sum>v\<in>{..<n} - {w}. in_hand (mt_worker m v)) = {#t'#} + (\<Sum>v\<in>{..<n} - {w} - {v}. in_hand (mt_worker m v))"
      using lt [OF v(1)] v by (subst sum.remove [of _ v]) auto
    then show "{#t', t#} \<subseteq># mset (mt_taken m)" unfolding m w by (simp add: add_mset_commute)
  qed
qed

section \<open>All workers together\<close>

text \<open>Contexts nobody has answered or is answering are as they were at the start.\<close>

definition untouched :: "'c mt_state \<Rightarrow> 'c \<Rightarrow> bool" where
  "untouched m c \<longleftrightarrow> c \<notin> tk_ctx ` set (mt_served m) \<and> (\<forall>w t. mt_worker m w = W_serve t \<longrightarrow> tk_ctx t \<noteq> c)"

definition tasks_ok :: "'c mt_state \<Rightarrow> bool" where
  "tasks_ok m \<longleftrightarrow> distinct (map tk_ctx (mt_accepted m)) \<and> (\<forall>t \<in> set (mt_accepted m). task_ok t)"

lemma in_hand_accepted:
  assumes "mt_inv m" and "mt_conserved n m" and "in_hand (mt_worker m w) = {#t#}"
  shows "t \<in> set (mt_accepted m)"
proof -
  have "w < n" using assms(2,3) by (auto simp: mt_conserved_def in_hand_def not_le [symmetric])
  then have "in_hand (mt_worker m w) \<subseteq># (\<Sum>v<n. in_hand (mt_worker m v))" by (intro mset_subset_eq_exists_conv [THEN iffD2])
      (auto simp: sum.remove [of _ w])
  then have "t \<in># mset (mt_taken m)" using assms(2,3) by (auto simp: mt_conserved_def)
  then show ?thesis using assms(1) by (auto simp: mt_inv_def)
qed

context gfs_library
begin

definition sys_inv :: "('c, 'n) serve_env \<Rightarrow> files_at \<Rightarrow> ('c \<Rightarrow> char list) \<Rightarrow> nat \<Rightarrow> ('c, 'n) mt_sys \<Rightarrow> bool" where
  "sys_inv env D sofar workers s \<longleftrightarrow>
     ms_fault s = None \<and> fdata (ms_fs s) = D \<and> mt_inv (ms_mt s) \<and> mt_conserved workers (ms_mt s) \<and>
     (\<forall>w t. mt_worker (ms_mt s) w = W_serve t \<longrightarrow>
        serving_ok env D (at_ctx sofar t (ms_world s)) t (ms_buffer s w) (ms_pc s w)) \<and>
     (\<forall>w. (\<forall>t. mt_worker (ms_mt s) w \<noteq> W_serve t) \<longrightarrow> ms_pc s w = S_get) \<and>
     (\<forall>t \<in> set (mt_served (ms_mt s)). served_ok env D (at_ctx sofar t (ms_world s)) t) \<and>
     (\<forall>c. untouched (ms_mt s) c \<longrightarrow> context_at sent good sofar c (ms_world s) [])"

lemma sys_invD:
  assumes "sys_inv env D sofar workers s"
  shows "ms_fault s = None" "fdata (ms_fs s) = D" "mt_inv (ms_mt s)" "mt_conserved workers (ms_mt s)"
    "mt_worker (ms_mt s) w = W_serve t \<Longrightarrow> serving_ok env D (at_ctx sofar t (ms_world s)) t (ms_buffer s w) (ms_pc s w)"
    "(\<And>t. mt_worker (ms_mt s) w \<noteq> W_serve t) \<Longrightarrow> ms_pc s w = S_get"
    "t \<in> set (mt_served (ms_mt s)) \<Longrightarrow> served_ok env D (at_ctx sofar t (ms_world s)) t"
    "untouched (ms_mt s) c \<Longrightarrow> context_at sent good sofar c (ms_world s) []"
  using assms by (simp_all add: sys_inv_def)

lemma tasks_own:
  assumes "sys_inv env D sofar workers s" and "tasks_ok (ms_mt s)" and "in_hand (mt_worker (ms_mt s) w) = {#t#}"
  shows "t' \<in> set (mt_served (ms_mt s)) \<Longrightarrow> tk_ctx t' \<noteq> tk_ctx t"
    and "in_hand (mt_worker (ms_mt s) v) = {#t'#} \<Longrightarrow> v \<noteq> w \<Longrightarrow> tk_ctx t' \<noteq> tk_ctx t"
    and "task_ok t"
proof -
  have "distinct (map tk_ctx (mt_taken (ms_mt s)))"
    using sys_invD(3) [OF assms(1)] assms(2) by (auto simp: mt_inv_def tasks_ok_def)
  note own = own_context [OF sys_invD(4) [OF assms(1)] this assms(3)]
  show "t' \<in> set (mt_served (ms_mt s)) \<Longrightarrow> tk_ctx t' \<noteq> tk_ctx t"
    and "in_hand (mt_worker (ms_mt s) v) = {#t'#} \<Longrightarrow> v \<noteq> w \<Longrightarrow> tk_ctx t' \<noteq> tk_ctx t"
    by (rule own(1), assumption) (rule own(2))
  show "task_ok t"
    using in_hand_accepted [OF sys_invD(3,4) [OF assms(1)] assms(3)] assms(2) by (simp add: tasks_ok_def)
qed

lemma sys_inv_queue:
  assumes inv: "sys_inv env D sofar workers s" and ok: "tasks_ok (ms_mt s)"
    and m': "mt_inv m'" "mt_conserved workers m'" "mt_served m' = mt_served (ms_mt s)"
    and stay: "\<And>w t. mt_worker (ms_mt s) w = W_serve t \<Longrightarrow> mt_worker m' w = W_serve t"
    and new: "\<And>w t. mt_worker m' w = W_serve t \<Longrightarrow> mt_worker (ms_mt s) w = W_serve t \<or> mt_worker (ms_mt s) w = W_unlock t"
  shows "sys_inv env D sofar workers (s\<lparr>ms_mt := m'\<rparr>)"
proof -
  note I = sys_invD [OF inv]
  have un: "untouched (ms_mt s) c" if "untouched m' c" for c
    using that stay unfolding untouched_def m'(3) by blast
  have serving: "serving_ok env D (at_ctx sofar t (ms_world s)) t (ms_buffer s w) (ms_pc s w)" if w: "mt_worker m' w = W_serve t" for w t
  proof (cases "mt_worker (ms_mt s) w = W_serve t")
    case False
    with new [OF w] have u: "mt_worker (ms_mt s) w = W_unlock t" by blast
    then have h: "in_hand (mt_worker (ms_mt s) w) = {#t#}" by (simp add: in_hand_def)
    note own = tasks_own [OF inv ok h]
    have "untouched (ms_mt s) (tk_ctx t)"
      unfolding untouched_def
    proof (intro conjI allI impI notI)
      assume "tk_ctx t \<in> tk_ctx ` set (mt_served (ms_mt s))"
      then show False using own(1) by force
    next
      fix v t' assume v: "mt_worker (ms_mt s) v = W_serve t'" and eq: "tk_ctx t' = tk_ctx t"
      then have "v \<noteq> w" "in_hand (mt_worker (ms_mt s) v) = {#t'#}" using u by (auto simp: in_hand_def)
      from own(2) [OF this(2,1)] eq show False by simp
    qed
    then show ?thesis using I(6) [of w] I(8) own(3) u by simp
  qed (rule I(5))
  have "ms_pc s w = S_get" if "\<forall>t. mt_worker m' w \<noteq> W_serve t" for w using I(6) [of w] stay that by metis
  then show ?thesis using inv m' serving un by (simp add: sys_inv_def)
qed

lemma same_context: "c \<noteq> tk_ctx t \<Longrightarrow> sv_lib env = lib \<Longrightarrow> serve_move env t pc buf fs n = Inr (r, buf', fs', n') \<Longrightarrow>
    context_at sent good sofar c n' = context_at sent good sofar c n"
  using serve_move_frame [of env t pc buf fs n r buf' fs' n' c] by (auto simp: context_at_def)

lemma sys_inv_serve:
  assumes inv: "sys_inv env D sofar workers s" and ok: "tasks_ok (ms_mt s)" and lib: "sv_lib env = lib" and idx: "serves_ok env (ms_fs s)"
    and w: "mt_worker (ms_mt s) w = W_serve t"
    and run: "serve_move env t (ms_pc s w) (ms_buffer s w) (ms_fs s) (ms_world s) = Inr (Inl pc, buf, fs, n)"
  shows "sys_inv env D sofar workers (s\<lparr>ms_pc := (ms_pc s)(w := pc), ms_buffer := (ms_buffer s)(w := buf), ms_fs := fs, ms_world := n\<rparr>)
    \<and> serve_rank (longest_file env D) pc < serve_rank (longest_file env D) (ms_pc s w)"
proof -
  note I = sys_invD [OF inv]
  have h: "in_hand (mt_worker (ms_mt s) w) = {#t#}" using w by (simp add: in_hand_def)
  note own = tasks_own [OF inv ok h]
  have mv: "serving_ok env D (at_ctx sofar t n) t buf pc" "fdata fs = D"
    "serve_rank (longest_file env D) pc < serve_rank (longest_file env D) (ms_pc s w)"
    using serve_move_ok [OF idx lib, of sofar t "ms_world s" "ms_buffer s w" "ms_pc s w"] I(5) [OF w]
    by (simp_all add: I(2) run move_ok_def)
  have eq: "context_at sent good sofar c n = context_at sent good sofar c (ms_world s)" if "c \<noteq> tk_ctx t" for c
    using same_context [OF that lib run] .
  have others: "serving_ok env D (at_ctx sofar t' n) t' (ms_buffer s v) (ms_pc s v)"
    if v: "mt_worker (ms_mt s) v = W_serve t'" "v \<noteq> w" for v t'
    using own(2) [of v t'] v I(5) [OF v(1)] eq [of "tk_ctx t'"] by (simp add: in_hand_def)
  have served: "served_ok env D (at_ctx sofar t' n) t'" if "t' \<in> set (mt_served (ms_mt s))" for t'
    using own(1) [OF that] I(7) [OF that] eq [of "tk_ctx t'"] by simp
  have un: "context_at sent good sofar c n []" if "untouched (ms_mt s) c" for c
  proof -
    have "c \<noteq> tk_ctx t" using that w unfolding untouched_def by blast
    from eq [OF this] I(8) [OF that] show ?thesis by simp
  qed
  show ?thesis using inv mv w others served un by (auto simp: sys_inv_def)
qed

lemma sys_inv_finish:
  assumes inv: "sys_inv env D sofar workers s" and ok: "tasks_ok (ms_mt s)" and lib: "sv_lib env = lib" and idx: "serves_ok env (ms_fs s)"
    and w: "mt_worker (ms_mt s) w = W_serve t"
    and run: "serve_move env t (ms_pc s w) (ms_buffer s w) (ms_fs s) (ms_world s) = Inr (Inr fin, buf, fs, n)"
  shows "sys_inv env D sofar workers (s\<lparr>ms_mt := serve_done w t fin (ms_mt s), ms_pc := (ms_pc s)(w := S_get),
      ms_buffer := (ms_buffer s)(w := buf), ms_fs := fs, ms_world := n\<rparr>) \<and>
    outcome env t = Some fin \<and> 2 < serve_rank (longest_file env D) (ms_pc s w)"
proof -
  note I = sys_invD [OF inv]
  have h: "in_hand (mt_worker (ms_mt s) w) = {#t#}" using w by (simp add: in_hand_def)
  note own = tasks_own [OF inv ok h]
  have mv: "served_ok env D (at_ctx sofar t n) t" "fdata fs = D" "outcome env t = Some fin"
    "2 < serve_rank (longest_file env D) (ms_pc s w)"
    using serve_move_ok [OF idx lib, of sofar t "ms_world s" "ms_buffer s w" "ms_pc s w"] I(5) [OF w]
    by (simp_all add: I(2) run move_ok_def)
  have step: "mt_internal (outcome env) (ms_mt s) (serve_done w t fin (ms_mt s))" 
    by (rule serve_done_step [where job = "outcome env", OF w mv(3)])
  have inv': "mt_inv (serve_done w t fin (ms_mt s))" "mt_conserved workers (serve_done w t fin (ms_mt s))"
    by (rule mt_inv_internal [OF step I(3)], rule conserved_internal [OF step I(4)])
  have eq: "context_at sent good sofar c n = context_at sent good sofar c (ms_world s)" if "c \<noteq> tk_ctx t" for c
    using same_context [OF that lib run] .
  have done_worker: "mt_worker (serve_done w t fin (ms_mt s)) v = W_serve t' \<longleftrightarrow> v \<noteq> w \<and> mt_worker (ms_mt s) v = W_serve t'" for v t'
    by (cases fin) (auto simp: serve_done_def set_worker_def)
  have done_served: "mt_served (serve_done w t fin (ms_mt s)) = mt_served (ms_mt s) @ [t]" by (simp add: serve_done_def)
  have others: "serving_ok env D (at_ctx sofar t' n) t' (ms_buffer s v) (ms_pc s v)"
    if v: "mt_worker (ms_mt s) v = W_serve t'" "v \<noteq> w" for v t'
    using own(2) [of v t'] v I(5) [OF v(1)] eq [of "tk_ctx t'"] by (simp add: in_hand_def)
  have served: "served_ok env D (at_ctx sofar t' n) t'" if "t' \<in> set (mt_served (ms_mt s))" for t'
    using own(1) [OF that] I(7) [OF that] eq [of "tk_ctx t'"] by simp
  have un: "context_at sent good sofar c n []" if u: "untouched (serve_done w t fin (ms_mt s)) c" for c
  proof -
    have ne: "c \<noteq> tk_ctx t" using u by (auto simp: untouched_def done_served)
    have "untouched (ms_mt s) c"
      unfolding untouched_def
    proof (intro conjI allI impI)
      show "c \<notin> tk_ctx ` set (mt_served (ms_mt s))" using u by (auto simp: untouched_def done_served)
    next
      fix v t' assume "mt_worker (ms_mt s) v = W_serve t'"
      then show "tk_ctx t' \<noteq> c" using u ne w by (cases "v = w") (auto simp: untouched_def done_worker)
    qed
    from I(8) [OF this] eq [OF ne] show ?thesis by simp
  qed
  have "sys_inv env D sofar workers (s\<lparr>ms_mt := serve_done w t fin (ms_mt s), ms_pc := (ms_pc s)(w := S_get),
      ms_buffer := (ms_buffer s)(w := buf), ms_fs := fs, ms_world := n\<rparr>)"
    using I(1,6) inv' mv(1,2) others served un by (auto simp: sys_inv_def done_worker done_served)
  with mv show ?thesis by simp
qed

end

section \<open>How many steps are left\<close>

text \<open>A task costs \<open>2 * M + 8\<close> steps from the queue on; a wake-up costs each worker two.\<close>

primrec boss_work :: "nat \<Rightarrow> nat \<Rightarrow> 'c boss_pc \<Rightarrow> nat" where
  "boss_work M workers Boss_idle = 0"
| "boss_work M workers (Boss_lock t) = 2 * workers + 4 + (2 * M + 8)"
| "boss_work M workers (Boss_enqueue t) = 2 * workers + 3 + (2 * M + 8)"
| "boss_work M workers Boss_unlock = 2 * workers + 2"
| "boss_work M workers Boss_broadcast = 2 * workers + 1"

primrec worker_work :: "nat \<Rightarrow> serve_pc \<Rightarrow> 'c worker_pc \<Rightarrow> nat" where
  "worker_work M pc W_lock = 2"
| "worker_work M pc W_test = 1"
| "worker_work M pc W_wait = 0"
| "worker_work M pc W_wake = 2"
| "worker_work M pc W_pop = 0"
| "worker_work M pc (W_unlock t) = 2 * M + 7"
| "worker_work M pc (W_serve t) = serve_rank M pc"
| "worker_work M pc W_exit = 0"

definition queue_work :: "nat \<Rightarrow> nat \<Rightarrow> (nat \<Rightarrow> serve_pc) \<Rightarrow> 'c mt_state \<Rightarrow> nat" where
  "queue_work M workers pcs m = boss_work M workers (mt_boss m) + length (steque_elems (mt_queue m)) * (2 * M + 8) +
     (\<Sum>w<workers. worker_work M (pcs w) (mt_worker m w))"

definition ms_work :: "('c, 'n) serve_env \<Rightarrow> nat \<Rightarrow> ('c, 'n) mt_sys \<Rightarrow> nat" where
  "ms_work env workers s = queue_work (longest_file env (fdata (ms_fs s))) workers (ms_pc s) (ms_mt s)"

lemma sum_worker_upd:
  fixes w n :: nat
  assumes "w < n"
  shows "(\<Sum>v<n. worker_work M ((pcs(w := pc)) v) ((g(w := p)) v)) + worker_work M (pcs w) (g w) =
    (\<Sum>v<n. worker_work M (pcs v) (g v)) + worker_work M pc p"
proof -
  have "(\<lambda>v. worker_work M ((pcs(w := pc)) v) ((g(w := p)) v)) = (\<lambda>v. worker_work M (pcs v) (g v))(w := worker_work M pc p)"
    by auto
  then show ?thesis
    using sum_upd [OF assms, of "\<lambda>v. worker_work M (pcs v) (g v)" "worker_work M (pcs w) (g w)" "worker_work M pc p"] by metis
qed

lemma queue_work_move:
  assumes "mt_conserved n m" and "mt_worker m w \<noteq> W_exit"
  shows "queue_work M n (pcs(w := pc)) (set_worker w p m) + worker_work M (pcs w) (mt_worker m w) = queue_work M n pcs m + worker_work M pc p"
  using sum_worker_upd [OF conserved_lt [OF assms], of M pcs pc "mt_worker m" p]
  by (simp add: queue_work_def set_worker_def)

lemma queue_work_same [simp]:
  "queue_work M n pcs (m\<lparr>mt_lock := l\<rparr>) = queue_work M n pcs m" "queue_work M n pcs (m\<lparr>mt_served := ts\<rparr>) = queue_work M n pcs m"
  "queue_work M n pcs (m\<lparr>mt_taken := ts\<rparr>) = queue_work M n pcs m" "queue_work M n pcs (m\<lparr>mt_accepted := ts\<rparr>) = queue_work M n pcs m"
  by (simp_all add: queue_work_def)

lemma queue_work_wake: "(\<Sum>w<n. worker_work M (pcs w) (mt_worker (wake_all m) w)) \<le> (\<Sum>w<n. worker_work M (pcs w) (mt_worker m w)) + 2 * n"
proof -
  have "worker_work M (pcs w) (mt_worker (wake_all m) w) \<le> worker_work M (pcs w) (mt_worker m w) + 2" for w
    by (simp add: wake_all_def)
  then have "(\<Sum>w<n. worker_work M (pcs w) (mt_worker (wake_all m) w)) \<le> (\<Sum>w<n. worker_work M (pcs w) (mt_worker m w) + 2)"
    by (intro sum_mono)
  then show ?thesis by (simp only: sum.distrib) simp
qed

lemma queue_work_decreases:
  assumes run: "mt_internal (\<lambda>_. None) m m'" and inv: "mt_inv m" and cons: "mt_conserved n m"
    and get: "\<And>w t. mt_worker m w = W_unlock t \<Longrightarrow> pcs w = S_get"
  shows "queue_work M n pcs m' < queue_work M n pcs m"
proof -
  have move: "queue_work M n pcs (set_worker w p m) + worker_work M (pcs w) (mt_worker m w) = queue_work M n pcs m + worker_work M (pcs w) p"
    if "mt_worker m w \<noteq> W_exit" for w p
    using queue_work_move [OF cons that, of M pcs "pcs w" p] by simp
  from run show ?thesis
  proof cases
    case (boss_enqueue t q)
    have "steque_elems q = steque_elems (mt_queue m) @ [t]"
      using enqueue_Inr_elems [OF _ boss_enqueue(3)] inv by (simp add: mt_inv_def)
    with boss_enqueue show ?thesis by (simp add: queue_work_def)
  next
    case boss_broadcast
    with queue_work_wake [of M pcs m n] show ?thesis by (simp add: queue_work_def) (simp add: wake_all_def)
  next
    case (w_lock w)
    with move [of w W_test] show ?thesis by auto
  next
    case (w_wait w)
    with move [of w W_wait] show ?thesis by simp
  next
    case (w_nonempty w)
    with move [of w W_pop] show ?thesis by simp
  next
    case (w_pop w t q)
    then obtain x xs where x: "steque_elems (mt_queue m) = x # xs"
      using inv by (cases "steque_elems (mt_queue m)") (auto simp: mt_inv_def)
    with sq.deq_elems [OF _ x] w_pop(3) inv have q: "steque_elems q = xs" by (auto simp: mt_inv_def)
    have "queue_work M n pcs ((set_worker w (W_unlock t) m)\<lparr>mt_queue := q\<rparr>) + (2 * M + 8) = queue_work M n pcs (set_worker w (W_unlock t) m)"
      using q x by (simp add: queue_work_def set_worker_def)
    with w_pop move [of w "W_unlock t"] show ?thesis by (simp add: set_worker_def)
  next
    case (w_unlock w t)
    with move [of w "W_serve t"] get [of w t] show ?thesis by simp
  qed (simp_all add: queue_work_def)
qed

section \<open>Runs of the whole server\<close>

lemma serves_ok_fdata: "fdata fs = fdata fs' \<Longrightarrow> serves_ok env fs = serves_ok env fs'"
  by (simp add: serves_ok_def store_ok_def)

lemma tasks_ok_before:
  assumes "ms_step env s s'" and "tasks_ok (ms_mt s')"
  shows "tasks_ok (ms_mt s)"
proof -
  have "\<exists>ts. mt_accepted (ms_mt s') = mt_accepted (ms_mt s) @ ts"
    using assms(1)
    by (auto elim!: ms_stepE ms_internalE dest: accepted_grows simp: serve_done_def set_worker_def)
  with assms(2) show ?thesis by (auto simp: tasks_ok_def)
qed

context gfs_library
begin

lemma ms_internal_good:
  assumes step: "ms_internal env s s'" and ok': "tasks_ok (ms_mt s')" and inv: "sys_inv env D sofar workers s"
    and lib: "sv_lib env = lib" and idx: "serves_ok env fs0" "fdata fs0 = D"
  shows "sys_inv env D sofar workers s' \<and> ms_work env workers s' < ms_work env workers s \<and>
    (ms_mt s' = ms_mt s \<or> mt_internal (outcome env) (ms_mt s) (ms_mt s'))"
proof -
  have ok: "tasks_ok (ms_mt s)" using tasks_ok_before [OF ms_step.ms_internal [OF step] ok'] .
  note I = sys_invD [OF inv]
  have idx: "serves_ok env (ms_fs s)" using idx I(2) by (metis serves_ok_fdata)
  from step show ?thesis
  proof cases
    case (queue m')
    have "sys_inv env D sofar workers (s\<lparr>ms_mt := m'\<rparr>)"
    proof (rule sys_inv_queue [OF inv ok])
      show "mt_inv m'" "mt_conserved workers m'"
        by (rule mt_inv_internal [OF queue(3) I(3)], rule conserved_internal [OF queue(3) I(4)])
    qed (use queue_step_serving [OF queue(3)] in blast)+
    moreover have "queue_work M workers (ms_pc s) m' < queue_work M workers (ms_pc s) (ms_mt s)" for M
      using I(6) by (intro queue_work_decreases [OF queue(3) I(3,4)]) simp
    ultimately show ?thesis using queue internal_any_job by (auto simp: ms_work_def)
  next
    case (serve w t pc buf fs n)
    note g = sys_inv_serve [OF inv ok lib idx serve(3,4)]
    have set: "set_worker w (W_serve t) (ms_mt s) = ms_mt s"
      using serve(3) by (cases "ms_mt s") (auto simp: set_worker_def)
    have "fdata fs = D" using g by (auto simp: sys_inv_def)
    with queue_work_move [OF I(4), of w "longest_file env D" "ms_pc s" pc "W_serve t"] g serve I(2)
    show ?thesis by (simp add: ms_work_def set)
  next
    case (finish w t fin buf fs n)
    note g = sys_inv_finish [OF inv ok lib idx finish(3,4)]
    have "fdata fs = D" using g by (auto simp: sys_inv_def)
    with queue_work_move [OF I(4), of w "longest_file env D" "ms_pc s" S_get "case fin of Next_task \<Rightarrow> W_lock | Thread_returns \<Rightarrow> W_exit"]
      g finish I(2) serve_done_step [where job = "outcome env", OF finish(3), of fin]
    show ?thesis by (cases fin) (simp_all add: ms_work_def serve_done_def)
  next
    case (crash w t e)
    from serve_move_ok [OF idx lib, of sofar t "ms_world s" "ms_buffer s w" "ms_pc s w"] I(5) [OF crash(3)] crash(4) I(2)
    show ?thesis by (simp add: move_ok_def)
  qed
qed

lemma ms_step_good:
  assumes step: "ms_step env s s'" and ok': "tasks_ok (ms_mt s')" and inv: "sys_inv env D sofar workers s"
    and lib: "sv_lib env = lib" and idx: "serves_ok env fs0" "fdata fs0 = D"
  shows "sys_inv env D sofar workers s' \<and> (mt_step (outcome env))\<^sup>*\<^sup>* (ms_mt s) (ms_mt s')"
proof -
  have ok: "tasks_ok (ms_mt s)" using tasks_ok_before [OF step ok'] .
  note I = sys_invD [OF inv]
  from step show ?thesis
  proof cases
    case ms_internal
    from ms_internal_good [OF this ok' inv lib idx] show ?thesis by (auto intro: mt_step.internal)
  next
    case (ms_arrival t)
    have step: "mt_step (outcome env) (ms_mt s) (ms_mt s')"
      using ms_arrival by (auto intro: mt_step.arrival)
    moreover have "sys_inv env D sofar workers s'"
      unfolding ms_arrival(1)
      by (rule sys_inv_queue [OF inv ok]) (use mt_inv_step [OF step I(3)] conserved_step [OF step I(4)] ms_arrival(1) in simp_all)
    ultimately show ?thesis by blast
  next
    case (ms_spurious w)
    have step: "mt_step (outcome env) (ms_mt s) (ms_mt s')"
      using ms_spurious by (auto intro: mt_step.spurious)
    moreover have "sys_inv env D sofar workers s'"
      unfolding ms_spurious(1)
      by (rule sys_inv_queue [OF inv ok])
        (use mt_inv_step [OF step I(3)] conserved_step [OF step I(4)] ms_spurious in \<open>auto simp: set_worker_def split: if_splits\<close>)
    ultimately show ?thesis by blast
  qed
qed

lemma sys_inv_start:
  assumes "\<forall>c. good c n \<and> sent c n = sofar c"
  shows "sys_inv env (fdata fs) sofar workers (ms_start workers buffers fs n)"
  using assms mt_inv_start [of workers] conserved_reachable [of _ workers "mt_start workers"]
  by (auto simp: sys_inv_def ms_start_def context_at_def mt_reachable_def) (auto simp: mt_start_def split: if_splits)

lemma sys_inv_reachable:
  assumes "ms_reachable env workers buffers fs n s" and "tasks_ok (ms_mt s)" and "sv_lib env = lib"
    and "serves_ok env fs" and "\<forall>c. good c n \<and> sent c n = sofar c"
  shows "sys_inv env (fdata fs) sofar workers s \<and> mt_reachable (outcome env) workers (ms_mt s)"
  using assms(1,2) unfolding ms_reachable_def
proof (induction rule: rtranclp_induct)
  case base
  then show ?case using sys_inv_start [OF assms(5)] by (simp add: mt_reachable_def ms_start_def)
next
  case (step y z)
  have "tasks_ok (ms_mt y)" using tasks_ok_before [OF step.hyps(2) step.prems] .
  with step.IH have y: "sys_inv env (fdata fs) sofar workers y" "mt_reachable (outcome env) workers (ms_mt y)" by simp_all
  from ms_step_good [OF step.hyps(2) step.prems y(1) assms(3,4) refl] y(2) show ?case
    by (auto simp: mt_reachable_def)
qed

end

section \<open>When the server rests\<close>

lemma queue_rests:
  assumes inv: "mt_inv m" and room: "int (length (steque_elems (mt_queue m))) < int_max" and no: "\<nexists>m'. mt_internal job m m'"
  shows "mt_boss m = Boss_idle \<and> (\<forall>w. mt_worker m w = W_wait \<or> mt_worker m w = W_exit \<or> (\<exists>t. mt_worker m w = W_serve t))"
proof -
  have qi: "steque_inv (mt_queue m)" using inv by (simp add: mt_inv_def)
  have "\<not> inside m th" for th
  proof
    assume i: "inside m th"
    show False
    proof (cases th)
      case Boss
      with i consider t where "mt_boss m = Boss_enqueue t" | "mt_boss m = Boss_unlock"
        by (auto simp: inside_def boss_inside_def split: boss_pc.splits)
      then show False
      proof cases
        case 1
        obtain q where "steque_enqueue (mt_queue m) t = Inr q" using enqueue_elems [OF qi room, of t] by blast
        with 1 no show False by (blast intro: boss_enqueue)
      qed (use no in \<open>blast intro: boss_unlock\<close>)
    next
      case (Worker v)
      with i consider "mt_worker m v = W_test" | "mt_worker m v = W_pop" | t where "mt_worker m v = W_unlock t"
        by (auto simp: inside_def worker_inside_def split: worker_pc.splits)
      then show False
      proof cases
        case 1
        with no show False by (cases "steque_isempty (mt_queue m)") (blast intro: w_wait w_nonempty)+
      next
        case 2
        then obtain x xs where "steque_elems (mt_queue m) = x # xs"
          using inv by (cases "steque_elems (mt_queue m)") (auto simp: mt_inv_def)
        then obtain q where "steque_pop (mt_queue m) = Inr (x, q)" using sq.deq_elems [OF qi] by blast
        with 2 no show False by (blast intro: w_pop)
      qed (use no in \<open>blast intro: w_unlock\<close>)
    qed
  qed
  then have free: "mt_lock m = None" and out: "\<And>th. \<not> inside m th"
    using inv by (auto simp: mt_inv_def)
  have "mt_boss m = Boss_idle"
    using out [of Boss] free no
    by (cases "mt_boss m") (auto simp: inside_def boss_inside_def intro: boss_lock boss_broadcast)
  moreover have "mt_worker m w = W_wait \<or> mt_worker m w = W_exit \<or> (\<exists>t. mt_worker m w = W_serve t)" for w
  proof -
    have "mt_worker m w \<notin> {W_lock, W_wake}" using free no by (blast intro: w_lock)
    then show ?thesis using out [of "Worker w"]
      by (cases "mt_worker m w") (auto simp: inside_def worker_inside_def)
  qed
  ultimately show ?thesis by blast
qed

text \<open>A worker is only gone because of a task that made it return.\<close>

lemma exit_reason:
  assumes "mt_reachable job workers m"
  shows "\<forall>w < workers. mt_worker m w = W_exit \<longrightarrow> (\<exists>t \<in> set (mt_served m). job t = Some Thread_returns)"
  using assms unfolding mt_reachable_def
proof (induction rule: rtranclp_induct)
  case (step y z)
  from step.hyps(2) show ?case
  proof cases
    case internal
    then show ?thesis using step.IH
      by cases (auto simp: set_worker_def wake_all_def split: if_splits)
  qed (use step.IH in \<open>auto simp: set_worker_def\<close>)
qed (simp add: mt_start_def)

context gfs_library
begin

lemma ms_rests:
  assumes inv: "sys_inv env D sofar workers s" and reach: "mt_reachable (outcome env) workers (ms_mt s)"
    and lib: "sv_lib env = lib" and idx: "serves_ok env (ms_fs s)"
    and room: "int (length (mt_accepted (ms_mt s))) < int_max" and found: "\<forall>t \<in> set (mt_accepted (ms_mt s)). indexed env t"
    and some: "0 < workers" and no: "\<nexists>s'. ms_internal env s s'"
  shows "mt_boss (ms_mt s) = Boss_idle \<and> mset (mt_served (ms_mt s)) = mset (mt_accepted (ms_mt s))"
proof -
  note I = sys_invD [OF inv]
  have acc: "mt_accepted (ms_mt s) = mt_taken (ms_mt s) @ steque_elems (mt_queue (ms_mt s))" using I(3) by (simp add: mt_inv_def)
  have q: "\<nexists>m'. mt_internal (\<lambda>_. None) (ms_mt s) m'" using no I(1) by (blast intro: ms_internal.queue)
  have serving: "mt_worker (ms_mt s) w \<noteq> W_serve t" for w t
  proof
    assume w: "mt_worker (ms_mt s) w = W_serve t"
    from serve_move_ok [OF idx lib, of sofar t "ms_world s" "ms_buffer s w" "ms_pc s w"] I(2) I(5) [OF w]
    have mv: "move_ok env D (at_ctx sofar t) t (ms_pc s w) (serve_move env t (ms_pc s w) (ms_buffer s w) (ms_fs s) (ms_world s))" by simp
    then show False
    proof (cases "serve_move env t (ms_pc s w) (ms_buffer s w) (ms_fs s) (ms_world s)")
      case (Inr x)
      then show False using no I(1) w
        by (cases x; cases "fst x") (auto intro: ms_internal.serve ms_internal.finish)
    qed (simp add: move_ok_def)
  qed
  have "int (length (steque_elems (mt_queue (ms_mt s)))) < int_max" using room acc by simp
  from queue_rests [OF I(3) this q] serving
  have r: "mt_boss (ms_mt s) = Boss_idle" "\<And>w. mt_worker (ms_mt s) w = W_wait \<or> mt_worker (ms_mt s) w = W_exit" by blast+
  have hand: "in_hand (mt_worker (ms_mt s) w) = {#}" for w using r(2) [of w] by (auto simp: in_hand_def)
  then have taken: "mset (mt_taken (ms_mt s)) = mset (mt_served (ms_mt s))" using I(4) by (simp add: mt_conserved_def)
  then have "\<forall>t \<in> set (mt_served (ms_mt s)). indexed env t"
    using found acc by (metis Un_iff set_append set_mset_mset)
  then have "mt_worker (ms_mt s) 0 \<noteq> W_exit"
    using exit_reason [OF reach] some by (auto simp: outcome_def)
  with r(2) [of 0] have "mt_worker (ms_mt s) 0 = W_wait" by simp
  then have "steque_elems (mt_queue (ms_mt s)) = []" using I(3) r(1) by (auto simp: mt_inv_def)
  with acc taken r(1) show ?thesis by simp
qed

text \<open>From any reachable state, the steps the server makes on its own.\<close>

lemma ms_run_bounded:
  assumes "(ms_internal env ^^ k) s s'" and "tasks_ok (ms_mt s')" and "sys_inv env D sofar workers s"
    and "sv_lib env = lib" and "serves_ok env fs0" "fdata fs0 = D"
  shows "sys_inv env D sofar workers s' \<and> ms_work env workers s' + k \<le> ms_work env workers s \<and>
    (mt_step (outcome env))\<^sup>*\<^sup>* (ms_mt s) (ms_mt s')"
  using assms(1,2)
proof (induction k arbitrary: s')
  case (Suc k)
  from Suc.prems(1) obtain y where y: "(ms_internal env ^^ k) s y" "ms_internal env y s'" by auto
  have ok: "tasks_ok (ms_mt y)" using tasks_ok_before [OF ms_step.ms_internal [OF y(2)] Suc.prems(2)] .
  from Suc.IH [OF y(1) ok] have ih: "sys_inv env D sofar workers y" "ms_work env workers y + k \<le> ms_work env workers s"
    "(mt_step (outcome env))\<^sup>*\<^sup>* (ms_mt s) (ms_mt y)" by simp_all
  from ms_internal_good [OF y(2) Suc.prems(2) ih(1) assms(4-6)] ih(2,3) show ?case
    by (auto intro: mt_step.internal rtranclp.rtrancl_into_rtrancl)
qed (use assms in simp)

end

section \<open>Properties\<close>

text \<open>The server behind \<open>main\<close>, with the index it loaded.\<close>

definition mm_serving :: "('c, 'n) gfs_lib \<Rightarrow> content_state \<Rightarrow> (int \<Rightarrow> nat \<Rightarrow> nat option) \<Rightarrow> ('c, 'n) serve_env" where
  "mm_serving lib content plan = \<lparr>sv_lib = lib, sv_content = content, sv_plan = plan\<rparr>"

lemma mm_main_index:
  assumes "mm_main env argv = Inr (opts, content, workers)" and "mm_read env (mm_content opts) = Some (concat (map render_entry es))"
  shows "content_init (mm_open env) (mm_junk env) (Some (concat (map render_entry es))) = Inr content"
  using assms by (auto simp: mm_main_def split: if_splits)

lemma mm_serves_ok:
  assumes "mm_main env argv = Inr (opts, content, workers)" and "mm_read env (mm_content opts) = Some (concat (map render_entry es))"
    and "length es < 2 ^ 30" and "distinct (map fst es)"
    and "\<forall>e \<in> set es. entry_ok e \<and> 0 \<le> mm_open env (snd e) \<and> (\<exists>d. fdata fs (mm_open env (snd e)) = Some d \<and> length d < 2 ^ 63)"
    and "\<forall>fd off. \<exists>n > 0. plan fd off = Some n"
  shows "serves_ok (mm_serving lib content plan) fs"
    and "indexed (mm_serving lib content plan) t \<longleftrightarrow> (\<exists>p. tk_path t = Some p \<and> p \<in> fst ` set es)"
    and "wants (mm_serving lib content plan) t fd \<Longrightarrow> fdata fs fd = Some (indexed_file fs (mm_open env) es (the (tk_path t)))"
  using index_loaded [OF mm_main_index [OF assms(1,2)] assms(3,5,4)] assms(6)
  by (auto simp: serves_ok_def mm_serving_def indexed_def index_of_def wants_def)

text \<open>A server with one file and two workers, and the only connection it gets.\<close>

definition sample_mm :: mm_env where
  "sample_mm = \<lparr>mm_signals = (True, True), mm_read = [''content.txt'' \<mapsto> concat (map render_entry [(''/a.txt'', ''x.txt'')])],
     mm_open = sample_open, mm_junk = (\<lambda>_ _. CHR ''z''), mm_create = (\<lambda>_. True)\<rparr>"

definition sample_files :: filesys where
  "sample_files = \<lparr>fdata = [5 \<mapsto> ''hello''], foff = (\<lambda>_. 0)\<rparr>"

definition sample_task :: "nat task" where
  "sample_task = \<lparr>tk_ctx = 7, tk_path = Some ''/a.txt''\<rparr>"

definition sample_arrival :: "(nat, nat \<Rightarrow> conn) mt_sys" where
  "sample_arrival = (let s = ms_start 2 (\<lambda>_. []) sample_files (\<lambda>_. sample_conn)
     in s\<lparr>ms_mt := (ms_mt s)\<lparr>mt_boss := Boss_lock sample_task\<rparr>\<rparr>)"

definition one_task :: "'c task \<Rightarrow> 'c mt_state \<Rightarrow> bool" where
  "one_task t m \<longleftrightarrow> (mt_boss m = Boss_lock t \<or> mt_boss m = Boss_enqueue t) \<and> mt_accepted m = [] \<or>
     (mt_boss m = Boss_unlock \<or> mt_boss m = Boss_broadcast \<or> mt_boss m = Boss_idle) \<and> mt_accepted m = [t]"

lemma one_task_internal: "ms_internal env s s' \<Longrightarrow> one_task t (ms_mt s) \<Longrightarrow> one_task t (ms_mt s')"
proof (induction rule: ms_internal.induct)
  case (queue s m')
  then show ?case by (auto elim!: mt_internal.cases simp: one_task_def set_worker_def wake_all_def)
qed (auto simp: one_task_def serve_done_def set_worker_def)

lemma one_task_run: "(ms_internal env ^^ k) s s' \<Longrightarrow> one_task t (ms_mt s) \<Longrightarrow> one_task t (ms_mt s')"
proof (induction k arbitrary: s')
  case (Suc k)
  then obtain y where "(ms_internal env ^^ k) s y" "ms_internal env y s'" by auto
  with Suc one_task_internal show ?case by blast
qed simp

lemma bounded_run_rests:
  assumes "\<And>k s'. (R ^^ k) s s' \<Longrightarrow> k \<le> b"
  shows "\<exists>k s'. (R ^^ k) s s' \<and> (\<nexists>s''. R s' s'')"
proof (rule ccontr)
  assume no: "\<not> ?thesis"
  have "\<exists>s'. (R ^^ k) s s'" for k
  proof (induction k)
    case (Suc k)
    then obtain s' where "(R ^^ k) s s'" by blast
    with no obtain s'' where "R s' s''" by blast
    with \<open>(R ^^ k) s s'\<close> show ?case by auto
  qed simp
  then show False using assms [of "Suc b"] by (meson not_less_eq_eq order_refl)
qed

lemma sample_index:
  "\<forall>e \<in> set [(''/a.txt'', ''x.txt'')]. entry_ok e \<and> 0 \<le> mm_open sample_mm (snd e) \<and>
     (\<exists>d. fdata sample_files (mm_open sample_mm (snd e)) = Some d \<and> length d < 2 ^ 63)"
  "mm_read sample_mm ''content.txt'' = Some (concat (map render_entry [(''/a.txt'', ''x.txt'')]))"
  by (simp_all add: sample_mm_def sample_files_def sample_open_def entry_ok_def word_ok_def newline_def nonblank_def blanks_def)

lemma sample_main:
  obtains content where "mm_main sample_mm [''-t'', ''2''] = Inr (mm_defaults\<lparr>mm_nthreads := 2\<rparr>, content, 2)"
proof -
  have o: "mm_options [''-t'', ''2''] = Inr (mm_defaults\<lparr>mm_nthreads := 2\<rparr>)" by code_simp
  obtain c where "content_init (mm_open sample_mm) (mm_junk sample_mm) (Some (concat (map render_entry [(''/a.txt'', ''x.txt'')]))) = Inr c"
    using content_init_render [of "[(''/a.txt'', ''x.txt'')]" "mm_open sample_mm" "mm_junk sample_mm"] sample_index(1) by auto
  moreover have "workers_created (mm_create sample_mm) (nat 2) = 2" by (simp add: workers_created_def sample_mm_def upt_rec)
  ultimately have "mm_main sample_mm [''-t'', ''2''] = Inr (mm_defaults\<lparr>mm_nthreads := 2\<rparr>, c, 2)"
    using o sample_index(2) by (simp add: mm_main_def mm_defaults_def) (simp add: sample_mm_def)
  then show thesis by (rule that)
qed

lemma sample_run:
  assumes "mm_main sample_mm [''-t'', ''2''] = Inr (mm_defaults\<lparr>mm_nthreads := 2\<rparr>, content, 2)"
  obtains k s where "(ms_internal (mm_serving per_context content copy_plan) ^^ k) sample_arrival s"
    and "\<nexists>s'. ms_internal (mm_serving per_context content copy_plan) s s'"
    and "mt_accepted (ms_mt s) = [sample_task]" and "set (mt_served (ms_mt s)) = {sample_task}"
    and "ms_reachable (mm_serving per_context content copy_plan) 2 (\<lambda>_. []) sample_files (\<lambda>_. sample_conn) sample_arrival"
    and "ms_reachable (mm_serving per_context content copy_plan) 2 (\<lambda>_. []) sample_files (\<lambda>_. sample_conn) s"
proof -
  let ?env = "mm_serving per_context content copy_plan"
  have r: "mm_read sample_mm (mm_content (mm_defaults\<lparr>mm_nthreads := 2\<rparr>)) = Some (concat (map render_entry [(''/a.txt'', ''x.txt'')]))"
    using sample_index(2) by (simp add: mm_defaults_def)
  have plan: "\<forall>fd off. \<exists>n > 0. copy_plan fd off = Some n" by (auto simp: copy_plan_def)
  note ok = mm_serves_ok [OF assms r _ _ sample_index(1) plan, where lib = per_context]
  have sv: "serves_ok ?env sample_files" by (rule ok(1)) simp_all
  have ix: "indexed ?env sample_task" by (subst ok(2)) (simp_all add: sample_task_def)
  have lib: "sv_lib ?env = per_context" by (simp add: mm_serving_def)
  have start: "\<forall>c :: nat. willing sample_conn \<and> csent sample_conn = []" by (simp add: sample_conn_def willing_def)
  have "ms_step ?env (ms_start 2 (\<lambda>_. []) sample_files (\<lambda>_. sample_conn)) sample_arrival"
    unfolding sample_arrival_def Let_def by (rule ms_arrival) (simp_all add: ms_start_def mt_start_def)
  then have reach: "ms_reachable ?env 2 (\<lambda>_. []) sample_files (\<lambda>_. sample_conn) sample_arrival"
    by (auto simp: ms_reachable_def)
  have one: "one_task sample_task (ms_mt sample_arrival)"
    by (simp add: sample_arrival_def one_task_def ms_start_def mt_start_def)
  have tasks: "tasks_ok m" if "one_task sample_task m" for m
    using that by (auto simp: one_task_def tasks_ok_def task_ok_def sample_task_def)
  from contexts.sys_inv_reachable [OF reach tasks [OF one] lib sv start]
  have inv: "contexts.sys_inv ?env (fdata sample_files) (\<lambda>_. []) 2 sample_arrival" by simp
  have "\<exists>k s. (ms_internal ?env ^^ k) sample_arrival s \<and> (\<nexists>s'. ms_internal ?env s s')"
    by (rule bounded_run_rests [of _ _ "ms_work ?env 2 sample_arrival"])
      (use contexts.ms_run_bounded [OF _ tasks [OF one_task_run [OF _ one]] inv lib sv refl] in fastforce)
  then obtain k s where run: "(ms_internal ?env ^^ k) sample_arrival s" and rest: "\<nexists>s'. ms_internal ?env s s'" by blast
  have o: "one_task sample_task (ms_mt s)" by (rule one_task_run [OF run one])
  have "(ms_step ?env)\<^sup>*\<^sup>* sample_arrival s"
    using relpowp_imp_rtranclp [OF run] mono_rtranclp [of "ms_internal ?env" "ms_step ?env"] by (blast intro: ms_step.ms_internal)
  then have reach': "ms_reachable ?env 2 (\<lambda>_. []) sample_files (\<lambda>_. sample_conn) s"
    using reach unfolding ms_reachable_def by (rule rtranclp_trans [rotated])
  from contexts.sys_inv_reachable [OF reach' tasks [OF o] lib sv start]
  have inv': "contexts.sys_inv ?env (fdata sample_files) (\<lambda>_. []) 2 s" "mt_reachable (outcome ?env) 2 (ms_mt s)" by simp_all
  have "serves_ok ?env (ms_fs s)" using sv contexts.sys_invD(2) [OF inv'(1)] by (metis serves_ok_fdata)
  moreover have "int (length (mt_accepted (ms_mt s))) < int_max" "\<forall>t \<in> set (mt_accepted (ms_mt s)). indexed ?env t"
    using o ix by (auto simp: one_task_def int_max_def)
  ultimately have "mt_boss (ms_mt s) = Boss_idle \<and> mset (mt_served (ms_mt s)) = mset (mt_accepted (ms_mt s))"
    using rest by (intro contexts.ms_rests [OF inv' lib]) simp_all
  then have "mt_accepted (ms_mt s) = [sample_task]" "set (mt_served (ms_mt s)) = {sample_task}"
    using o by (auto simp: one_task_def)
  with run rest reach reach' that show thesis by blast
qed

lemma sample_file: "indexed_file sample_files (mm_open sample_mm) [(''/a.txt'', ''x.txt'')] ''/a.txt'' = ''hello''"
  by (simp add: indexed_file_def sample_files_def sample_mm_def sample_open_def)

lemma sample_mm_index:
  "mm_read sample_mm (mm_content (mm_defaults\<lparr>mm_nthreads := 2\<rparr>)) = Some (concat (map render_entry [(''/a.txt'', ''x.txt'')]))"
  using sample_index(2) by (simp add: mm_defaults_def)

lemma sample_plan: "\<forall>fd off. \<exists>n > 0. copy_plan fd off = Some n"
  by (auto simp: copy_plan_def)

lemma sample_fresh: "\<forall>c :: nat. willing sample_conn \<and> csent sample_conn = []"
  by (simp add: sample_conn_def willing_def)

text \<open>What every served task has on its connection, in any reachable state.\<close>

lemma mt_served_bytes:
  assumes "mm_main env argv = Inr (opts, content, workers)" and "mm_read env (mm_content opts) = Some (concat (map render_entry es))"
    and "length es < 2 ^ 30" and "distinct (map fst es)"
    and "\<forall>e \<in> set es. entry_ok e \<and> 0 \<le> mm_open env (snd e) \<and> (\<exists>d. fdata fs (mm_open env (snd e)) = Some d \<and> length d < 2 ^ 63)"
    and "\<forall>fd off. \<exists>n > 0. plan fd off = Some n"
    and "gfs_library lib sent good" and "\<forall>c. good c n \<and> sent c n = sofar c"
    and "ms_reachable (mm_serving lib content plan) workers buffers fs n s"
    and "distinct (map tk_ctx (mt_accepted (ms_mt s)))" and "\<forall>t \<in> set (mt_accepted (ms_mt s)). task_ok t"
  shows "ms_fault s = None \<and> mt_reachable (outcome (mm_serving lib content plan)) workers (ms_mt s) \<and>
    (\<forall>t \<in> set (mt_served (ms_mt s)). \<forall>p \<in> fst ` set es. tk_path t = Some p \<longrightarrow>
       sent (tk_ctx t) (ms_world s) = sofar (tk_ctx t) @ ok_header (length (indexed_file fs (mm_open env) es p)) @ indexed_file fs (mm_open env) es p)"
proof -
  note ok = mm_serves_ok [OF assms(1-6), where lib = lib]
  have "tasks_ok (ms_mt s)" using assms(10,11) by (simp add: tasks_ok_def)
  from gfs_library.sys_inv_reachable [OF assms(7,9) this _ ok(1) assms(8)]
  have r: "gfs_library.sys_inv sent good (mm_serving lib content plan) (fdata fs) sofar workers s"
    "mt_reachable (outcome (mm_serving lib content plan)) workers (ms_mt s)" by (simp_all add: mm_serving_def)
  note I = gfs_library.sys_invD [OF assms(7) r(1)]
  have "sent (tk_ctx t) (ms_world s) = sofar (tk_ctx t) @ ok_header (length (indexed_file fs (mm_open env) es p)) @ indexed_file fs (mm_open env) es p"
    if t: "t \<in> set (mt_served (ms_mt s))" "tk_path t = Some p" "p \<in> fst ` set es" for t p
  proof -
    have "indexed (mm_serving lib content plan) t" using t ok(2) by blast
    with I(7) [OF t(1)] obtain fd d where w: "wants (mm_serving lib content plan) t fd" and d: "fdata fs fd = Some d"
      and at: "context_at sent good sofar (tk_ctx t) (ms_world s) (ok_header (length d) @ d)" by (auto simp: served_ok_def)
    have "d = indexed_file fs (mm_open env) es p" using ok(3) [OF w] d t(2) by simp
    with at show ?thesis by (simp add: context_at_def)
  qed
  with I(1) r(2) show ?thesis by blast
qed

text \<open>
  C3: The multithreaded server as it is started, at the grain of single calls. In every
  reachable state of every interleaving in which each accepted connection has a context of
  its own: no worker faults, the queue and the locks behave as in the abstract server of
  MtServer (so everything proved there holds), and every task that was served has the header
  and exactly the bytes of the file its index line names on its own connection, whatever the
  other workers were sending meanwhile.
\<close>

theorem mt_server_refines:
  assumes "mm_main env argv = Inr (opts, content, workers)" and "mm_read env (mm_content opts) = Some (concat (map render_entry es))"
    and "length es < 2 ^ 30" and "distinct (map fst es)"
    and "\<forall>e \<in> set es. entry_ok e \<and> 0 \<le> mm_open env (snd e) \<and> (\<exists>d. fdata fs (mm_open env (snd e)) = Some d \<and> length d < 2 ^ 63)"
    and "\<forall>fd off. \<exists>n > 0. plan fd off = Some n"
    and "gfs_library lib sent good" and "\<forall>c. good c n \<and> sent c n = sofar c"
    and "ms_reachable (mm_serving lib content plan) workers buffers fs n s"
    and "distinct (map tk_ctx (mt_accepted (ms_mt s)))" and "\<forall>t \<in> set (mt_accepted (ms_mt s)). task_ok t"
  shows "ms_fault s = None \<and> mt_reachable (outcome (mm_serving lib content plan)) workers (ms_mt s) \<and>
    (\<forall>t \<in> set (mt_served (ms_mt s)). \<forall>p \<in> fst ` set es. tk_path t = Some p \<longrightarrow>
       sent (tk_ctx t) (ms_world s) = sofar (tk_ctx t) @ ok_header (length (indexed_file fs (mm_open env) es p)) @ indexed_file fs (mm_open env) es p)"
  by (rule mt_served_bytes [OF assms])

theorem mt_server_refines_witness:
  "\<exists>content s. mm_main sample_mm [''-t'', ''2''] = Inr (mm_defaults\<lparr>mm_nthreads := 2\<rparr>, content, 2) \<and>
     ms_reachable (mm_serving per_context content copy_plan) 2 (\<lambda>_. []) sample_files (\<lambda>_. sample_conn) s \<and>
     mt_served (ms_mt s) \<noteq> [] \<and> csent (ms_world s 7) = ok_header 5 @ ''hello''"
proof -
  obtain content where main: "mm_main sample_mm [''-t'', ''2''] = Inr (mm_defaults\<lparr>mm_nthreads := 2\<rparr>, content, 2)"
    by (rule sample_main)
  obtain s where run: "mt_accepted (ms_mt s) = [sample_task]" "set (mt_served (ms_mt s)) = {sample_task}"
    "ms_reachable (mm_serving per_context content copy_plan) 2 (\<lambda>_. []) sample_files (\<lambda>_. sample_conn) s"
    by (rule sample_run [OF main])
  have "csent (ms_world s 7) = ok_header 5 @ ''hello''"
    using mt_server_refines [OF main sample_mm_index _ _ sample_index(1) sample_plan contexts.gfs_library_axioms sample_fresh run(3)]
      run(1,2) sample_file by (simp add: task_ok_def sample_task_def hello_length)
  moreover have "mt_served (ms_mt s) \<noteq> []" using run(2) by auto
  ultimately show ?thesis using main run(3) by blast
qed



end
