(* ===== verification/Rpc.thy ===== *)
theory Rpc
  imports Minify
begin

text \<open>
  The remote procedure call of \<open>proj4\<close>, from the client's stub to the server's dispatcher:
  \<open>minifyjpeg_xdr.c\<close> (the filters of the argument and of the result), \<open>minifyjpeg_clnt.c\<close>
  (the stub), \<open>minifyjpeg_svc.c\<close> (the dispatcher and the server's \<open>main\<close>) and the two
  functions of \<open>minifyjpeg.c\<close> the dispatcher calls. The RPC library is not in the
  repository: its calls are parameters (\<open>xdr_bytes\<close>, \<open>clnt_call\<close>, the transport's operations),
  and what the code relies on of them are the laws of three locales. Each is interpreted on
  an instance that puts bytes on the wire as RFC 4506 says.
\<close>

section \<open>The types of \<open>minifyjpeg.h\<close>\<close>

type_synonym u_int = "32 word"

record minifyjpeg_input =
  src_len :: u_int
  src_val :: "block option"

record minifyjpeg_output =
  dst_len :: u_int
  dst_val :: "block option"

definition NULLPROC :: nat where "NULLPROC = 0"
definition MINIFYJPEG_PROC :: nat where "MINIFYJPEG_PROC = 1"

section \<open>Filters\<close>

text \<open>
  A filter works in three directions on a stream: the bytes written so far when it encodes,
  the bytes still to be read when it decodes. It returns its success, the stream and the object.
\<close>

datatype xdr_op = XDR_ENCODE | XDR_DECODE | XDR_FREE

type_synonym 'a xdrproc = "xdr_op \<Rightarrow> char list \<Rightarrow> 'a \<Rightarrow> cfault + bool \<times> char list \<times> 'a"

text \<open>\<open>xdr_bytes\<close> of the library: direction, stream, pointer, length, greatest length.\<close>

type_synonym xdr_bytes_fn = "xdr_op \<Rightarrow> char list \<Rightarrow> block option \<Rightarrow> u_int \<Rightarrow> u_int \<Rightarrow>
  cfault + bool \<times> char list \<times> block option \<times> u_int"

definition xdr_minifyjpeg_input :: "xdr_bytes_fn \<Rightarrow> minifyjpeg_input xdrproc" where
  "xdr_minifyjpeg_input xdr_bytes op xdrs objp =
     bindE (xdr_bytes op xdrs (src_val objp) (src_len objp) (- 1)) (\<lambda>(ok, xdrs', v, n).
       let objp' = \<lparr>src_len = n, src_val = v\<rparr> in
       if \<not> ok then Inr (False, xdrs', objp') else Inr (True, xdrs', objp'))"

definition xdr_minifyjpeg_output :: "xdr_bytes_fn \<Rightarrow> minifyjpeg_output xdrproc" where
  "xdr_minifyjpeg_output xdr_bytes op xdrs objp =
     bindE (xdr_bytes op xdrs (dst_val objp) (dst_len objp) (- 1)) (\<lambda>(ok, xdrs', v, n).
       let objp' = \<lparr>dst_len = n, dst_val = v\<rparr> in
       if \<not> ok then Inr (False, xdrs', objp') else Inr (True, xdrs', objp'))"

section \<open>The client's stub\<close>

datatype clnt_stat =
    RPC_SUCCESS | RPC_CANTENCODEARGS | RPC_CANTDECODERES | RPC_CANTSEND | RPC_CANTRECV | RPC_TIMEDOUT
  | RPC_PROCUNAVAIL | RPC_CANTDECODEARGS | RPC_SYSTEMERROR

definition TIMEOUT :: "nat \<times> nat" where "TIMEOUT = (25, 0)"

type_synonym clnt_call_fn = "nat \<Rightarrow> minifyjpeg_input xdrproc \<Rightarrow> minifyjpeg_input \<Rightarrow>
  minifyjpeg_output xdrproc \<Rightarrow> minifyjpeg_output \<Rightarrow> nat \<times> nat \<Rightarrow> cfault + clnt_stat \<times> minifyjpeg_output"

definition minifyjpeg_proc_1 :: "xdr_bytes_fn \<Rightarrow> clnt_call_fn \<Rightarrow> minifyjpeg_input \<Rightarrow> minifyjpeg_output \<Rightarrow>
    cfault + clnt_stat \<times> minifyjpeg_output" where
  "minifyjpeg_proc_1 xdr_bytes clnt_call arg1 clnt_res =
     clnt_call MINIFYJPEG_PROC (xdr_minifyjpeg_input xdr_bytes) arg1 (xdr_minifyjpeg_output xdr_bytes) clnt_res TIMEOUT"

section \<open>The server\<close>

text \<open>What the transport of one request offers; \<open>xp_sendreply\<close> also returns the bytes it sent.\<close>

record svcxprt =
  xp_getargs :: "minifyjpeg_input xdrproc \<Rightarrow> minifyjpeg_input \<Rightarrow> cfault + bool \<times> minifyjpeg_input"
  xp_sendreply :: "minifyjpeg_output xdrproc \<Rightarrow> minifyjpeg_output \<Rightarrow> cfault + bool \<times> char list"
  xp_freeargs :: "minifyjpeg_input xdrproc \<Rightarrow> minifyjpeg_input \<Rightarrow> cfault + bool"

datatype svc_answer = Reply "char list" | Reply_void | Noproc | Decode_error | System_error

text \<open>
  \<open>_minifyjpeg_proc_1\<close>: the argument is passed by value; the handler stores the length
  through a pointer to the \<open>u_int\<close>, so in 32 bits.
\<close>

definition minifyjpeg_proc_1_local :: "'i magick \<Rightarrow> minifyjpeg_input \<Rightarrow> cfault + bool \<times> minifyjpeg_output" where
  "minifyjpeg_proc_1_local m argp =
     bindE (get_bytes (case src_val argp of None \<Rightarrow> [] | Some b \<Rightarrow> b) 0 (unat (src_len argp))) (\<lambda>src.
     bindE (minifyjpeg_proc_1_svc m src) (\<lambda>dst.
       Inr (True, \<lparr>dst_len = word_of_nat (length dst), dst_val = Some dst\<rparr>)))"

text \<open>The result blocks that are still allocated; nothing is freed and 1 is returned.\<close>

definition minifyjpeg_prog_1_freeresult :: "block list \<Rightarrow> int \<times> block list" where
  "minifyjpeg_prog_1_freeresult live = (1, live)"

definition minifyjpeg_prog_1 :: "'i magick \<Rightarrow> xdr_bytes_fn \<Rightarrow> nat \<times> svcxprt \<Rightarrow> block list \<Rightarrow>
    cfault + svc_answer list \<times> block list" where
  "minifyjpeg_prog_1 m xdr_bytes rq live =
     (let (rq_proc, transp) = rq; xdr_argument = xdr_minifyjpeg_input xdr_bytes;
          xdr_result = xdr_minifyjpeg_output xdr_bytes in
      if rq_proc = NULLPROC then Inr ([Reply_void], live)
      else if rq_proc \<noteq> MINIFYJPEG_PROC then Inr ([Noproc], live)
      else bindE (xp_getargs transp xdr_argument \<lparr>src_len = 0, src_val = None\<rparr>) (\<lambda>(decoded, argument).
        if \<not> decoded then Inr ([Decode_error], live)
        else bindE (minifyjpeg_proc_1_local m argument) (\<lambda>(retval, result).
          let live1 = live @ [the (dst_val result)] in
          bindE (if retval
                 then bindE (xp_sendreply transp xdr_result result) (\<lambda>(sent, bytes).
                   Inr (if sent then [Reply bytes] else [System_error]))
                 else Inr []) (\<lambda>answers.
          bindE (xp_freeargs transp xdr_argument argument) (\<lambda>freed.
            if \<not> freed then Inl (Exit_program 1)
            else Inr (answers, snd (minifyjpeg_prog_1_freeresult live1)))))))"

text \<open>\<open>svc_run\<close> gives one request after the other to the dispatcher; it ends with the process.\<close>

primrec svc_run :: "(nat \<times> svcxprt \<Rightarrow> block list \<Rightarrow> cfault + svc_answer list \<times> block list) \<Rightarrow>
    (nat \<times> svcxprt) list \<Rightarrow> block list \<Rightarrow> cfault option \<times> svc_answer list list \<times> block list" where
  "svc_run dispatch [] live = (None, [], live)"
| "svc_run dispatch (rq # rqs) live =
     (case dispatch rq live of
        Inl e \<Rightarrow> (Some e, [], live)
      | Inr (answers, live1) \<Rightarrow>
          let (e, more, live2) = svc_run dispatch rqs live1 in (e, answers # more, live2))"

record svc_setup =
  ss_udp :: bool     \<comment> \<open>\<open>svcudp_create\<close>, \<open>svc_register\<close> for UDP, the same for TCP\<close>
  ss_reg_udp :: bool
  ss_tcp :: bool
  ss_reg_tcp :: bool

text \<open>\<open>main\<close>: what ended the process, what was answered, what was never freed.\<close>

definition svc_main :: "'i magick \<Rightarrow> xdr_bytes_fn \<Rightarrow> svc_setup \<Rightarrow> (nat \<times> svcxprt) list \<Rightarrow>
    cfault \<times> svc_answer list list \<times> block list" where
  "svc_main m xdr_bytes su rqs =
     (if \<not> ss_udp su then (Exit_program 1, [], [])
      else if \<not> ss_reg_udp su then (Exit_program 1, [], [])
      else if \<not> ss_tcp su then (Exit_program 1, [], [])
      else if \<not> ss_reg_tcp su then (Exit_program 1, [], [])
      else case svc_run (minifyjpeg_prog_1 m xdr_bytes) rqs [] of
        (Some e, answers, live) \<Rightarrow> (e, answers, live)
      | (None, answers, live) \<Rightarrow> (Exit_program 1, answers, live))"

section \<open>What the code relies on of the RPC library\<close>

text \<open>
  \<open>xdr_bytes\<close>: \<open>wire\<close> is the encoding of a byte string. Encoding reads the bytes through the
  pointer, decoding writes them through the pointer when there is one and allocates
  otherwise; it does not know the size of the block it is given.
\<close>

locale xdr_library =
  fixes xdr_bytes :: xdr_bytes_fn and wire :: "char list \<Rightarrow> char list"
  assumes encode: "unat n \<le> length b \<Longrightarrow>
      xdr_bytes XDR_ENCODE xs (Some b) n (- 1) = Inr (True, xs @ wire (take (unat n) b), Some b, n)"
    and encode_short: "length b < unat n \<Longrightarrow> xdr_bytes XDR_ENCODE xs (Some b) n (- 1) = Inl Out_of_bounds"
    and decode_new: "length bs < 2 ^ 32 \<Longrightarrow> xdr_bytes XDR_DECODE (wire bs @ rest) None n (- 1) =
      Inr (True, rest, if bs = [] then None else Some bs, word_of_nat (length bs))"
    and decode_into: "length bs < 2 ^ 32 \<Longrightarrow> xdr_bytes XDR_DECODE (wire bs @ rest) (Some b) n (- 1) =
      bindE (put_bytes b 0 bs) (\<lambda>b'. Inr (True, rest, Some b', word_of_nat (length bs)))"
    and release: "xdr_bytes XDR_FREE xs v n (- 1) = Inr (True, xs, None, n)"

text \<open>The transport of a request applies the filter it is given to the request or the reply.\<close>

locale rpc_transport =
  fixes xprt :: "char list \<Rightarrow> svcxprt"
  assumes getargs: "f XDR_DECODE req a = Inr (ok, rest, a') \<Longrightarrow> xp_getargs (xprt req) f a = Inr (ok, a')"
    and sendreply: "g XDR_ENCODE [] r = Inr (True, bs, r') \<Longrightarrow> xp_sendreply (xprt req) g r = Inr (True, bs)"
    and freeargs: "f XDR_FREE [] a = Inr (True, s, a') \<Longrightarrow> xp_freeargs (xprt req) f a = Inr True"

text \<open>
  The client's call over a connection that loses nothing, to a server that answers \<open>serve\<close>;
  \<open>None\<close>: it is not there any more.
\<close>

locale rpc_client =
  fixes clnt_call :: clnt_call_fn and serve :: "nat \<Rightarrow> char list \<Rightarrow> svc_answer list option"
  assumes call_bad: "f XDR_ENCODE [] a = Inl e \<Longrightarrow> clnt_call pr f a g r t = Inl e"
    and call_reply: "f XDR_ENCODE [] a = Inr (True, msg, a') \<Longrightarrow> serve pr msg = Some [Reply bytes] \<Longrightarrow>
      clnt_call pr f a g r t =
        bindE (g XDR_DECODE bytes r) (\<lambda>(ok, _, r'). Inr (if ok then RPC_SUCCESS else RPC_CANTDECODERES, r'))"
    and call_error: "f XDR_ENCODE [] a = Inr (True, msg, a') \<Longrightarrow> (\<forall>bytes. serve pr msg \<noteq> Some [Reply bytes]) \<Longrightarrow>
      \<exists>stat r'. clnt_call pr f a g r t = Inr (stat, r') \<and> stat \<noteq> RPC_SUCCESS"

text \<open>What the dispatcher answers to a request with these bytes.\<close>

definition minify_server :: "'i magick \<Rightarrow> xdr_bytes_fn \<Rightarrow> (char list \<Rightarrow> svcxprt) \<Rightarrow> nat \<Rightarrow> char list \<Rightarrow> svc_answer list option" where
  "minify_server m xdr_bytes xprt rq_proc msg =
     (case minifyjpeg_prog_1 m xdr_bytes (rq_proc, xprt msg) [] of Inl _ \<Rightarrow> None | Inr (answers, _) \<Rightarrow> Some answers)"

section \<open>The encoding of RFC 4506\<close>

definition be32 :: "nat \<Rightarrow> char list" where
  "be32 n = map char_of [n div 2 ^ 24, n div 2 ^ 16, n div 2 ^ 8, n]"

definition be32_value :: "char list \<Rightarrow> nat" where
  "be32_value bs = foldl (\<lambda>v c. 256 * v + of_char c) 0 bs"

definition xdr_pad :: "nat \<Rightarrow> nat" where
  "xdr_pad n = (4 - n mod 4) mod 4"

definition rfc_wire :: "char list \<Rightarrow> char list" where
  "rfc_wire bs = be32 (length bs) @ bs @ replicate (xdr_pad (length bs)) NUL"

definition rfc_bytes :: xdr_bytes_fn where
  "rfc_bytes op xs v n maxsize =
     (case op of
        XDR_ENCODE \<Rightarrow>
          if maxsize < n then Inr (False, xs @ be32 (unat n), v, n)
          else bindE (get_bytes (case v of None \<Rightarrow> [] | Some b \<Rightarrow> b) 0 (unat n)) (\<lambda>bs.
            Inr (True, xs @ rfc_wire bs, v, n))
      | XDR_DECODE \<Rightarrow>
          if length xs < 4 then Inr (False, xs, v, n)
          else let k = be32_value (take 4 xs); ys = drop 4 xs in
            if unat maxsize < k \<or> length ys < k + xdr_pad k then Inr (False, ys, v, word_of_nat k)
            else if k = 0 then Inr (True, ys, v, 0)
            else bindE (case v of None \<Rightarrow> Inr (take k ys) | Some b \<Rightarrow> put_bytes b 0 (take k ys)) (\<lambda>b.
              Inr (True, drop (k + xdr_pad k) ys, Some b, word_of_nat k))
      | XDR_FREE \<Rightarrow> Inr (True, xs, None, n))"

definition rfc_xprt :: "char list \<Rightarrow> svcxprt" where
  "rfc_xprt req = \<lparr>
     xp_getargs = (\<lambda>f a. bindE (f XDR_DECODE req a) (\<lambda>(ok, _, a'). Inr (ok, a'))),
     xp_sendreply = (\<lambda>g r. bindE (g XDR_ENCODE [] r) (\<lambda>(ok, bs, _). Inr (ok, bs))),
     xp_freeargs = (\<lambda>f a. bindE (f XDR_FREE [] a) (\<lambda>(ok, _, _). Inr ok))\<rparr>"

definition rfc_call :: "(nat \<Rightarrow> char list \<Rightarrow> svc_answer list option) \<Rightarrow> clnt_call_fn" where
  "rfc_call serve pr f a g r t =
     bindE (f XDR_ENCODE [] a) (\<lambda>(ok, msg, _).
       if \<not> ok then Inr (RPC_CANTENCODEARGS, r)
       else case serve pr msg of
         Some [Reply bytes] \<Rightarrow>
           bindE (g XDR_DECODE bytes r) (\<lambda>(ok, _, r'). Inr (if ok then RPC_SUCCESS else RPC_CANTDECODERES, r'))
       | Some [Noproc] \<Rightarrow> Inr (RPC_PROCUNAVAIL, r)
       | Some [Decode_error] \<Rightarrow> Inr (RPC_CANTDECODEARGS, r)
       | Some [System_error] \<Rightarrow> Inr (RPC_SYSTEMERROR, r)
       | _ \<Rightarrow> Inr (RPC_CANTRECV, r))"

lemma length_be32 [simp]: "length (be32 n) = 4"
  by (simp add: be32_def)

lemma be32_round_trip: "n < 2 ^ 32 \<Longrightarrow> be32_value (be32 n) = n"
proof -
  assume "n < 2 ^ 32"
  then have "of_char (char_of (n div 2 ^ 24) :: char) = n div 2 ^ 24" by (simp add: div_less_iff_less_mult)
  moreover have "256 * (n div 2 ^ 24) + n div 2 ^ 16 mod 256 = n div 2 ^ 16"
    using mult_div_mod_eq [of 256 "n div 2 ^ 16"] by (simp add: div_mult2_eq [symmetric])
  moreover have "256 * (n div 2 ^ 16) + n div 2 ^ 8 mod 256 = n div 2 ^ 8"
    using mult_div_mod_eq [of 256 "n div 2 ^ 8"] by (simp add: div_mult2_eq [symmetric])
  moreover have "256 * (n div 2 ^ 8) + n mod 256 = n" by simp
  ultimately show ?thesis by (simp add: be32_value_def be32_def)
qed

lemma rfc_decode:
  assumes "length bs < 2 ^ 32"
  shows "rfc_bytes XDR_DECODE (rfc_wire bs @ rest) v n (- 1) =
    (if bs = [] then Inr (True, rest, v, 0)
     else bindE (case v of None \<Rightarrow> Inr bs | Some b \<Rightarrow> put_bytes b 0 bs) (\<lambda>b. Inr (True, rest, Some b, word_of_nat (length bs))))"
proof -
  have "unat (- 1 :: u_int) = 2 ^ 32 - 1" by (simp add: unsigned_minus_1_eq_mask mask_eq_exp_minus_1)
  with assms show ?thesis
    by (cases v) (simp_all add: rfc_bytes_def rfc_wire_def be32_round_trip xdr_pad_def Let_def)
qed

interpretation rfc: xdr_library rfc_bytes rfc_wire
proof
  fix n :: u_int and b xs
  have "\<not> (- 1 < n)" by simp
  then show "unat n \<le> length b \<Longrightarrow>
      rfc_bytes XDR_ENCODE xs (Some b) n (- 1) = Inr (True, xs @ rfc_wire (take (unat n) b), Some b, n)"
    and "length b < unat n \<Longrightarrow> rfc_bytes XDR_ENCODE xs (Some b) n (- 1) = Inl Out_of_bounds"
    by (simp_all add: rfc_bytes_def get_bytes_def)
next
  fix xs v and n :: u_int
  show "rfc_bytes XDR_FREE xs v n (- 1) = Inr (True, xs, None, n)" by (simp add: rfc_bytes_def)
qed (simp_all add: rfc_decode put_bytes_def)

interpretation rfc: rpc_transport rfc_xprt
  by unfold_locales (simp_all add: rfc_xprt_def)

interpretation rfc: rpc_client "rfc_call serve" serve for serve
  by unfold_locales
    (auto simp: rfc_call_def split: option.splits list.splits svc_answer.splits)

section \<open>The filters and the dispatcher over such a library\<close>

context xdr_library
begin

lemma input_encode: "xdr_minifyjpeg_input xdr_bytes XDR_ENCODE xs \<lparr>src_len = n, src_val = Some b\<rparr> =
    (if unat n \<le> length b then Inr (True, xs @ wire (take (unat n) b), \<lparr>src_len = n, src_val = Some b\<rparr>)
     else Inl Out_of_bounds)"
  by (simp add: xdr_minifyjpeg_input_def encode encode_short Let_def)

lemma input_decode: "length bs < 2 ^ 32 \<Longrightarrow>
    xdr_minifyjpeg_input xdr_bytes XDR_DECODE (wire bs @ rest) \<lparr>src_len = n, src_val = None\<rparr> =
      Inr (True, rest, \<lparr>src_len = word_of_nat (length bs), src_val = if bs = [] then None else Some bs\<rparr>)"
  by (simp add: xdr_minifyjpeg_input_def decode_new Let_def)

lemma input_release: "xdr_minifyjpeg_input xdr_bytes XDR_FREE xs a = Inr (True, xs, a\<lparr>src_val := None\<rparr>)"
  by (simp add: xdr_minifyjpeg_input_def release Let_def)

lemma output_encode: "length b < 2 ^ 32 \<Longrightarrow>
    xdr_minifyjpeg_output xdr_bytes XDR_ENCODE xs \<lparr>dst_len = word_of_nat (length b), dst_val = Some b\<rparr> =
      Inr (True, xs @ wire b, \<lparr>dst_len = word_of_nat (length b), dst_val = Some b\<rparr>)"
  by (simp add: xdr_minifyjpeg_output_def encode Let_def unat_of_nat take_bit_nat_eq_self)

lemma output_decode: "length bs < 2 ^ 32 \<Longrightarrow>
    xdr_minifyjpeg_output xdr_bytes XDR_DECODE (wire bs @ rest) \<lparr>dst_len = n, dst_val = dst\<rparr> =
      (case dst of
         None \<Rightarrow> Inr (True, rest, \<lparr>dst_len = word_of_nat (length bs), dst_val = if bs = [] then None else Some bs\<rparr>)
       | Some b \<Rightarrow> bindE (put_bytes b 0 bs) (\<lambda>b'.
           Inr (True, rest, \<lparr>dst_len = word_of_nat (length bs), dst_val = Some b'\<rparr>)))"
  by (auto simp: xdr_minifyjpeg_output_def decode_new decode_into Let_def bindE_def split: option.splits sum.splits)

lemma dispatch_call:
  assumes "rpc_transport xprt" and "length src < 2 ^ 32" and "\<forall>y. minifyjpeg_proc_1_svc m src = Inr y \<longrightarrow> length y < 2 ^ 32"
  shows "minifyjpeg_prog_1 m xdr_bytes (MINIFYJPEG_PROC, xprt (wire src)) live =
    bindE (minifyjpeg_proc_1_svc m src) (\<lambda>dst. Inr ([Reply (wire dst)], live @ [dst]))"
proof -
  let ?arg = "\<lparr>src_len = word_of_nat (length src), src_val = if src = [] then None else Some src\<rparr>"
  have "xp_getargs (xprt (wire src)) (xdr_minifyjpeg_input xdr_bytes) \<lparr>src_len = 0, src_val = None\<rparr> = Inr (True, ?arg)"
    using input_decode [OF assms(2), of "[]"] by (simp add: rpc_transport.getargs [OF assms(1)])
  moreover have "minifyjpeg_proc_1_local m ?arg = bindE (minifyjpeg_proc_1_svc m src) (\<lambda>dst.
      Inr (True, \<lparr>dst_len = word_of_nat (length dst), dst_val = Some dst\<rparr>))"
    using assms(2) by (auto simp: minifyjpeg_proc_1_local_def get_bytes_def unat_of_nat take_bit_nat_eq_self)
  moreover have "xp_freeargs (xprt (wire src)) (xdr_minifyjpeg_input xdr_bytes) ?arg = Inr True"
    by (rule rpc_transport.freeargs [where f = "xdr_minifyjpeg_input xdr_bytes", OF assms(1) input_release])
  moreover have "xp_sendreply (xprt (wire src)) (xdr_minifyjpeg_output xdr_bytes) \<lparr>dst_len = word_of_nat (length dst), dst_val = Some dst\<rparr> =
      Inr (True, wire dst)" if "minifyjpeg_proc_1_svc m src = Inr dst" for dst
    using rpc_transport.sendreply [where g = "xdr_minifyjpeg_output xdr_bytes", OF assms(1) output_encode [of dst "[]", simplified append_Nil]] assms(3) that by simp
  ultimately show ?thesis
    by (cases "minifyjpeg_proc_1_svc m src")
      (simp_all add: minifyjpeg_prog_1_def NULLPROC_def MINIFYJPEG_PROC_def minifyjpeg_prog_1_freeresult_def)
qed

end

section \<open>Properties\<close>

text \<open>
  C7: From the client's memory through the stub, the filters, the wire and the dispatcher
  to the handler and back: the call by stubs does to the caller's blocks what
  \<open>minify_via_rpc\<close> does when the server's handler is called directly. A result comes back
  byte for byte; an image the server cannot read ends the server, and then the client.
\<close>

theorem rpc_stub_refines:
  assumes "xdr_library xdr_bytes wire" and "rpc_transport xprt"
    and "rpc_client clnt_call (minify_server m xdr_bytes xprt)"
    and "\<forall>y. minifyjpeg_proc_1_svc m (take (n mod 2 ^ 32) src) = Inr y \<longrightarrow> length y < 2 ^ 32"
  shows "bindE (minifyjpeg_proc_1 xdr_bytes clnt_call \<lparr>src_len = word_of_nat n, src_val = Some src\<rparr>
        \<lparr>dst_len = 0, dst_val = if alloc n then Some (replicate n NUL) else None\<rparr>) (\<lambda>(stat, r).
        if stat \<noteq> RPC_SUCCESS then Inl (Exit_program 1)
        else Inr (case dst_val r of None \<Rightarrow> [] | Some b \<Rightarrow> b, unat (dst_len r))) =
    minify_via_rpc (remote m) alloc True src n"
proof -
  define w :: u_int where "w = word_of_nat n"
  let ?x = "take (unat w) src"
  note lib = xdr_library.input_encode [OF assms(1)] xdr_library.output_decode [OF assms(1), of _ "[]", simplified]
  have n: "n mod 4294967296 = unat w" by (simp add: w_def unat_of_nat take_bit_eq_mod)
  have w: "word_of_nat n = w" by (simp add: w_def)
  have "unat w < 2 ^ 32" using unsigned_less [of w] by simp
  have serve: "minify_server m xdr_bytes xprt MINIFYJPEG_PROC (wire ?x) =
      (case minifyjpeg_proc_1_svc m ?x of Inl _ \<Rightarrow> None | Inr y \<Rightarrow> Some [Reply (wire y)])"
    using assms(4) \<open>unat w < 2 ^ 32\<close> by (subst minify_server_def, subst xdr_library.dispatch_call [OF assms(1,2)])
      (auto simp: n min_def split: sum.splits)
  show ?thesis
  proof (cases "unat w \<le> length src")
    case False
    then have "xdr_minifyjpeg_input xdr_bytes XDR_ENCODE [] \<lparr>src_len = w, src_val = Some src\<rparr> = Inl Out_of_bounds"
      by (simp add: lib)
    from rpc_client.call_bad [where f = "xdr_minifyjpeg_input xdr_bytes", OF assms(3) this] False show ?thesis
      by (simp add: minifyjpeg_proc_1_def minify_via_rpc_def get_bytes_def n w)
  next
    case True
    then have enc: "xdr_minifyjpeg_input xdr_bytes XDR_ENCODE [] \<lparr>src_len = w, src_val = Some src\<rparr> =
        Inr (True, wire ?x, \<lparr>src_len = w, src_val = Some src\<rparr>)"
      by (simp add: lib)
    show ?thesis
    proof (cases "minifyjpeg_proc_1_svc m ?x")
      case (Inl e)
      with serve have "\<forall>bytes. minify_server m xdr_bytes xprt MINIFYJPEG_PROC (wire ?x) \<noteq> Some [Reply bytes]" by simp
      from rpc_client.call_error [where f = "xdr_minifyjpeg_input xdr_bytes", OF assms(3) enc this] obtain stat r' where
        "minifyjpeg_proc_1 xdr_bytes clnt_call \<lparr>src_len = w, src_val = Some src\<rparr>
          \<lparr>dst_len = 0, dst_val = if alloc n then Some (replicate n NUL) else None\<rparr> = Inr (stat, r')" "stat \<noteq> RPC_SUCCESS"
        unfolding minifyjpeg_proc_1_def by blast
      with Inl True show ?thesis unfolding w by (simp add: minify_via_rpc_def get_bytes_def n w remote_def)
    next
      case (Inr y)
      with serve have "minify_server m xdr_bytes xprt MINIFYJPEG_PROC (wire ?x) = Some [Reply (wire y)]" by simp
      note call = rpc_client.call_reply [where f = "xdr_minifyjpeg_input xdr_bytes", OF assms(3) enc this]
      have "length y < 2 ^ 32" using assms(4) Inr by (simp add: n)
      with Inr True show ?thesis
        by (auto simp: minifyjpeg_proc_1_def call lib minify_via_rpc_def get_bytes_def n w remote_def
            xdr_bytes_decode_def put_bytes_def unat_of_nat take_bit_nat_eq_self)
    qed
  qed
qed

theorem rpc_stub_refines_witness:
  "bindE (minifyjpeg_proc_1 rfc_bytes (rfc_call (minify_server halver rfc_bytes rfc_xprt))
        \<lparr>src_len = 6, src_val = Some ''image!''\<rparr> \<lparr>dst_len = 0, dst_val = Some (replicate 6 NUL)\<rparr>) (\<lambda>(stat, r).
        if stat \<noteq> RPC_SUCCESS then Inl (Exit_program 1)
        else Inr (case dst_val r of None \<Rightarrow> [] | Some b \<Rightarrow> b, unat (dst_len r))) =
    Inr (''ima'' @ replicate 3 NUL, 3)"
proof -
  have h: "minifyjpeg_proc_1_svc halver ''image!'' = Inr ''ima''" by code_simp
  then have "minify_via_rpc (remote halver) (\<lambda>_. True) True ''image!'' 6 = Inr (''ima'' @ replicate 3 NUL, 3)"
    by (simp add: minify_via_rpc_def get_bytes_def remote_def xdr_bytes_decode_def put_bytes_def)
  with h show ?thesis
    using rpc_stub_refines [OF rfc.xdr_library_axioms rfc.rpc_transport_axioms rfc.rpc_client_axioms,
        of halver 6 "''image!''" "\<lambda>_. True"] by simp
qed

text \<open>What clients may send, and what the server's answers and its unfreed blocks are then.\<close>

datatype client_request = Ping | Unknown_proc nat | Garbled "char list" | Picture "char list"

definition request_of :: "(char list \<Rightarrow> svcxprt) \<Rightarrow> (char list \<Rightarrow> char list) \<Rightarrow> client_request \<Rightarrow> nat \<times> svcxprt" where
  "request_of xprt wire r = (case r of
      Ping \<Rightarrow> (NULLPROC, xprt [])
    | Unknown_proc p \<Rightarrow> (p, xprt [])
    | Garbled g \<Rightarrow> (MINIFYJPEG_PROC, xprt g)
    | Picture x \<Rightarrow> (MINIFYJPEG_PROC, xprt (wire x)))"

definition answerable :: "'i magick \<Rightarrow> xdr_bytes_fn \<Rightarrow> client_request \<Rightarrow> bool" where
  "answerable m xdr_bytes r = (case r of
      Ping \<Rightarrow> True
    | Unknown_proc p \<Rightarrow> 1 < p
    | Garbled g \<Rightarrow> (case xdr_bytes XDR_DECODE g None 0 (- 1) of Inr (ok, _) \<Rightarrow> \<not> ok | Inl _ \<Rightarrow> False)
    | Picture x \<Rightarrow> length x < 2 ^ 32 \<and> (case minifyjpeg_proc_1_svc m x of Inl _ \<Rightarrow> False | Inr y \<Rightarrow> length y < 2 ^ 32))"

definition answer_to :: "'i magick \<Rightarrow> (char list \<Rightarrow> char list) \<Rightarrow> client_request \<Rightarrow> svc_answer" where
  "answer_to m wire r = (case r of
      Ping \<Rightarrow> Reply_void
    | Unknown_proc p \<Rightarrow> Noproc
    | Garbled g \<Rightarrow> Decode_error
    | Picture x \<Rightarrow> Reply (wire (the (remote m x))))"

definition results_of :: "'i magick \<Rightarrow> client_request list \<Rightarrow> block list" where
  "results_of m rs = concat (map (\<lambda>r. case r of Picture x \<Rightarrow> [the (remote m x)] | _ \<Rightarrow> []) rs)"

lemma results_of_simps [simp]:
  "results_of m [] = []"
  "results_of m (r # rs) = (case r of Picture x \<Rightarrow> [the (remote m x)] | _ \<Rightarrow> []) @ results_of m rs"
  by (simp_all add: results_of_def)

lemma dispatch_answerable:
  assumes "xdr_library xdr_bytes wire" and "rpc_transport xprt" and "answerable m xdr_bytes r"
  shows "minifyjpeg_prog_1 m xdr_bytes (request_of xprt wire r) live = Inr ([answer_to m wire r], live @ results_of m [r])"
proof (cases r)
  case (Garbled g)
  then obtain rest v n where "xdr_bytes XDR_DECODE g None 0 (- 1) = Inr (False, rest, v, n)"
    using assms(3) by (auto simp: answerable_def split: sum.splits prod.splits)
  then have "xdr_minifyjpeg_input xdr_bytes XDR_DECODE g \<lparr>src_len = 0, src_val = None\<rparr> =
      Inr (False, rest, \<lparr>src_len = n, src_val = v\<rparr>)"
    by (simp add: xdr_minifyjpeg_input_def Let_def)
  from rpc_transport.getargs [where f = "xdr_minifyjpeg_input xdr_bytes", OF assms(2) this] Garbled show ?thesis
    by (simp add: minifyjpeg_prog_1_def request_of_def answer_to_def NULLPROC_def MINIFYJPEG_PROC_def)
next
  case (Picture x)
  then obtain y where y: "minifyjpeg_proc_1_svc m x = Inr y" "length y < 2 ^ 32" "length x < 2 ^ 32"
    using assms(3) by (auto simp: answerable_def split: sum.splits)
  with xdr_library.dispatch_call [OF assms(1,2) y(3), of m] Picture show ?thesis
    by (simp add: request_of_def answer_to_def remote_def)
qed (use assms(3) in \<open>auto simp: minifyjpeg_prog_1_def request_of_def answer_to_def answerable_def NULLPROC_def MINIFYJPEG_PROC_def\<close>)

lemma svc_run_answers:
  assumes "xdr_library xdr_bytes wire" and "rpc_transport xprt" and "\<forall>r \<in> set rs. answerable m xdr_bytes r"
  shows "svc_run (minifyjpeg_prog_1 m xdr_bytes) (map (request_of xprt wire) rs @ rqs) live =
    (let (e, more, live') = svc_run (minifyjpeg_prog_1 m xdr_bytes) rqs (live @ results_of m rs)
     in (e, map (\<lambda>r. [answer_to m wire r]) rs @ more, live'))"
  using assms(3)
proof (induction rs arbitrary: live)
  case (Cons r rs)
  then have "answerable m xdr_bytes r" by simp
  from dispatch_answerable [OF assms(1,2) this] Cons show ?case
    by (simp add: split_beta Let_def)
qed (simp add: Let_def)

text \<open>
  C29: The server process from its set-up on: any sequence of null calls, calls of unknown
  procedures, arguments that cannot be decoded and images is answered one by one, each as
  the protocol says, and none of them changes what a later one gets. Every result it sent
  stays allocated. The first image the handler does not survive ends the process (with
  status 1 when it cannot be read), with no answer to it or to any later request.
\<close>

theorem minify_server_outcome:
  assumes "xdr_library xdr_bytes wire" and "rpc_transport xprt" and "\<forall>r \<in> set rs. answerable m xdr_bytes r"
    and "ss_udp su" "ss_reg_udp su" "ss_tcp su" "ss_reg_tcp su"
    and "length bad < 2 ^ 32" and "minifyjpeg_proc_1_svc m bad = Inl e"
  shows "svc_main m xdr_bytes su (map (request_of xprt wire) rs) =
      (Exit_program 1, map (\<lambda>r. [answer_to m wire r]) rs, results_of m rs) \<and>
    svc_main m xdr_bytes su (map (request_of xprt wire) (rs @ Picture bad # later)) =
      (e, map (\<lambda>r. [answer_to m wire r]) rs, results_of m rs)"
proof -
  have "minifyjpeg_prog_1 m xdr_bytes (request_of xprt wire (Picture bad)) live = Inl e" for live
    using xdr_library.dispatch_call [OF assms(1,2,8), of m] assms(9) by (simp add: request_of_def)
  with svc_run_answers [OF assms(1-3), of "[]" "[]"]
    svc_run_answers [OF assms(1-3), of "map (request_of xprt wire) (Picture bad # later)" "[]"] assms(4-7)
  show ?thesis by (simp add: svc_main_def)
qed

text \<open>A server that cannot read an empty image.\<close>

definition picky :: "char list magick" where
  "picky = halver\<lparr>mg_decode := (\<lambda>x. if x = [] then None else Some x)\<rparr>"

theorem minify_server_outcome_witness:
  "svc_main picky rfc_bytes \<lparr>ss_udp = True, ss_reg_udp = True, ss_tcp = True, ss_reg_tcp = True\<rparr>
      (map (request_of rfc_xprt rfc_wire) ([Ping, Garbled ''x'', Unknown_proc 7, Picture ''image!''] @ Picture [] # [Ping])) =
    (Exit_program 1, [[Reply_void], [Decode_error], [Noproc], [Reply (rfc_wire ''ima'')]], [''ima''])"
proof -
  have p: "minifyjpeg_proc_1_svc picky [] = Inl (Exit_program 1)" "minifyjpeg_proc_1_svc picky ''image!'' = Inr ''ima''"
    by code_simp+
  have ok: "\<forall>r \<in> set [Ping, Garbled ''x'', Unknown_proc 7, Picture ''image!'']. answerable picky rfc_bytes r"
    by (simp add: answerable_def p rfc_bytes_def)
  show ?thesis
    using minify_server_outcome [OF rfc.xdr_library_axioms rfc.rpc_transport_axioms ok _ _ _ _ _ p(1),
        of "\<lparr>ss_udp = True, ss_reg_udp = True, ss_tcp = True, ss_reg_tcp = True\<rparr>" "[Ping]"] p(2)
    by (simp add: answer_to_def remote_def)
qed

end
