(* ===== verification/ProxyMains.thy ===== *)
theory ProxyMains
  imports Mains ShmPool
begin

text \<open>
  The \<open>main\<close> functions of \<open>webproxy.c\<close> and \<open>webproxy_curl.c\<close>: signals, options, the pool of
  segments, and what the server library is told before it serves. The library is not under
  \<open>src/\<close>, so what it is told is the list of the calls, in their order.
\<close>

section \<open>What the library is told\<close>

datatype gfs_worker = Handle_with_cache | Handle_with_curl

datatype gfs_option =
    GFS_PORT int
  | GFS_MAXNPENDING int
  | GFS_WORKER_FUNC gfs_worker
  | GFS_WORKER_ARG int string

record gfs_conf =
  gs_threads :: int                     \<comment> \<open>the argument of \<open>gfserver_init\<close>\<close>
  gs_options :: "gfs_option list"

definition worker_args :: "16 word \<Rightarrow> string \<Rightarrow> gfs_option list" where
  "worker_args n server = map (\<lambda>i. GFS_WORKER_ARG (int i) server) [0..<unat n]"

section \<open>The proxy with the cache\<close>

text \<open>\<open>signal\<close> tells of each call whether it succeeds: both signals are caught twice.\<close>

definition webproxy_main :: "(nat \<Rightarrow> bool) \<Rightarrow> string list \<Rightarrow> cfault + wp_opts \<times> pool \<times> gfs_conf" where
  "webproxy_main signal argv =
     (if \<not> signal 0 then Inl (Exit_program 1)
      else if \<not> signal 1 then Inl (Exit_program 1)
      else bindE (wp_options argv) (\<lambda>opts.
      if \<not> signal 2 then Inl (Exit_program 1)
      else if \<not> signal 3 then Inl (Exit_program 1)
      else bindE (init_proxy (wp_segments opts)) (\<lambda>pool.
      Inr (opts, pool, \<lparr>gs_threads = uint (wp_nworkerthreads opts),
        gs_options = [GFS_PORT (uint (wp_port opts)), GFS_MAXNPENDING 10, GFS_WORKER_FUNC Handle_with_cache] @
          worker_args (wp_nworkerthreads opts) (wp_server opts)\<rparr>))))"

section \<open>The proxy with libcurl\<close>

definition wc_sig_handler :: "int \<Rightarrow> cfault + unit" where
  "wc_sig_handler signo = (if signo = 2 \<or> signo = 15 then Inl (Exit_program signo) else Inr ())"

definition webproxy_curl_main :: "(nat \<Rightarrow> bool) \<Rightarrow> string list \<Rightarrow> cfault + wc_opts \<times> gfs_conf" where
  "webproxy_curl_main signal argv =
     (if \<not> signal 0 then Inl (Exit_program 1)
      else if \<not> signal 1 then Inl (Exit_program 1)
      else bindE (wc_options argv) (\<lambda>opts.
      Inr (opts, \<lparr>gs_threads = uint (wc_nworkerthreads opts),
        gs_options = [GFS_PORT (uint (wc_port opts)), GFS_MAXNPENDING 10, GFS_WORKER_FUNC Handle_with_curl] @
          worker_args (wc_nworkerthreads opts) (wc_server opts)\<rparr>)))"

section \<open>What the mains set up\<close>

lemma worker_args_each:
  "i < unat n \<Longrightarrow> worker_args n server ! i = GFS_WORKER_ARG (int i) server" "length (worker_args n server) = unat n"
  by (simp_all add: worker_args_def)

lemma webproxy_main_pool:
  assumes "webproxy_main signal argv = Inr (opts, pool, conf)"
  shows "init_proxy (int (nat (wp_segments opts))) = Inr pool" and "wp_options argv = Inr opts"
    and "gs_threads conf = uint (wp_nworkerthreads opts)"
  using assms by (auto simp: webproxy_main_def init_proxy_def elim!: bindE_eq_InrE split: if_splits)

end
