(* ===== verification/CacheSystem.thy ===== *)
theory CacheSystem
  imports ShmSegment ShmChannel ProxyMains
begin

text \<open>
  The cache of \<open>proj3\<close> as one system: a proxy with one handler thread (its default) running
  \<open>handle_with_cache\<close> from the request to the answer, the POSIX message queue, the daemon's
  \<open>main\<close> and its workers, and one transfer for each shared memory object. It is put together
  from the pool and the daemon of ShmPool, the segments of ShmSegment and the transfer steps
  of ShmChannel. The set-up of the daemon's \<open>main\<close> and its signal handler are here too.
\<close>

section \<open>The daemon's set-up\<close>

text \<open>The code the process ends with, if it does, whether the queue's name exists, what the cache holds.\<close>

definition sc_sig_handler :: "int \<Rightarrow> bool \<times> (string \<Rightarrow> char list option) option \<Rightarrow>
    int option \<times> bool \<times> (string \<Rightarrow> char list option) option" where
  "sc_sig_handler signo = (\<lambda>(queue_exists, cache).
     if signo = 2 \<or> signo = 15 then (Some signo, False, None) else (None, queue_exists, cache))"

record sc_env =
  sc_mq_open :: bool                    \<comment> \<open>\<open>mq_open\<close> succeeds\<close>
  sc_signals :: "bool \<times> bool"
  sc_init :: "string \<Rightarrow> cfault + (string \<Rightarrow> char list option)"   \<comment> \<open>\<open>simplecache_init\<close>, and what the cache then holds\<close>
  sc_create :: "nat \<Rightarrow> bool"

text \<open>
  The result: what the cache holds and which of the workers exist; a failed \<open>pthread_create\<close>
  is reported and ignored. The array of threads needs a positive length.
\<close>

definition simplecached_main :: "sc_env \<Rightarrow> string list \<Rightarrow> cfault + (string \<Rightarrow> char list option) \<times> nat set" where
  "simplecached_main env argv =
     bindE (sc_options argv) (\<lambda>opts.
     if \<not> sc_mq_open env then Inl (Exit_program 1)
     else if \<not> fst (sc_signals env) then Inl (Exit_program 1)
     else if \<not> snd (sc_signals env) then Inl (Exit_program 1)
     else bindE (sc_init env (sc_cachedir opts)) (\<lambda>cache.
       bindE (assertE Out_of_bounds (0 < sc_nthreads opts)) (\<lambda>_.
       Inr (cache, {i. int i < sc_nthreads opts \<and> sc_create env i}))))"

section \<open>The system\<close>

text \<open>Where the handler thread is, with the path, the name and the object it works on.\<close>

datatype handler_at =
    H_idle
  | H_wants string
  | H_named string string
  | H_created string string nat
  | H_transfer string string nat          \<comment> \<open>the message is sent\<close>

datatype answer = Not_found | Answered "int option" "char list"

definition MQ_MAXMSG :: nat where "MQ_MAXMSG = 10"

record cache_system =
  cy_pool :: pool
  cy_os :: shm_os
  cy_chan :: "nat \<Rightarrow> channel"              \<comment> \<open>the transfer through each object\<close>
  cy_handler :: handler_at
  cy_mq :: "(string \<times> string) list"
  cy_daemon :: daemon
  cy_worker :: "nat \<Rightarrow> (string \<times> nat) option"   \<comment> \<open>path and object of a worker that has mapped it\<close>
  cy_answers :: "(string \<times> answer) list"   \<comment> \<open>history: what clients were answered\<close>

definition cache_start :: "pool \<Rightarrow> cache_system" where
  "cache_start p = \<lparr>cy_pool = p, cy_os = shm_empty, cy_chan = (\<lambda>_. channel_start []), cy_handler = H_idle,
     cy_mq = [], cy_daemon = daemon_start, cy_worker = (\<lambda>_. None), cy_answers = []\<rparr>"

text \<open>\<open>destroy_shm_seg\<close> also clears the two fields of the segment.\<close>

definition clear_segment :: "nat \<Rightarrow> (nat \<Rightarrow> channel) \<Rightarrow> nat \<Rightarrow> channel" where
  "clear_segment k ch = ch(k := (ch k)\<lparr>file_length := 0, bytes_written := 0\<rparr>)"

text \<open>
  A worker opens the segment by its name, gives it the size of the message and maps it; as long
  as there is no such name it tries again.
\<close>

definition worker_map :: "int \<Rightarrow> string \<Rightarrow> shm_os \<Rightarrow> (nat \<times> shm_os) option" where
  "worker_map segment_size fldes os = (case sh_name os fldes of
      None \<Rightarrow> None
    | Some k \<Rightarrow> Some (k, os\<lparr>sh_object := (sh_object os)(k := map_option (\<lambda>ob. ob\<lparr>ob_size := segment_size\<rparr>) (sh_object os k))\<rparr>))"

text \<open>
  \<open>cache\<close> is what the daemon's cache library finds. A path that does not fit in the message
  has no step: the copy overflows.
\<close>

inductive cache_step :: "(string \<Rightarrow> char list option) \<Rightarrow> int \<Rightarrow> cache_system \<Rightarrow> cache_system \<Rightarrow> bool"
  for cache :: "string \<Rightarrow> char list option" and segment_size :: int where
  cy_request: "cy_handler s = H_idle \<Longrightarrow> cache_step cache segment_size s (s\<lparr>cy_handler := H_wants p\<rparr>)"
| cy_acquire: "cy_handler s = H_wants p \<Longrightarrow> pool_acquire (cy_pool s) = Some (Inr (f, pool)) \<Longrightarrow>
    cache_step cache segment_size s (s\<lparr>cy_handler := H_named p f, cy_pool := pool\<rparr>)"
| cy_create: "cy_handler s = H_named p f \<Longrightarrow> create_shm_channel allowed segment_size f (cy_os s) = Inr (k, os) \<Longrightarrow>
    cache_step cache segment_size s (s\<lparr>cy_handler := H_created p f k, cy_os := os,
      cy_chan := (cy_chan s)(k := channel_start (replicate (nat (segment_size - SHM_STRUCT)) NUL))\<rparr>)"
| cy_send: "cy_handler s = H_created p f k \<Longrightarrow> fill_message junk segment_size p f = Inr msg \<Longrightarrow> length (cy_mq s) < MQ_MAXMSG \<Longrightarrow>
    cache_step cache segment_size s (s\<lparr>cy_handler := H_transfer p f k, cy_mq := cy_mq s @ [(p, f)]\<rparr>)"
| cy_transfer: "cy_handler s = H_transfer p f k \<Longrightarrow> chan_proxy_step (cy_chan s k) c \<Longrightarrow>
    cache_step cache segment_size s (s\<lparr>cy_chan := (cy_chan s)(k := c)\<rparr>)"
| cy_missing: "cy_handler s = H_transfer p f k \<Longrightarrow> ppc (cy_chan s k) = P_missing \<Longrightarrow>
    destroy_shm_seg f k (cy_os s) (cy_pool s) = Some (Inr (os, pool)) \<Longrightarrow>
    cache_step cache segment_size s (s\<lparr>cy_handler := H_idle, cy_os := os, cy_pool := pool,
      cy_chan := clear_segment k (cy_chan s), cy_answers := cy_answers s @ [(p, Not_found)]\<rparr>)"
| cy_finish: "cy_handler s = H_transfer p f k \<Longrightarrow> ppc (cy_chan s k) = P_done \<Longrightarrow>
    destroy_shm_seg f k (cy_os s) (cy_pool s) = Some (Inr (os, pool)) \<Longrightarrow>
    cache_step cache segment_size s (s\<lparr>cy_handler := H_idle, cy_os := os, cy_pool := pool, cy_chan := clear_segment k (cy_chan s),
      cy_answers := cy_answers s @ [(p, Answered (p_header (cy_chan s k)) (p_body (cy_chan s k)))]\<rparr>)"
| cy_failed: "cy_handler s = H_transfer p f k \<Longrightarrow> ppc (cy_chan s k) = P_failed \<Longrightarrow>
    cache_step cache segment_size s (s\<lparr>cy_handler := H_idle\<rparr>)"
| cy_receive: "cy_mq s = m # ms \<Longrightarrow> daemon_main (cy_daemon s) (Some m) d \<Longrightarrow>
    cache_step cache segment_size s (s\<lparr>cy_mq := ms, cy_daemon := d\<rparr>)"
| cy_enqueue: "daemon_main (cy_daemon s) None d \<Longrightarrow> cache_step cache segment_size s (s\<lparr>cy_daemon := d\<rparr>)"
| cy_worker_reads: "daemon_worker (cy_daemon s) d \<Longrightarrow>
    (\<forall>w p f. dm_worker (cy_daemon s) w = C_has_both p f \<longrightarrow> dm_worker d w = C_has_both p f) \<Longrightarrow>
    cache_step cache segment_size s (s\<lparr>cy_daemon := d\<rparr>)"
| cy_attach: "dm_worker (cy_daemon s) w = C_has_both p f \<Longrightarrow> cy_worker s w = None \<Longrightarrow> worker_map segment_size f (cy_os s) = Some (k, os) \<Longrightarrow>
    cache_step cache segment_size s (s\<lparr>cy_os := os, cy_worker := (cy_worker s)(w \<mapsto> (p, k))\<rparr>)"
| cy_work: "cy_worker s w = Some (p, k) \<Longrightarrow> chan_cache_step (cache p) (chunk_room segment_size) (cy_chan s k) c \<Longrightarrow>
    cache_step cache segment_size s (s\<lparr>cy_chan := (cy_chan s)(k := c)\<rparr>)"
| cy_worker_done: "cy_worker s w = Some (p, k) \<Longrightarrow> cpc (cy_chan s k) = C_done \<Longrightarrow> dm_worker (cy_daemon s) w = C_has_both p f \<Longrightarrow>
    cache_step cache segment_size s (s\<lparr>cy_worker := (cy_worker s)(w := None),
      cy_daemon := (cy_daemon s)\<lparr>dm_worker := (dm_worker (cy_daemon s))(w := C_idle)\<rparr>\<rparr>)"
| cy_spurious_proxy: "cache_step cache segment_size s (s\<lparr>cy_chan := (cy_chan s)(k := wake_proxy (cy_chan s k))\<rparr>)"
| cy_spurious_cache: "cache_step cache segment_size s (s\<lparr>cy_chan := (cy_chan s)(k := wake_cache (cy_chan s k))\<rparr>)"

definition cache_reachable :: "(string \<Rightarrow> char list option) \<Rightarrow> int \<Rightarrow> nat \<Rightarrow> cache_system \<Rightarrow> bool" where
  "cache_reachable cache segment_size segments s \<longleftrightarrow>
     (\<exists>p. init_proxy (int segments) = Inr p \<and> (cache_step cache segment_size)\<^sup>*\<^sup>* (cache_start p) s)"

text \<open>
  Both programs, started with their options: \<open>webproxy\<close> with one handler thread. The daemon
  may have any of its workers; a worker that was not created takes no step.
\<close>

definition cache_program :: "(nat \<Rightarrow> bool) \<Rightarrow> string list \<Rightarrow> sc_env \<Rightarrow> string list \<Rightarrow> (string \<Rightarrow> char list option) \<Rightarrow> cache_system \<Rightarrow> bool" where
  "cache_program signal wargv denv dargv cache s \<longleftrightarrow> (\<exists>opts pool conf workers.
     webproxy_main signal wargv = Inr (opts, pool, conf) \<and> gs_threads conf = 1 \<and>
     simplecached_main denv dargv = Inr (cache, workers) \<and>
     (cache_step cache (wp_segment_size opts))\<^sup>*\<^sup>* (cache_start pool) s)"

section \<open>A file that is not there\<close>

definition late_missing :: "cache_pc \<Rightarrow> bool" where
  "late_missing pc \<longleftrightarrow> pc \<in> {C_set_zero, C_len_unlock, C_len_bcast, C_done}"

definition missing_inv :: "channel \<Rightarrow> bool" where
  "missing_inv s \<longleftrightarrow>
     (early (cpc s) \<and> file_length s = 0 \<and> len_phase (ppc s) \<or> late_missing (cpc s) \<and> file_length s = - 1) \<and>
     (len_phase (ppc s) \<or> ppc s \<in> {P_len_unlock, P_len_bcast, P_missing} \<and> p_len s = - 1) \<and>
     p_header s = None \<and> p_body s = []"

lemma missing_inv_start: "missing_inv (channel_start mem)"
  by (simp add: missing_inv_def channel_start_def)

lemma missing_inv_proxy: "chan_proxy_step s s' \<Longrightarrow> missing_inv s \<Longrightarrow> missing_inv s'"
  by (induction rule: chan_proxy_step.induct) (auto simp: missing_inv_def late_missing_def early_def wake_cache_def split: cache_pc.splits)

lemma missing_inv_cache: "chan_cache_step None room s s' \<Longrightarrow> missing_inv s \<Longrightarrow> missing_inv s'"
  by (erule chan_cache_step.cases) (auto simp: missing_inv_def late_missing_def announced_def wake_proxy_def split: proxy_pc.splits)

text \<open>The transfer of what the cache holds for a path.\<close>

definition transfer_inv :: "char list option \<Rightarrow> channel \<Rightarrow> bool" where
  "transfer_inv content s = (case content of None \<Rightarrow> missing_inv s | Some f \<Rightarrow> chan_inv f s)"

lemma transfer_inv_start: "transfer_inv content (channel_start mem)"
  by (simp add: transfer_inv_def missing_inv_start chan_inv_start split: option.splits)

lemma transfer_inv_proxy: "chan_proxy_step s s' \<Longrightarrow> transfer_inv content s \<Longrightarrow> transfer_inv content s'"
  by (auto simp: transfer_inv_def split: option.splits intro: missing_inv_proxy chan_inv_proxy)

lemma transfer_inv_cache: "chan_cache_step content room s s' \<Longrightarrow> transfer_inv content s \<Longrightarrow> transfer_inv content s'"
  by (cases content) (auto simp: transfer_inv_def intro: missing_inv_cache chan_inv_cache)

lemma late_wake: "late_missing (cpc (wake_cache s)) = late_missing (cpc s)"
  by (cases "cpc s") (simp_all add: late_missing_def wake_cache_def)

lemma missing_wake: "ppc (wake_proxy s) \<in> {P_len_unlock, P_len_bcast, P_missing} \<longleftrightarrow> ppc s \<in> {P_len_unlock, P_len_bcast, P_missing}"
  by (cases "ppc s") (simp_all add: wake_proxy_def)

lemma transfer_inv_wake: "transfer_inv content s \<Longrightarrow> transfer_inv content (wake_proxy s)"
  "transfer_inv content s \<Longrightarrow> transfer_inv content (wake_cache s)"
proof -
  assume i: "transfer_inv content s"
  show "transfer_inv content (wake_proxy s)"
  proof (cases content)
    case None
    with i show ?thesis unfolding transfer_inv_def missing_inv_def by (simp only: option.case missing_wake wake_proxy_facts)
  next
    case (Some f)
    with i show ?thesis by (simp add: transfer_inv_def chan_defs)
  qed
  show "transfer_inv content (wake_cache s)"
  proof (cases content)
    case None
    with i show ?thesis unfolding transfer_inv_def missing_inv_def by (simp only: option.case late_wake wake_cache_facts)
  next
    case (Some f)
    with i show ?thesis by (simp add: transfer_inv_def chan_defs)
  qed
qed

lemma transfer_inv_done:
  "transfer_inv content s \<Longrightarrow> ppc s = P_missing \<Longrightarrow> content = None"
  "transfer_inv content s \<Longrightarrow> ppc s = P_done \<Longrightarrow> \<exists>f. content = Some f \<and> p_header s = Some (int (length f)) \<and> p_body s = f"
  by (cases content; simp add: transfer_inv_def missing_inv_def chan_defs header_sent_def)+

section \<open>One request at a time\<close>

text \<open>Workers that hold a pointer to the message they have not used up.\<close>

definition fresh_worker :: "cache_system \<Rightarrow> nat \<Rightarrow> bool" where
  "fresh_worker s w = (case dm_worker (cy_daemon s) w of
     C_idle \<Rightarrow> False | C_popped \<Rightarrow> True | C_has_path _ \<Rightarrow> True | C_has_both _ _ \<Rightarrow> cy_worker s w = None)"

definition no_request :: "cache_system \<Rightarrow> bool" where
  "no_request s \<longleftrightarrow> cy_mq s = [] \<and> \<not> dm_got (cy_daemon s) \<and> dm_queued (cy_daemon s) = 0 \<and> (\<forall>w. \<not> fresh_worker s w)"

text \<open>The four places a request can be in.\<close>

definition request_at :: "string \<Rightarrow> string \<Rightarrow> cache_system \<Rightarrow> bool" where
  "request_at p f s \<longleftrightarrow>
     cy_mq s = [(p, f)] \<and> \<not> dm_got (cy_daemon s) \<and> dm_queued (cy_daemon s) = 0 \<and> (\<forall>w. \<not> fresh_worker s w) \<or>
     cy_mq s = [] \<and> dm_data (cy_daemon s) = (p, f) \<and>
      (dm_got (cy_daemon s) \<and> dm_queued (cy_daemon s) = 0 \<and> (\<forall>w. \<not> fresh_worker s w) \<or>
       \<not> dm_got (cy_daemon s) \<and> dm_queued (cy_daemon s) = 1 \<and> (\<forall>w. \<not> fresh_worker s w) \<or>
       \<not> dm_got (cy_daemon s) \<and> dm_queued (cy_daemon s) = 0 \<and> (\<exists>w. (\<forall>v. fresh_worker s v \<longleftrightarrow> v = w) \<and>
          (dm_worker (cy_daemon s) w = C_popped \<or> dm_worker (cy_daemon s) w = C_has_path p \<or> dm_worker (cy_daemon s) w = C_has_both p f)))"

definition attached :: "cache_system \<Rightarrow> nat \<Rightarrow> nat \<Rightarrow> bool" where
  "attached s w k \<longleftrightarrow> (\<exists>p. cy_worker s w = Some (p, k))"

definition workers_ok :: "cache_system \<Rightarrow> bool" where
  "workers_ok s \<longleftrightarrow> (\<forall>w x. cy_worker s w = Some x \<longrightarrow> snd x < sh_next (cy_os s) \<and> (\<exists>p f. dm_worker (cy_daemon s) w = C_has_both p f))"

text \<open>What holds while the handler is where it is.\<close>

definition handler_ok :: "(string \<Rightarrow> char list option) \<Rightarrow> cache_system \<Rightarrow> bool" where
  "handler_ok cache s = (case cy_handler s of
      H_created p f k \<Rightarrow> no_request s \<and> sh_name (cy_os s) f = Some k \<and> k < sh_next (cy_os s) \<and> (\<forall>w. \<not> attached s w k) \<and>
        (\<exists>mem. cy_chan s k = channel_start mem)
    | H_transfer p f k \<Rightarrow> sh_name (cy_os s) f = Some k \<and> k < sh_next (cy_os s) \<and> transfer_inv (cache p) (cy_chan s k) \<and>
        (request_at p f s \<and> (\<forall>w. \<not> attached s w k) \<and> cpc (cy_chan s k) = C_zero \<or>
         no_request s \<and> (\<forall>w w'. attached s w k \<longrightarrow> attached s w' k \<longrightarrow> w = w') \<and> (\<forall>w p'. cy_worker s w = Some (p', k) \<longrightarrow> p' = p))
    | _ \<Rightarrow> no_request s)"

definition right_answer :: "(string \<Rightarrow> char list option) \<Rightarrow> string \<times> answer \<Rightarrow> bool" where
  "right_answer cache x = (case cache (fst x) of
     None \<Rightarrow> snd x = Not_found
   | Some f \<Rightarrow> snd x = Answered (Some (int (length f))) f)"

definition cache_inv :: "(string \<Rightarrow> char list option) \<Rightarrow> cache_system \<Rightarrow> bool" where
  "cache_inv cache s \<longleftrightarrow> workers_ok s \<and> handler_ok cache s \<and> (\<forall>x \<in> set (cy_answers s). right_answer cache x)"

lemma cache_inv_start: "cache_inv cache (cache_start p)"
  by (simp add: cache_inv_def cache_start_def workers_ok_def handler_ok_def no_request_def fresh_worker_def daemon_start_def)

lemma zero_len_phase: "transfer_inv content s \<Longrightarrow> cpc s = C_zero \<Longrightarrow> len_phase (ppc s)"
  by (auto simp: transfer_inv_def missing_inv_def late_missing_def chan_inv_def split: option.splits)

lemma proxy_step_zero: "chan_proxy_step s s' \<Longrightarrow> cpc s = C_zero \<Longrightarrow> cpc s' = C_zero"
  by (erule chan_proxy_step.cases) (auto simp: wake_cache_def)

lemma wake_start [simp]: "wake_proxy (channel_start mem) = channel_start mem" "wake_cache (channel_start mem) = channel_start mem"
  by (simp_all add: wake_proxy_def wake_cache_def channel_start_def)

lemma wake_zero: "cpc s = C_zero \<Longrightarrow> cpc (wake_proxy s) = C_zero" "cpc s = C_zero \<Longrightarrow> cpc (wake_cache s) = C_zero"
  by (simp_all add: wake_proxy_def wake_cache_def)

lemma handler_request:
  assumes "handler_ok cache s"
  shows "no_request s \<or> (\<exists>p f k. cy_handler s = H_transfer p f k \<and> request_at p f s \<and> (\<forall>w. \<not> attached s w k) \<and>
    cpc (cy_chan s k) = C_zero \<and> transfer_inv (cache p) (cy_chan s k) \<and> sh_name (cy_os s) f = Some k \<and> k < sh_next (cy_os s))"
  using assms by (auto simp: handler_ok_def split: handler_at.splits)

text \<open>Once the handler can leave a transfer, the request is used up.\<close>

lemma transfer_over:
  assumes "handler_ok cache s" and "cy_handler s = H_transfer p f k" and "\<not> len_phase (ppc (cy_chan s k))"
  shows "no_request s" and "transfer_inv (cache p) (cy_chan s k)"
  using assms zero_len_phase [of "cache p" "cy_chan s k"] by (auto simp: handler_ok_def)

text \<open>Steps of a channel, when every worker on it works for the path of the handler.\<close>

lemma handler_ok_channel:
  assumes h: "handler_ok cache s"
    and inv: "\<And>p f. cy_handler s = H_transfer p f k \<Longrightarrow> transfer_inv (cache p) (cy_chan s k) \<Longrightarrow> transfer_inv (cache p) c"
    and zero: "(\<forall>w. \<not> attached s w k) \<Longrightarrow> cpc (cy_chan s k) = C_zero \<Longrightarrow> cpc c = C_zero"
    and start: "\<And>mem. (\<forall>w. \<not> attached s w k) \<Longrightarrow> (\<exists>p f. cy_handler s = H_created p f k) \<Longrightarrow> cy_chan s k = channel_start mem \<Longrightarrow> \<exists>mem. c = channel_start mem"
  shows "handler_ok cache (s\<lparr>cy_chan := (cy_chan s)(k := c)\<rparr>)"
proof -
  let ?s = "s\<lparr>cy_chan := (cy_chan s)(k := c)\<rparr>"
  have fr: "fresh_worker ?s w = fresh_worker s w" for w
    by (simp add: fresh_worker_def cong: daemon_pc.case_cong)
  have same: "no_request ?s = no_request s" "request_at p f ?s = request_at p f s" "attached ?s w j = attached s w j" for p f w j
    by (simp_all add: no_request_def request_at_def fr attached_def)
  show ?thesis
  proof (cases "cy_handler s")
    case (H_created p f j)
    with h same start [of _] show ?thesis by (cases "j = k") (auto simp: handler_ok_def)
  next
    case (H_transfer p f j)
    with h same inv zero show ?thesis by (cases "j = k") (auto simp: handler_ok_def)
  qed (use h same in \<open>simp_all add: handler_ok_def\<close>)
qed

lemma handler_ok_same:
  assumes "handler_ok cache s" and "no_request s \<Longrightarrow> no_request s'"
    and "\<And>p f k. cy_handler s = H_transfer p f k \<Longrightarrow> request_at p f s \<Longrightarrow> request_at p f s'"
    and "cy_handler s' = cy_handler s" "cy_os s' = cy_os s" "cy_chan s' = cy_chan s"
    and "\<And>w x. cy_worker s' w = Some x \<Longrightarrow> cy_worker s w = Some x"
  shows "handler_ok cache s'"
proof -
  have "attached s' w k \<Longrightarrow> attached s w k" for w k using assms(7) by (auto simp: attached_def)
  with assms show ?thesis
    unfolding handler_ok_def by (auto split: handler_at.splits) blast+
qed

lemma fresh_iff: "fresh_worker s w \<longleftrightarrow> dm_worker (cy_daemon s) w = C_popped \<or> (\<exists>p. dm_worker (cy_daemon s) w = C_has_path p) \<or>
    (\<exists>p f. dm_worker (cy_daemon s) w = C_has_both p f) \<and> cy_worker s w = None"
  by (auto simp: fresh_worker_def split: daemon_pc.splits)

text \<open>The daemon's part: the request moves on, or there is none and nothing happens.\<close>

lemma request_received:
  assumes "handler_ok cache s" and "cy_mq s = m # ms" and "daemon_main (cy_daemon s) (Some m) d"
  shows "handler_ok cache (s\<lparr>cy_mq := ms, cy_daemon := d\<rparr>)"
proof (rule handler_ok_same [OF assms(1)])
  from assms(3) have d: "d = (cy_daemon s)\<lparr>dm_data := m, dm_got := True\<rparr>" by cases simp
  show "no_request s \<Longrightarrow> no_request (s\<lparr>cy_mq := ms, cy_daemon := d\<rparr>)" using assms(2) by (simp add: no_request_def)
  show "request_at p f s \<Longrightarrow> request_at p f (s\<lparr>cy_mq := ms, cy_daemon := d\<rparr>)" for p f
    using assms(2) by (auto simp: request_at_def fresh_iff d)
qed simp_all

lemma request_queued:
  assumes "handler_ok cache s" and "daemon_main (cy_daemon s) None d"
  shows "handler_ok cache (s\<lparr>cy_daemon := d\<rparr>)"
proof (rule handler_ok_same [OF assms(1)])
  from assms(2) have d: "d = (cy_daemon s)\<lparr>dm_got := False, dm_queued := dm_queued (cy_daemon s) + 1\<rparr>" "dm_got (cy_daemon s)"
    by (cases, simp)+
  show "no_request s \<Longrightarrow> no_request (s\<lparr>cy_daemon := d\<rparr>)" using d(2) by (simp add: no_request_def)
  show "request_at p f s \<Longrightarrow> request_at p f (s\<lparr>cy_daemon := d\<rparr>)" for p f
    using d(2) by (auto simp: request_at_def fresh_iff d(1))
qed simp_all

lemma worker_reads_cases:
  assumes "daemon_worker d d'" and "\<forall>w p f. dm_worker d w = C_has_both p f \<longrightarrow> dm_worker d' w = C_has_both p f"
  obtains w where "dm_worker d w = C_idle" "dm_queued d \<noteq> 0" "d' = d\<lparr>dm_queued := dm_queued d - 1, dm_worker := (dm_worker d)(w := C_popped)\<rparr>"
  | w where "dm_worker d w = C_popped" "d' = d\<lparr>dm_worker := (dm_worker d)(w := C_has_path (fst (dm_data d)))\<rparr>"
  | w p where "dm_worker d w = C_has_path p" "d' = d\<lparr>dm_worker := (dm_worker d)(w := C_has_both p (snd (dm_data d)))\<rparr>"
  using assms(1)
proof cases
  case (finished w p f)
  then show thesis using assms(2) by (metis daemon.select_convs(4) daemon.surjective daemon.update_convs(4) daemon_pc.distinct(5) fun_upd_same)
qed (use that in blast)+

lemma request_read:
  assumes h: "handler_ok cache s" and wk: "workers_ok s" and d: "daemon_worker (cy_daemon s) d"
    "\<forall>w p f. dm_worker (cy_daemon s) w = C_has_both p f \<longrightarrow> dm_worker d w = C_has_both p f"
  shows "handler_ok cache (s\<lparr>cy_daemon := d\<rparr>)"
proof (rule handler_ok_same [OF h])
  have unmapped: "cy_worker s w = None" if "\<forall>p f. dm_worker (cy_daemon s) w \<noteq> C_has_both p f" for w
    using wk that unfolding workers_ok_def by (metis not_None_eq)
  show "no_request (s\<lparr>cy_daemon := d\<rparr>)" if n: "no_request s"
    using d by (cases rule: worker_reads_cases) (use n in \<open>auto simp: no_request_def fresh_iff\<close>)
  show "request_at p f (s\<lparr>cy_daemon := d\<rparr>)" if r: "request_at p f s" for p f
    using d
  proof (cases rule: worker_reads_cases)
    case (1 w)
    with r have "cy_mq s = []" "dm_data (cy_daemon s) = (p, f)" "\<not> dm_got (cy_daemon s)" "dm_queued (cy_daemon s) = 1" "\<forall>v. \<not> fresh_worker s v"
      by (auto simp: request_at_def)
    with 1 show ?thesis by (auto simp: request_at_def fresh_iff)
  next
    case (2 w)
    then have "fresh_worker s w" by (simp add: fresh_iff)
    with r have "cy_mq s = []" "dm_data (cy_daemon s) = (p, f)" "\<not> dm_got (cy_daemon s)" "dm_queued (cy_daemon s) = 0"
      "\<forall>v. fresh_worker s v \<longleftrightarrow> v = w" by (auto simp: request_at_def)
    with 2 show ?thesis by (auto simp: request_at_def fresh_iff intro!: exI [of _ w])
  next
    case (3 w p')
    then have "fresh_worker s w" by (simp add: fresh_iff)
    with r 3 have "cy_mq s = []" "dm_data (cy_daemon s) = (p, f)" "\<not> dm_got (cy_daemon s)" "dm_queued (cy_daemon s) = 0"
      "\<forall>v. fresh_worker s v \<longleftrightarrow> v = w" "p' = p" by (auto simp: request_at_def)
    moreover have "cy_worker s w = None" by (rule unmapped) (simp add: 3)
    ultimately show ?thesis using 3 by (auto simp: request_at_def fresh_iff intro!: exI [of _ w])
  qed
qed simp_all

definition object_ok :: "int \<Rightarrow> shm_os \<Rightarrow> nat \<Rightarrow> bool" where
  "object_ok sz os k \<longleftrightarrow> SHM_STRUCT \<le> sz \<and> (\<exists>ob. sh_object os k = Some ob \<and> ob_size ob = sz)"

lemma worker_map_known:
  assumes "worker_map sz f os = Some (k, os')"
  shows "sh_name os f = Some k \<and> sh_name os' = sh_name os \<and> sh_next os' = sh_next os"
    and "object_ok sz os j \<Longrightarrow> object_ok sz os' j"
  using assms by (auto simp: worker_map_def object_ok_def split: option.splits)

lemma request_attached:
  assumes h: "handler_ok cache s" and w: "dm_worker (cy_daemon s) w = C_has_both p f" "cy_worker s w = None" "sh_name (cy_os s) f = Some k"
    and os: "sh_name os = sh_name (cy_os s)" "sh_next os = sh_next (cy_os s)"
  shows "handler_ok cache (s\<lparr>cy_os := os, cy_worker := (cy_worker s)(w \<mapsto> (p, k))\<rparr>) \<and> k < sh_next (cy_os s)"
proof -
  let ?s = "s\<lparr>cy_os := os, cy_worker := (cy_worker s)(w \<mapsto> (p, k))\<rparr>"
  have fw: "fresh_worker s w" using w by (simp add: fresh_iff)
  from handler_request [OF h] fw obtain p' f' k' where t: "cy_handler s = H_transfer p' f' k'" "request_at p' f' s"
    "\<forall>v. \<not> attached s v k'" "transfer_inv (cache p') (cy_chan s k')" "sh_name (cy_os s) f' = Some k'" "k' < sh_next (cy_os s)"
    by (auto simp: no_request_def)
  from t(2) fw obtain v where d: "cy_mq s = []" "\<not> dm_got (cy_daemon s)" "dm_queued (cy_daemon s) = 0"
    "\<forall>u. fresh_worker s u \<longleftrightarrow> u = v" and v: "dm_worker (cy_daemon s) v = C_popped \<or>
      dm_worker (cy_daemon s) v = C_has_path p' \<or> dm_worker (cy_daemon s) v = C_has_both p' f'"
    unfolding request_at_def by blast
  have "v = w" using d(4) fw by simp
  with v w(1) have "dm_worker (cy_daemon s) w = C_has_both p' f'" by auto
  then have eq: "p' = p" "f' = f" "k' = k" using w t(5) by auto
  have "\<not> fresh_worker ?s u" for u
    using d(4) \<open>v = w\<close> w(1) by (cases "u = w") (auto simp: fresh_iff)
  then have "no_request ?s" using d by (simp add: no_request_def)
  moreover have "attached ?s u k \<longleftrightarrow> u = w" for u using t(3) eq by (auto simp: attached_def)
  moreover have "\<forall>u p''. cy_worker ?s u = Some (p'', k) \<longrightarrow> p'' = p" using t(3) eq by (auto simp: attached_def)
  ultimately show ?thesis using t eq os unfolding handler_ok_def by simp
qed

lemma cache_inv_step:
  assumes "cache_step cache sz s s'" and inv: "cache_inv cache s"
  shows "cache_inv cache s'"
proof -
  have wk: "workers_ok s" and h: "handler_ok cache s" and ans: "\<forall>x \<in> set (cy_answers s). right_answer cache x"
    using inv by (simp_all add: cache_inv_def)
  have quiet: "no_request s" if "\<And>p f k. cy_handler s \<noteq> H_transfer p f k"
    using handler_request [OF h] that by blast
  have calm: "no_request (s\<lparr>cy_handler := x, cy_os := os, cy_pool := pl, cy_chan := ch, cy_answers := aw\<rparr>) = no_request s" for x pl os ch aw
    by (simp add: no_request_def fresh_iff)
  from assms(1) show ?thesis
  proof cases
    case (cy_request p)
    with quiet wk ans calm [of "cy_answers s" "cy_chan s" "cy_pool s" "cy_os s" "H_wants p"]
    show ?thesis by (simp add: cache_inv_def handler_ok_def workers_ok_def)
  next
    case (cy_acquire p f pool)
    with quiet wk ans calm [of "cy_answers s" "cy_chan s" pool "cy_os s" "H_named p f"]
    show ?thesis by (simp add: cache_inv_def handler_ok_def workers_ok_def)
  next
    case (cy_create p f allowed k os)
    note c = create_known [OF cy_create(3)]
    let ?ch = "(cy_chan s)(k := channel_start (replicate (nat (sz - SHM_STRUCT)) NUL))"
    have "\<not> attached s w k" for w using wk c by (auto simp: workers_ok_def attached_def)
    with quiet cy_create(1,2) wk ans c calm [of "cy_answers s" ?ch "cy_pool s" os "H_created p f k"]
    show ?thesis by (fastforce simp: cache_inv_def handler_ok_def workers_ok_def attached_def less_SucI)
  next
    case (cy_send p f k junk msg)
    from h cy_send(2) obtain mem where r: "no_request s" "sh_name (cy_os s) f = Some k" "k < sh_next (cy_os s)"
      "\<forall>w. \<not> attached s w k" "cy_chan s k = channel_start mem" by (auto simp: handler_ok_def)
    let ?s = "s\<lparr>cy_handler := H_transfer p f k, cy_mq := cy_mq s @ [(p, f)]\<rparr>"
    have "request_at p f ?s" using r(1) by (auto simp: request_at_def no_request_def fresh_iff)
    moreover have "transfer_inv (cache p) (cy_chan s k)" "cpc (cy_chan s k) = C_zero"
      using r(5) transfer_inv_start by (simp_all add: channel_start_def)
    ultimately show ?thesis using cy_send(1) r wk ans by (simp add: cache_inv_def handler_ok_def workers_ok_def attached_def)
  next
    case (cy_transfer p f k c)
    have "handler_ok cache (s\<lparr>cy_chan := (cy_chan s)(k := c)\<rparr>)"
      by (rule handler_ok_channel [OF h]) (use cy_transfer transfer_inv_proxy proxy_step_zero in auto)
    with cy_transfer wk ans show ?thesis by (simp add: cache_inv_def workers_ok_def)
  next
    case (cy_missing p f k os pool)
    have m: "no_request s" "transfer_inv (cache p) (cy_chan s k)"
      using transfer_over [OF h cy_missing(2)] cy_missing(3) by simp_all
    have "right_answer cache (p, Not_found)" using transfer_inv_done(1) [OF m(2) cy_missing(3)] by (simp add: right_answer_def)
    with cy_missing(1,2) m wk ans destroy_known [OF cy_missing(4)]
      calm [of "cy_answers s @ [(p, Not_found)]" "clear_segment k (cy_chan s)" pool os H_idle]
    show ?thesis by (simp add: cache_inv_def handler_ok_def workers_ok_def)
  next
    case (cy_finish p f k os pool)
    have m: "no_request s" "transfer_inv (cache p) (cy_chan s k)"
      using transfer_over [OF h cy_finish(2)] cy_finish(3) by simp_all
    let ?a = "(p, Answered (p_header (cy_chan s k)) (p_body (cy_chan s k)))"
    have "right_answer cache ?a" using transfer_inv_done(2) [OF m(2) cy_finish(3)] by (auto simp: right_answer_def)
    with cy_finish(1,2) m wk ans destroy_known [OF cy_finish(4)]
      calm [of "cy_answers s @ [?a]" "clear_segment k (cy_chan s)" pool os H_idle]
    show ?thesis by (simp add: cache_inv_def handler_ok_def workers_ok_def)
  next
    case (cy_failed p f k)
    with transfer_over(1) [OF h cy_failed(2)] wk ans calm [of "cy_answers s" "cy_chan s" "cy_pool s" "cy_os s" H_idle]
    show ?thesis by (simp add: cache_inv_def handler_ok_def workers_ok_def)
  next
    case (cy_receive m ms d)
    from cy_receive(3) have "dm_worker d = dm_worker (cy_daemon s)" by cases simp
    with request_received [OF h cy_receive(2,3)] cy_receive(1) wk ans show ?thesis by (simp add: cache_inv_def workers_ok_def)
  next
    case (cy_enqueue d)
    from cy_enqueue(2) have "dm_worker d = dm_worker (cy_daemon s)" by cases simp
    with request_queued [OF h cy_enqueue(2)] cy_enqueue(1) wk ans show ?thesis by (simp add: cache_inv_def workers_ok_def)
  next
    case (cy_worker_reads d)
    have "workers_ok (s\<lparr>cy_daemon := d\<rparr>)" using wk cy_worker_reads(3) unfolding workers_ok_def by simp blast
    with request_read [OF h wk cy_worker_reads(2,3)] cy_worker_reads(1) ans show ?thesis by (simp add: cache_inv_def)
  next
    case (cy_attach w p f k os)
    from worker_map_known(1) [OF cy_attach(4)] request_attached [OF h cy_attach(2,3), of k os] cy_attach wk ans
    show ?thesis by (auto simp: cache_inv_def workers_ok_def)
  next
    case (cy_work w p k c)
    have a: "attached s w k" using cy_work(2) by (auto simp: attached_def)
    have "handler_ok cache (s\<lparr>cy_chan := (cy_chan s)(k := c)\<rparr>)"
    proof (rule handler_ok_channel [OF h])
      fix p' f assume t: "cy_handler s = H_transfer p' f k" "transfer_inv (cache p') (cy_chan s k)"
      from h t(1) a cy_work(2) have "p = p'" by (auto simp: handler_ok_def)
      with t(2) cy_work(3) show "transfer_inv (cache p') c" using transfer_inv_cache by blast
    qed (use a in blast)+
    with cy_work wk ans show ?thesis by (simp add: cache_inv_def workers_ok_def)
  next
    case (cy_worker_done w p k f)
    have "\<not> fresh_worker s w" using cy_worker_done(2,4) by (simp add: fresh_iff)
    have fr: "fresh_worker s' v = fresh_worker s v" for v
      using cy_worker_done \<open>\<not> fresh_worker s w\<close> by (auto simp: fresh_iff)
    have fields: "cy_mq s' = cy_mq s" "dm_got (cy_daemon s') = dm_got (cy_daemon s)" "dm_queued (cy_daemon s') = dm_queued (cy_daemon s)"
      "dm_data (cy_daemon s') = dm_data (cy_daemon s)" by (simp_all add: cy_worker_done(1))
    have same: "dm_worker (cy_daemon s') v = dm_worker (cy_daemon s) v" if "fresh_worker s v" for v
      using that \<open>\<not> fresh_worker s w\<close> cy_worker_done(1) by auto
    have "handler_ok cache s'"
    proof (rule handler_ok_same [OF h])
      show "no_request s \<Longrightarrow> no_request s'" by (simp add: no_request_def fields fr)
      show "request_at p f s \<Longrightarrow> request_at p f s'" for p f
        unfolding request_at_def fields fr by (metis same)
    qed (use cy_worker_done(1) in \<open>auto split: if_splits\<close>)
    with cy_worker_done(1) wk ans show ?thesis by (simp add: cache_inv_def workers_ok_def)
  next
    case (cy_spurious_proxy k)
    have "handler_ok cache (s\<lparr>cy_chan := (cy_chan s)(k := wake_proxy (cy_chan s k))\<rparr>)"
      by (rule handler_ok_channel [OF h]) (use transfer_inv_wake wake_zero in auto)
    with cy_spurious_proxy wk ans show ?thesis by (simp add: cache_inv_def workers_ok_def)
  next
    case (cy_spurious_cache k)
    have "handler_ok cache (s\<lparr>cy_chan := (cy_chan s)(k := wake_cache (cy_chan s k))\<rparr>)"
      by (rule handler_ok_channel [OF h]) (use transfer_inv_wake wake_zero in auto)
    with cy_spurious_cache wk ans show ?thesis by (simp add: cache_inv_def workers_ok_def)
  qed
qed

lemma cache_inv_reachable: "cache_reachable cache sz n s \<Longrightarrow> cache_inv cache s"
proof -
  assume "cache_reachable cache sz n s"
  then obtain p where "(cache_step cache sz)\<^sup>*\<^sup>* (cache_start p) s" by (auto simp: cache_reachable_def)
  then show ?thesis by (induction rule: rtranclp_induct) (auto intro: cache_inv_start cache_inv_step)
qed

section \<open>Well-formed states\<close>

definition message_ok :: "nat \<Rightarrow> string \<times> string \<Rightarrow> bool" where
  "message_ok n m \<longleftrightarrow> length (fst m) < MSG_FIELD \<and> snd m \<in> set (segment_names n)"

definition handler_typed :: "nat \<Rightarrow> int \<Rightarrow> shm_os \<Rightarrow> handler_at \<Rightarrow> bool" where
  "handler_typed n sz os h = (case h of
      H_idle \<Rightarrow> True
    | H_wants p \<Rightarrow> True
    | H_named p f \<Rightarrow> f \<in> set (segment_names n)
    | H_created p f k \<Rightarrow> f \<in> set (segment_names n) \<and> object_ok sz os k
    | H_transfer p f k \<Rightarrow> message_ok n (p, f) \<and> object_ok sz os k)"

definition worker_typed :: "nat \<Rightarrow> daemon_pc \<Rightarrow> bool" where
  "worker_typed n pc = (case pc of
      C_has_path p \<Rightarrow> length p < MSG_FIELD
    | C_has_both p f \<Rightarrow> message_ok n (p, f)
    | _ \<Rightarrow> True)"

definition daemon_typed :: "nat \<Rightarrow> daemon \<Rightarrow> bool" where
  "daemon_typed n d \<longleftrightarrow> 0 \<le> dm_queued d \<and> dm_queued d \<le> MAX_CACHE_REQUEST_LEN \<and> (\<forall>w. worker_typed n (dm_worker d w)) \<and>
     (dm_got d \<or> dm_queued d \<noteq> 0 \<or> (\<exists>w. dm_worker d w \<noteq> C_idle) \<longrightarrow> message_ok n (dm_data d))"

definition pool_typed :: "nat \<Rightarrow> pool \<Rightarrow> bool" where
  "pool_typed n p \<longleftrightarrow> pool_ok n p \<and> length (steque_elems (fldes_queue p)) \<le> n \<and>
     set (steque_elems (fldes_queue p)) \<subseteq> set (segment_names n)"

definition cache_typed :: "nat \<Rightarrow> int \<Rightarrow> cache_system \<Rightarrow> bool" where
  "cache_typed n sz s \<longleftrightarrow> pool_typed n (cy_pool s) \<and> handler_typed n sz (cy_os s) (cy_handler s) \<and>
     length (cy_mq s) \<le> MQ_MAXMSG \<and> (\<forall>m \<in> set (cy_mq s). message_ok n m) \<and> daemon_typed n (cy_daemon s) \<and>
     (\<forall>w p k. cy_worker s w = Some (p, k) \<longrightarrow> length p < MSG_FIELD \<and> object_ok sz (cy_os s) k) \<and>
     (\<forall>f k. sh_name (cy_os s) f = Some k \<longrightarrow> object_ok sz (cy_os s) k)"

lemma pool_typed_acquire:
  assumes "pool_typed n p" and "pool_acquire p = Some (Inr (f, p'))"
  shows "f \<in> set (segment_names n) \<and> pool_typed n p'"
proof -
  have ok: "pool_ok n p" using assms(1) by (simp add: pool_typed_def)
  have "steque_elems (fldes_queue p) \<noteq> []" using acquire_waits [OF ok] assms(2) by auto
  then obtain x xs where x: "steque_elems (fldes_queue p) = x # xs" by (cases "steque_elems (fldes_queue p)") auto
  from acquire_ok [OF ok x] assms x show ?thesis by (auto simp: pool_typed_def)
qed

lemma pool_typed_release:
  assumes "pool_typed n p" and "f \<in> set (segment_names n)" and "pool_release f p = Some (Inr p')"
  shows "pool_typed n p'"
proof -
  have ok: "pool_ok n p" using assms(1) by (simp add: pool_typed_def)
  have "fldes_queue_size p \<noteq> max_fldes_queue_size p" using assms(3) by (auto simp: pool_release_def)
  then have lt: "length (steque_elems (fldes_queue p)) < n" using ok assms(1) by (simp add: pool_ok_def pool_typed_def)
  from release_ok [OF ok lt, of f] assms lt show ?thesis by (auto simp: pool_typed_def)
qed

lemma object_ok_create:
  assumes "create_shm_channel allowed sz f os = Inr (k, os')"
  shows "object_ok sz os' k" and "object_ok sz os j \<Longrightarrow> object_ok sz os' j"
  using create_known [OF assms] by (auto simp: object_ok_def)

lemma object_ok_destroy:
  assumes "destroy_shm_seg f k os p = Some (Inr (os', p'))" and "object_ok sz os j"
  shows "object_ok sz os' j"
  using assms
  by (auto simp: destroy_shm_seg_def shm_unlink_def object_ok_def Let_def split: option.splits if_splits)

lemma daemon_typed_main: "daemon_main d None d' \<Longrightarrow> daemon_typed n d \<Longrightarrow> daemon_typed n d'"
  "daemon_main d (Some m) d' \<Longrightarrow> daemon_typed n d \<Longrightarrow> message_ok n m \<Longrightarrow> daemon_typed n d'"
  by (auto elim!: daemon_main.cases simp: daemon_typed_def)

lemma daemon_typed_worker: "daemon_worker d d' \<Longrightarrow> daemon_typed n d \<Longrightarrow> daemon_typed n d'"
proof (induction rule: daemon_worker.induct)
  case (pop s w)
  then show ?case by (auto simp: daemon_typed_def worker_typed_def)
next
  case (get_path s w)
  then have "message_ok n (dm_data s)" unfolding daemon_typed_def by (metis daemon_pc.distinct(1))
  with get_path show ?case by (auto simp: daemon_typed_def worker_typed_def message_ok_def)
next
  case (get_name s w p)
  then have "message_ok n (dm_data s)" unfolding daemon_typed_def by (metis daemon_pc.distinct(3))
  moreover have "length p < MSG_FIELD" using get_name unfolding daemon_typed_def worker_typed_def by (metis daemon_pc.simps(17))
  ultimately show ?case using get_name by (auto simp: daemon_typed_def worker_typed_def message_ok_def)
next
  case (finished s w p f)
  then show ?case by (auto simp: daemon_typed_def worker_typed_def)
qed

lemma cache_typed_step:
  assumes "cache_step cache sz s s'" and t: "cache_typed n sz s"
  shows "cache_typed n sz s'"
  using assms(1)
proof cases
  case (cy_acquire p f pool)
  with pool_typed_acquire [of n "cy_pool s" f pool] t show ?thesis by (auto simp: cache_typed_def handler_typed_def)
next
  case (cy_create p f allowed k os)
  with object_ok_create [OF cy_create(3)] create_known [OF cy_create(3)] t show ?thesis
    by (auto simp: cache_typed_def handler_typed_def split: if_splits)
next
  case (cy_send p f k junk msg)
  then have "length p < MSG_FIELD"
    by (auto simp: fill_message_def MSG_FIELD_def strcpy_to_def put_bytes_def elim!: bindE_eq_InrE split: if_splits)
  with cy_send t show ?thesis by (auto simp: cache_typed_def handler_typed_def message_ok_def)
next
  case (cy_missing p f k os pool)
  with pool_typed_release [of n "cy_pool s" f pool] destroy_known [OF cy_missing(4)] object_ok_destroy [OF cy_missing(4)] t
  show ?thesis by (auto simp: cache_typed_def handler_typed_def message_ok_def split: if_splits)
next
  case (cy_finish p f k os pool)
  with pool_typed_release [of n "cy_pool s" f pool] destroy_known [OF cy_finish(4)] object_ok_destroy [OF cy_finish(4)] t
  show ?thesis by (auto simp: cache_typed_def handler_typed_def message_ok_def split: if_splits)
next
  case (cy_receive m ms d)
  with daemon_typed_main(2) [OF cy_receive(3)] t show ?thesis by (auto simp: cache_typed_def)
next
  case (cy_enqueue d)
  with daemon_typed_main(1) [OF cy_enqueue(2)] t show ?thesis by (auto simp: cache_typed_def)
next
  case (cy_worker_reads d)
  with daemon_typed_worker [OF cy_worker_reads(2)] t show ?thesis by (auto simp: cache_typed_def)
next
  case (cy_attach w p f k os)
  have ok: "sh_name (cy_os s) f = Some k" "sh_name os = sh_name (cy_os s)" "object_ok sz (cy_os s) j \<Longrightarrow> object_ok sz os j" for j
    using worker_map_known [OF cy_attach(4)] by blast+
  have "worker_typed n (dm_worker (cy_daemon s) w)" using t by (simp add: cache_typed_def daemon_typed_def)
  with cy_attach t ok show ?thesis
    by (auto simp: cache_typed_def worker_typed_def message_ok_def handler_typed_def split: handler_at.splits)
next
  case (cy_worker_done w p k f)
  have "daemon_typed n ((cy_daemon s)\<lparr>dm_worker := (dm_worker (cy_daemon s))(w := C_idle)\<rparr>)"
    using daemon_typed_worker [OF daemon_worker.finished] cy_worker_done(4) t by (auto simp: cache_typed_def)
  with cy_worker_done t show ?thesis by (auto simp: cache_typed_def split: if_splits)
qed (use t in \<open>simp_all add: cache_typed_def handler_typed_def\<close>)

lemma cache_typed_start:
  assumes "pool_ok n p" and "steque_elems (fldes_queue p) = segment_names n"
  shows "cache_typed n sz (cache_start p)"
  using assms
  by (simp add: cache_typed_def cache_start_def pool_typed_def handler_typed_def daemon_typed_def daemon_start_def
      worker_typed_def MAX_CACHE_REQUEST_LEN_def MQ_MAXMSG_def shm_empty_def)

section \<open>A run\<close>

lemma missing_run:
  "\<exists>c. (internal_step None room)\<^sup>*\<^sup>* (channel_start mem) c \<and> ppc c = P_missing \<and> cpc c = C_len_bcast"
proof -
  define c0 where "c0 = channel_start mem"
  define c1 where "c1 = c0\<lparr>file_length := 0, cpc := C_len_lock\<rparr>"
  define c2 where "c2 = (lock cache_file_len_mutex Cache c1)\<lparr>cpc := C_len_test\<rparr>"
  define c3 where "c3 = c2\<lparr>file_length := announced None, cpc := C_set_zero\<rparr>"
  define c4 where "c4 = c3\<lparr>bytes_written := 0, cpc := C_len_unlock\<rparr>"
  define c5 where "c5 = (unlock cache_file_len_mutex c4)\<lparr>cpc := C_len_bcast\<rparr>"
  define c7 where "c7 = (lock proxy_file_len_mutex Proxy c5)\<lparr>ppc := P_len_test\<rparr>"
  define c8 where "c8 = c7\<lparr>p_len := file_length c7, ppc := P_len_unlock\<rparr>"
  define c9 where "c9 = (unlock proxy_file_len_mutex c8)\<lparr>ppc := P_len_bcast\<rparr>"
  define c10 where "c10 = (wake_cache c9)\<lparr>ppc := P_missing\<rparr>"
  have 1: "chan_cache_step None room c0 c1" unfolding c1_def by (rule c_zero) (simp add: c0_def channel_start_def)
  have 2: "chan_cache_step None room c1 c2" unfolding c2_def by (rule c_len_lock) (simp_all add: c1_def c0_def channel_start_def)
  have 3: "chan_cache_step None room c2 c3" unfolding c3_def by (rule c_len_set) (simp_all add: c2_def c1_def)
  have 4: "chan_cache_step None room c3 c4" unfolding c4_def by (rule c_set_zero) (simp add: c3_def)
  have 5: "chan_cache_step None room c4 c5" unfolding c5_def by (rule c_len_unlock) (simp add: c4_def)
  have c5: "ppc c5 = P_len_lock" "owner c5 m = None" "file_length c5 = - 1" "cpc c5 = C_len_bcast" for m
    by (simp_all add: c5_def c4_def c3_def c2_def c1_def c0_def channel_start_def lock_def unlock_def announced_def)
  have 7: "chan_proxy_step c5 c7" unfolding c7_def by (rule p_len_lock) (simp_all add: c5)
  have 8: "chan_proxy_step c7 c8" unfolding c8_def by (rule p_len_read) (simp_all add: c7_def c5)
  have 9: "chan_proxy_step c8 c9" unfolding c9_def by (rule p_len_unlock) (simp add: c8_def)
  have 10: "chan_proxy_step c9 c10" unfolding c10_def by (rule p_missing) (simp_all add: c9_def c8_def c7_def c5)
  have i: "internal_step None room x y" if "chan_cache_step None room x y \<or> chan_proxy_step x y" for x y
    using that by (auto simp: internal_step_def)
  have "(internal_step None room)\<^sup>*\<^sup>* c0 c5"
    using 1 2 3 4 5 by (meson i converse_rtranclp_into_rtranclp rtranclp.rtrancl_refl)
  also have "(internal_step None room)\<^sup>*\<^sup>* c5 c10"
    using 7 8 9 10 by (meson i converse_rtranclp_into_rtranclp rtranclp.rtrancl_refl)
  finally have "(internal_step None room)\<^sup>*\<^sup>* (channel_start mem) c10" by (simp add: c0_def)
  moreover have "ppc c10 = P_missing" "cpc c10 = C_len_bcast" by (simp_all add: c10_def c9_def c8_def c7_def c5 wake_cache_def)
  ultimately show ?thesis by blast
qed

lemma channel_run:
  assumes "cy_handler s = H_transfer p f k" and "cy_worker s w = Some (p, k)"
    and "(internal_step (cache p) (chunk_room sz))\<^sup>*\<^sup>* (cy_chan s k) c"
  shows "(cache_step cache sz)\<^sup>*\<^sup>* s (s\<lparr>cy_chan := (cy_chan s)(k := c)\<rparr>)"
  using assms(3)
proof (induction rule: rtranclp_induct)
  case (step c c')
  let ?s = "s\<lparr>cy_chan := (cy_chan s)(k := c)\<rparr>"
  have "cache_step cache sz ?s (?s\<lparr>cy_chan := (cy_chan ?s)(k := c')\<rparr>)"
    using step.hyps(2) assms(1,2) unfolding internal_step_def
    by (elim disjE) (rule cy_transfer, simp, simp, rule cy_work, simp, simp)
  then have "cache_step cache sz ?s (s\<lparr>cy_chan := (cy_chan s)(k := c')\<rparr>)" by simp
  with step.IH show ?case by (rule rtranclp.rtrancl_into_rtrancl)
qed simp

text \<open>A request for a file the cache does not have, from the first call to the answer.\<close>

lemma missing_answered:
  "\<exists>s k. cache_reachable (\<lambda>_. None) 4096 1 s \<and> cy_answers s = [(''/x'', Not_found)] \<and>
    cy_handler s = H_idle \<and> cy_worker s 0 = Some (''/x'', k) \<and> cpc (cy_chan s k) = C_len_bcast \<and> (\<forall>f. sh_name (cy_os s) f \<noteq> Some k)"
proof -
  let ?C = "cache_step (\<lambda>_. None) 4096"
  obtain pool where pool: "init_proxy (int 1) = Inr pool" "pool_ok 1 pool" "steque_elems (fldes_queue pool) = segment_names 1"
    using init_proxy_known [of 1] by (auto simp: int_max_def)
  define f where "f = hd (segment_names 1)"
  have f: "segment_names 1 = [f]" by (simp add: f_def segment_names_def)
  obtain pool1 where pool1: "pool_acquire pool = Some (Inr (f, pool1))" "pool_ok 1 pool1" "steque_elems (fldes_queue pool1) = []"
    using acquire_ok [OF pool(2), of f "[]"] pool(3) f by auto
  obtain k os where os: "create_shm_channel True 4096 f shm_empty = Inr (k, os)"
    by (simp add: create_shm_channel_def shm_unlink_def shm_open_excl_def shm_empty_def SHM_STRUCT_def)
  note c = create_known [OF os]
  obtain msg where msg: "fill_message (\<lambda>_. NUL) 4096 ''/x'' f = Inr msg"
    by (auto simp: fill_message_def MSG_FIELD_def strcpy_to_def put_bytes_def f_def segment_names_def SHAREDMPATH_def show_nat.simps)
  obtain os2 pool2 where d: "destroy_shm_seg f k os pool1 = Some (Inr (os2, pool2))"
    using release_ok [OF pool1(2), of f] pool1(3) c by (auto simp: destroy_shm_seg_def Let_def)
  let ?mem = "replicate (nat (4096 - SHM_STRUCT)) NUL"
  obtain ch where ch: "(internal_step None (chunk_room 4096))\<^sup>*\<^sup>* (channel_start ?mem) ch" "ppc ch = P_missing" "cpc ch = C_len_bcast"
    using missing_run by blast
  define s0 where "s0 = cache_start pool"
  define s1 where "s1 = s0\<lparr>cy_handler := H_wants ''/x''\<rparr>"
  define s2 where "s2 = s1\<lparr>cy_handler := H_named ''/x'' f, cy_pool := pool1\<rparr>"
  define s3 where "s3 = s2\<lparr>cy_handler := H_created ''/x'' f k, cy_os := os, cy_chan := (cy_chan s2)(k := channel_start ?mem)\<rparr>"
  define s4 where "s4 = s3\<lparr>cy_handler := H_transfer ''/x'' f k, cy_mq := cy_mq s3 @ [(''/x'', f)]\<rparr>"
  define d1 where "d1 = daemon_start\<lparr>dm_data := (''/x'', f), dm_got := True\<rparr>"
  define d2 where "d2 = d1\<lparr>dm_got := False, dm_queued := dm_queued d1 + 1\<rparr>"
  define d3 where "d3 = d2\<lparr>dm_queued := dm_queued d2 - 1, dm_worker := (dm_worker d2)(0 := C_popped)\<rparr>"
  define d4 where "d4 = d3\<lparr>dm_worker := (dm_worker d3)(0 := C_has_path (fst (dm_data d3)))\<rparr>"
  define d5 where "d5 = d4\<lparr>dm_worker := (dm_worker d4)(0 := C_has_both ''/x'' (snd (dm_data d4)))\<rparr>"
  note dd = d1_def d2_def d3_def d4_def d5_def daemon_start_def MAX_CACHE_REQUEST_LEN_def
  define s5 where "s5 = s4\<lparr>cy_mq := [], cy_daemon := d5\<rparr>"
  define s6 where "s6 = s5\<lparr>cy_os := os, cy_worker := (cy_worker s5)(0 \<mapsto> (''/x'', k))\<rparr>"
  define s7 where "s7 = s6\<lparr>cy_chan := (cy_chan s6)(k := ch)\<rparr>"
  define s8 where "s8 = s7\<lparr>cy_handler := H_idle, cy_os := os2, cy_pool := pool2, cy_chan := clear_segment k (cy_chan s7),
    cy_answers := cy_answers s7 @ [(''/x'', Not_found)]\<rparr>"
  note ss = s0_def s1_def s2_def s3_def s4_def s5_def s6_def s7_def cache_start_def
  have 1: "?C s0 s1" unfolding s1_def by (rule cy_request) (simp add: ss)
  have 2: "?C s1 s2" unfolding s2_def by (rule cy_acquire) (simp_all add: ss pool1)
  have 3: "?C s2 s3" unfolding s3_def by (rule cy_create [where allowed = True]) (simp_all add: ss os)
  have 4: "?C s3 s4" unfolding s4_def by (rule cy_send [OF _ msg]) (simp_all add: ss MQ_MAXMSG_def)
  have e1: "daemon_main daemon_start (Some (''/x'', f)) d1" unfolding d1_def by (rule daemon_main.receive) (simp add: dd)
  have e2: "daemon_main d1 None d2" unfolding d2_def by (rule daemon_main.enqueue) (simp_all add: dd)
  have e3: "daemon_worker d2 d3" unfolding d3_def by (rule daemon_worker.pop) (simp_all add: dd)
  have e4: "daemon_worker d3 d4" unfolding d4_def by (rule daemon_worker.get_path) (simp add: d3_def)
  have e5: "daemon_worker d4 d5" unfolding d5_def by (rule daemon_worker.get_name) (simp add: dd)
  have no: "dm_worker d2 w \<noteq> C_has_both p g" "dm_worker d3 w \<noteq> C_has_both p g" "dm_worker d4 w \<noteq> C_has_both p g" for w p g
    by (simp_all add: dd)
  have 5: "?C\<^sup>*\<^sup>* s4 s5"
  proof -
    have m: "cy_mq s4 = [(''/x'', f)]" "cy_daemon s4 = daemon_start" by (simp_all add: ss)
    have a: "?C s4 (s4\<lparr>cy_mq := [], cy_daemon := d1\<rparr>)" by (rule cy_receive [OF m(1)]) (simp add: m e1)
    have b: "?C (s4\<lparr>cy_mq := [], cy_daemon := d1\<rparr>) (s4\<lparr>cy_mq := [], cy_daemon := d2\<rparr>)"
      using cy_enqueue [of "s4\<lparr>cy_mq := [], cy_daemon := d1\<rparr>" d2] e2 by simp
    have r: "?C (s4\<lparr>cy_mq := [], cy_daemon := x\<rparr>) (s4\<lparr>cy_mq := [], cy_daemon := y\<rparr>)"
      if "daemon_worker x y" "\<And>w p g. dm_worker x w \<noteq> C_has_both p g" for x y
      using cy_worker_reads [of "s4\<lparr>cy_mq := [], cy_daemon := x\<rparr>" y] that by simp
    from a b r [OF e3 no(1)] r [OF e4 no(2)] r [OF e5 no(3)] show ?thesis
      unfolding s5_def by (meson converse_rtranclp_into_rtranclp rtranclp.rtrancl_refl)
  qed
  have "worker_map 4096 f os = Some (k, os)" using c by (auto simp: worker_map_def)
  then have 6: "?C s5 s6" unfolding s6_def
    by (intro cy_attach [where f = f]) (simp_all add: ss c, simp add: dd)
  have 7: "?C\<^sup>*\<^sup>* s6 s7" unfolding s7_def
    by (rule channel_run [where p = "''/x''" and f = f and w = 0]) (use ch(1) in \<open>simp_all add: ss\<close>)
  have 8: "?C s7 s8" unfolding s8_def
    by (rule cy_missing [where f = f and k = k]) (use ch(2) d in \<open>simp_all add: ss\<close>)
  have "?C\<^sup>*\<^sup>* s0 s4" using 1 2 3 4 by (meson converse_rtranclp_into_rtranclp rtranclp.rtrancl_refl)
  with 5 6 7 8 have "?C\<^sup>*\<^sup>* s0 s8" by (meson rtranclp.rtrancl_into_rtrancl rtranclp_trans)
  then have "cache_reachable (\<lambda>_. None) 4096 1 s8" using pool(1) by (auto simp: cache_reachable_def s0_def)
  moreover have "cy_answers s8 = [(''/x'', Not_found)]" "cy_handler s8 = H_idle" "cy_worker s8 0 = Some (''/x'', k)"
    by (simp_all add: s8_def ss)
  moreover have "cpc (cy_chan s8 k) = C_len_bcast" by (simp add: s8_def s7_def clear_segment_def ch(3))
  moreover have "\<forall>g. sh_name (cy_os s8) g \<noteq> Some k" using destroy_known [OF d] c by (simp add: s8_def shm_empty_def)
  ultimately show ?thesis by blast
qed

section \<open>Properties\<close>

lemma cache_program_reachable:
  "cache_program signal wargv denv dargv cache s \<Longrightarrow> \<exists>sz n. cache_reachable cache sz n s"
  using webproxy_main_pool(1) unfolding cache_program_def cache_reachable_def by metis

definition no_file_env :: sc_env where
  "no_file_env = \<lparr>sc_mq_open = True, sc_signals = (True, True), sc_init = (\<lambda>_. Inr (\<lambda>_. None)), sc_create = (\<lambda>_. True)\<rparr>"

lemma missing_program:
  "\<exists>s k. cache_program (\<lambda>_. True) [''-z'', ''4096''] no_file_env [] (\<lambda>_. None) s \<and> cy_answers s = [(''/x'', Not_found)] \<and>
    cy_handler s = H_idle \<and> cy_worker s 0 = Some (''/x'', k) \<and> cpc (cy_chan s k) = C_len_bcast \<and> (\<forall>f. sh_name (cy_os s) f \<noteq> Some k)"
proof -
  from missing_answered obtain s k p where s: "cy_answers s = [(''/x'', Not_found)]" "cy_handler s = H_idle"
      "cy_worker s 0 = Some (''/x'', k)" "cpc (cy_chan s k) = C_len_bcast" "\<forall>f. sh_name (cy_os s) f \<noteq> Some k" and p: "init_proxy (int 1) = Inr p"
    and run: "(cache_step (\<lambda>_. None) 4096)\<^sup>*\<^sup>* (cache_start p) s" by (auto simp: cache_reachable_def)
  have o: "wp_options [''-z'', ''4096''] = Inr (wp_defaults\<lparr>wp_segment_size := 4096\<rparr>)" by code_simp
  have "\<exists>conf. webproxy_main (\<lambda>_. True) [''-z'', ''4096''] = Inr (wp_defaults\<lparr>wp_segment_size := 4096\<rparr>, p, conf) \<and> gs_threads conf = 1"
    using p by (simp add: webproxy_main_def o wp_defaults_def)
  moreover have "sc_options [] = Inr sc_defaults" by code_simp
  then have "\<exists>workers. simplecached_main no_file_env [] = Inr (\<lambda>_. None, workers)"
    by (simp add: simplecached_main_def no_file_env_def sc_defaults_def)
  ultimately have "cache_program (\<lambda>_. True) [''-z'', ''4096''] no_file_env [] (\<lambda>_. None) s"
    using run unfolding cache_program_def by (auto simp: wp_defaults_def)
  with s show ?thesis by blast
qed






end
