(* ===== verification/LongOptions.thy ===== *)
theory LongOptions
  imports Mains Minify MtClient Download
begin

text \<open>
  The long names of the options of the seven programs that call \<open>getopt_long\<close>: each does what
  the letter the usage text pairs it with does, and what the tables make of help and of
  shortened names.
\<close>

definition same_option :: "(string list \<Rightarrow> 'a) \<Rightarrow> string \<times> char \<Rightarrow> bool" where
  "same_option options x = (let (name, c) = x in \<forall>a ws.
     options ((''--'' @ name) # a # ws) = options ([CHR ''-'', c] # a # ws) \<and>
     options ((''--'' @ name @ ''='' @ a) # ws) = options ([CHR ''-'', c] # a # ws))"

lemma same_optionI:
  assumes "find_long longs name = Some (Required_argument, c)" and "CHR ''='' \<notin> set name" and "name \<noteq> []"
    and "opt_known os c" and "opt_takes_arg os c" and "c \<noteq> CHR ''-''"
  shows "same_option (\<lambda>argv. foldE f (getopt_long os longs argv) d) (name, c)"
  unfolding same_option_def
  by (simp only: Let_def prod.case getopt_long_word [OF assms(1-3)] getopt_letter [OF assms(4-6)]) simp

text \<open>The options \<open>main\<close> can be given by name, with what ends the program at once.\<close>

definition named_options :: "(string list \<Rightarrow> cfault + 'o) \<Rightarrow> (string \<times> char) list \<Rightarrow> bool" where
  "named_options options names \<longleftrightarrow> list_all (same_option options) names \<and> (\<forall>ws. options (''--help'' # ws) = Inl (Exit_program 0))"

lemma named_optionsI:
  assumes "list_all (\<lambda>(n, c). find_long longs n = Some (Required_argument, c) \<and> CHR ''='' \<notin> set n \<and> n \<noteq> [] \<and>
      opt_known os c \<and> opt_takes_arg os c \<and> c \<noteq> CHR ''-'') names"
    and "find_long longs ''help'' = Some (No_argument, CHR ''h'')" and "f (CHR ''h'', []) d = Inl (Exit_program 0)"
  shows "named_options (\<lambda>argv. foldE f (getopt_long os longs argv) d) names"
proof -
  have "longs \<noteq> []" using assms(2) by (auto simp: find_long_def)
  then have "getopt_long os longs (''--help'' # ws) = (CHR ''h'', []) # getopt_long os longs ws" for ws
    using assms(2) unfolding getopt_long.simps(2) [of os longs "''--help''"] by (simp add: Let_def)
  then have "foldE f (getopt_long os longs (''--help'' # ws)) d = Inl (Exit_program 0)" for ws using assms(3) by simp
  then show ?thesis using assms(1) unfolding named_options_def by (auto simp: list_all_iff intro!: same_optionI)
qed

lemmas table_defs = find_long_def opt_known_def opt_takes_arg_def

lemma client_names:
  "named_options dl_options [(''server'', CHR ''s''), (''port'', CHR ''p''), (''workload-path'', CHR ''w''), (''nthreads'', CHR ''t''), (''nrequests'', CHR ''n'')]"
  "named_options mc_options [(''server'', CHR ''s''), (''port'', CHR ''p''), (''workload-path'', CHR ''w''), (''nthreads'', CHR ''t''), (''nrequests'', CHR ''n'')]"
  "named_options vo_options [(''server'', CHR ''s''), (''workload'', CHR ''w''), (''nthreads'', CHR ''t'')]"
  unfolding dl_options_def mc_options_def vo_options_def
  by (rule named_optionsI; simp add: table_defs dl_long_def mc_long_def vo_long_def dl_option_def mc_option_def vo_option_def)+

lemma server_names:
  "named_options mm_options [(''port'', CHR ''p''), (''content'', CHR ''c''), (''nthreads'', CHR ''t'')]"
  "named_options wp_options [(''port'', CHR ''p''), (''segment'', CHR ''n''), (''size'', CHR ''z''), (''thread-count'', CHR ''t''), (''server'', CHR ''s'')]"
  "named_options wc_options [(''port'', CHR ''p''), (''thread-count'', CHR ''t''), (''server'', CHR ''s'')]"
  "named_options sc_options [(''nthreads'', CHR ''t''), (''cachedir'', CHR ''c'')]"
  unfolding mm_options_def wp_options_def wc_options_def sc_options_def
  by (rule named_optionsI; simp add: table_defs mm_long_def wp_long_def wc_long_def sc_long_def
      mm_option_def wp_option_def wc_option_def sc_option_def)+

text \<open>Names can be shortened as long as only one entry begins with what is left.\<close>

lemma shortened_names:
  "dl_options [''--nr'', ''3''] = dl_options [''-n'', ''3'']" "dl_options [''--n'', ''3''] = Inl (Exit_program 1)"
  "wp_options [''--se=4''] = Inl (Exit_program 1)" "wp_options [''--seg=4''] = wp_options [''-n'', ''4'']"
  by code_simp+


end
