(* ===== verification/Joins.thy ===== *)
theory Joins
  imports MtClient Minify
begin

text \<open>
  The ends of the two multithreaded clients: \<open>main\<close> joins the threads it created, one after
  the other, while they run, cleans up after each, and returns. The locale says what it needs
  of the threads; it is interpreted on the download client and on the image minifying client.
\<close>

section \<open>A main that joins its threads\<close>

datatype main_at = Joining nat | Main_returned int | Main_crashed cfault

text \<open>
  A join waits until the thread has returned. \<open>after\<close> is what is done with the thread that was
  joined. A process that has faulted does nothing more.
\<close>

inductive join_step :: "('s \<Rightarrow> 's \<Rightarrow> bool) \<Rightarrow> ('s \<Rightarrow> cfault option) \<Rightarrow> (nat \<Rightarrow> 's \<Rightarrow> bool) \<Rightarrow> (nat \<Rightarrow> cfault + unit) \<Rightarrow> nat \<Rightarrow>
    main_at \<times> 's \<Rightarrow> main_at \<times> 's \<Rightarrow> bool"
  for step fault exited after n where
  threads: "step s s' \<Longrightarrow> join_step step fault exited after n (Joining i, s) (Joining i, s')"
| joined: "fault s = None \<Longrightarrow> i < n \<Longrightarrow> exited i s \<Longrightarrow> after i = Inr () \<Longrightarrow>
    join_step step fault exited after n (Joining i, s) (Joining (Suc i), s)"
| joined_crash: "fault s = None \<Longrightarrow> i < n \<Longrightarrow> exited i s \<Longrightarrow> after i = Inl e \<Longrightarrow>
    join_step step fault exited after n (Joining i, s) (Main_crashed e, s)"
| returns: "fault s = None \<Longrightarrow> \<not> i < n \<Longrightarrow> join_step step fault exited after n (Joining i, s) (Main_returned 0, s)"

inductive_cases join_stepE: "join_step step fault exited after n (m, s) (m', s')"

definition joins_left :: "nat \<Rightarrow> main_at \<Rightarrow> nat" where
  "joins_left n m = (case m of Joining i \<Rightarrow> Suc n - i | _ \<Rightarrow> 0)"

definition joins_ok :: "(nat \<Rightarrow> 's \<Rightarrow> bool) \<Rightarrow> (nat \<Rightarrow> cfault + unit) \<Rightarrow> nat \<Rightarrow> main_at \<Rightarrow> 's \<Rightarrow> bool" where
  "joins_ok exited after n m s = (case m of
      Joining i \<Rightarrow> i \<le> n \<and> (\<forall>j < i. exited j s)
    | Main_returned r \<Rightarrow> r = 0 \<and> (\<forall>j < n. exited j s)
    | Main_crashed e \<Rightarrow> \<exists>i < n. after i = Inl e)"

text \<open>What is done with each thread in turn has to succeed for \<open>main\<close> to return.\<close>

lemma joins_cleaned:
  assumes "(join_step step fault exited after n)\<^sup>*\<^sup>* (Joining 0, s) x"
  shows "case fst x of Joining i \<Rightarrow> i \<le> n \<and> (\<forall>j < i. after j = Inr ()) | Main_returned r \<Rightarrow> \<forall>j < n. after j = Inr () | Main_crashed e \<Rightarrow> True"
  using assms
proof (induction rule: rtranclp_induct)
  case (step y z)
  from step.hyps(2) step.IH show ?case by cases (auto simp: less_Suc_eq)
qed simp

locale joined_threads =
  fixes step :: "'s \<Rightarrow> 's \<Rightarrow> bool" and fault :: "'s \<Rightarrow> cfault option" and exited :: "nat \<Rightarrow> 's \<Rightarrow> bool"
    and after :: "nat \<Rightarrow> cfault + unit" and n :: nat and good :: "'s \<Rightarrow> bool" and left :: "'s \<Rightarrow> nat"
  assumes good_step: "good s \<Longrightarrow> step s s' \<Longrightarrow> good s'"
    and left_step: "good s \<Longrightarrow> step s s' \<Longrightarrow> left s' < left s"
    and stays_out: "good s \<Longrightarrow> step s s' \<Longrightarrow> exited i s \<Longrightarrow> exited i s'"
    and no_deadlock: "good s \<Longrightarrow> \<nexists>s'. step s s' \<Longrightarrow> fault s = None \<Longrightarrow> i < n \<Longrightarrow> exited i s"
begin

lemma main_step:
  assumes "join_step step fault exited after n (m, s) (m', s')" and "good s" and "joins_ok exited after n m s"
  shows "good s' \<and> joins_ok exited after n m' s' \<and> left s' + joins_left n m' < left s + joins_left n m"
  using assms
proof (cases rule: join_step.cases [OF assms(1)])
  case (1 t t' i)
  with left_step [of s s'] good_step [of s s'] stays_out [of s s'] assms(2,3) show ?thesis
    by (auto simp: joins_ok_def joins_left_def)
qed (use assms(2,3) in \<open>auto simp: joins_ok_def joins_left_def less_Suc_eq\<close>)

lemma main_run:
  "(join_step step fault exited after n ^^ k) (m, s) (m', s') \<Longrightarrow> good s \<Longrightarrow> joins_ok exited after n m s \<Longrightarrow>
    good s' \<and> joins_ok exited after n m' s' \<and> left s' + joins_left n m' + k \<le> left s + joins_left n m"
proof (induction k arbitrary: m' s')
  case (Suc k)
  then obtain m1 s1 where "(join_step step fault exited after n ^^ k) (m, s) (m1, s1)"
    and "join_step step fault exited after n (m1, s1) (m', s')" by auto
  with Suc main_step [of m1 s1 m' s'] show ?case by fastforce
qed simp

text \<open>Every run is bounded, and a run that cannot go on has returned 0 behind all threads, or faulted.\<close>

lemma main_bound:
  "(join_step step fault exited after n ^^ k) (Joining 0, s) (m, s') \<Longrightarrow> good s \<Longrightarrow> good s' \<and> k \<le> left s + Suc n"
  using main_run [of k "Joining 0" s m s'] by (auto simp: joins_ok_def joins_left_def)

lemma main_ends:
  assumes "(join_step step fault exited after n ^^ k) (Joining 0, s) (m, s')" and "good s"
    and stuck: "\<nexists>x. join_step step fault exited after n (m, s') x"
  shows "fault s' \<noteq> None \<or> m = Main_returned 0 \<and> (\<forall>j < n. exited j s') \<or> (\<exists>i < n. \<exists>e. m = Main_crashed e \<and> after i = Inl e)"
proof -
  have g: "good s'" and j: "joins_ok exited after n m s'" using main_run [OF assms(1,2)] by (simp_all add: joins_ok_def)
  show ?thesis
  proof (cases m)
    case (Joining i)
    have "fault s' \<noteq> None"
    proof (rule ccontr)
      assume "\<not> fault s' \<noteq> None"
      then have f: "fault s' = None" by blast
      have no: "\<nexists>s''. step s' s''"
      proof
        assume "\<exists>s''. step s' s''"
        then obtain s'' where "step s' s''" ..
        from join_step.threads [where step = step and fault = fault and exited = exited and after = after and n = n and i = i, OF this] stuck show False unfolding Joining by (elim notE exI)
      qed
      show False
      proof (cases "i < n")
        case True
        have "exited i s'" by (rule no_deadlock [OF g no f True])
        have "join_step step fault exited after n (m, s') (Joining (Suc i), s')" if "after i = Inr ()"
          unfolding Joining by (rule join_step.joined [where step = step and fault = fault and exited = exited and after = after and n = n, OF f True \<open>exited i s'\<close> that])
        moreover have "join_step step fault exited after n (m, s') (Main_crashed e, s')" if "after i = Inl e" for e
          unfolding Joining by (rule join_step.joined_crash [where step = step and fault = fault and exited = exited and after = after and n = n, OF f True \<open>exited i s'\<close> that])
        ultimately show False using stuck by (metis old.sum.exhaust old.unit.exhaust)
      next
        case False
        have "join_step step fault exited after n (m, s') (Main_returned 0, s')"
          unfolding Joining by (rule join_step.returns [where step = step and fault = fault and exited = exited and after = after and n = n, OF f False])
        with stuck show False by blast
      qed
    qed
    then show ?thesis by blast
  qed (use j in \<open>auto simp: joins_ok_def\<close>)
qed

end

section \<open>The download client\<close>

definition mc_exited :: "nat \<Rightarrow> 'd mc_state \<Rightarrow> bool" where
  "mc_exited w s \<longleftrightarrow> (\<exists>i. mc_pc s w = M_exit i)"

text \<open>The process: \<open>n\<close> threads, and \<open>main\<close> from the first join to its return.\<close>

definition mc_process :: "'d mc_env \<Rightarrow> nat \<Rightarrow> main_at \<times> 'd mc_state \<Rightarrow> main_at \<times> 'd mc_state \<Rightarrow> bool" where
  "mc_process env n = join_step (mc_step env) mc_fault mc_exited (\<lambda>_. Inr ()) n"

definition mc_answering :: "'d mc_env \<Rightarrow> string list \<Rightarrow> nat \<Rightarrow> 'd mc_state \<Rightarrow> bool" where
  "mc_answering env reqs n s \<longleftrightarrow> valid_requests reqs \<and>
     (\<forall>job. me_perform env (o_server (me_opts env)) (o_port (me_opts env)) job \<noteq> None) \<and> mc_good env reqs n s"

lemma mc_exited_step:
  assumes "mc_step env s s'" and "mc_exited i s"
  shows "mc_exited i s'"
proof -
  from assms(1) obtain w where m: "mc_move env w s = Some s'" by cases
  then have "w \<noteq> i" using assms(2) by (auto simp: mc_exited_def mc_move_def)
  then have "mc_pc s' i = mc_pc s i"
    using m by (auto simp: mc_move_def set_pc_def crash_def split: mc_pc.splits if_splits option.splits sum.splits prod.splits)
  with assms(2) show ?thesis by (simp add: mc_exited_def)
qed

interpretation downloads: joined_threads "mc_step env" mc_fault mc_exited "\<lambda>_. Inr ()" n "mc_answering env reqs n"
  "mc_work (nat (o_nrequests (me_opts env))) n" for env :: "'d mc_env" and reqs n
proof
  show "mc_answering env reqs n s \<Longrightarrow> mc_step env s s' \<Longrightarrow> mc_answering env reqs n s'" for s s'
    using mc_good_step by (auto simp: mc_answering_def)
  show "mc_answering env reqs n s \<Longrightarrow> mc_step env s s' \<Longrightarrow>
      mc_work (nat (o_nrequests (me_opts env))) n s' < mc_work (nat (o_nrequests (me_opts env))) n s" for s s'
    using mc_step_work [OF _ _ refl] by (auto simp: mc_answering_def)
  show "mc_answering env reqs n s \<Longrightarrow> \<nexists>s'. mc_step env s s' \<Longrightarrow> mc_fault s = None \<Longrightarrow> i < n \<Longrightarrow> mc_exited i s" for s i
    using mc_progress [of env reqs n s i] by (auto simp: mc_answering_def mc_exited_def intro: mc_step.thread)
qed (rule mc_exited_step)

section \<open>The image minifying client\<close>

definition vs_exited :: "nat \<Rightarrow> minify_state \<Rightarrow> bool" where
  "vs_exited w s \<longleftrightarrow> vs_pc s w = V_exit"

text \<open>\<open>clnt_destroy\<close> follows its argument; a client that could not be made is null.\<close>

definition destroy_client :: "minify_env \<Rightarrow> nat \<Rightarrow> cfault + unit" where
  "destroy_client env i = (if ve_client env i then Inr () else Inl Null_deref)"

definition minify_process :: "minify_env \<Rightarrow> nat \<Rightarrow> main_at \<times> minify_state \<Rightarrow> main_at \<times> minify_state \<Rightarrow> bool" where
  "minify_process env n = join_step (minify_step env) vs_fault vs_exited (destroy_client env) n"

definition minify_serving :: "minify_env \<Rightarrow> files \<Rightarrow> minify_request list \<Rightarrow> nat \<Rightarrow> minify_state \<Rightarrow> bool" where
  "minify_serving env d0 reqs n s \<longleftrightarrow> requests_ok env n d0 reqs \<and> minify_good env d0 reqs n s"

lemma vs_exited_step:
  assumes "minify_step env s s'" and "vs_exited i s"
  shows "vs_exited i s'"
proof -
  from assms(1) obtain w where m: "minify_move env w s = Some s'" by cases
  then have "w \<noteq> i" using assms(2) by (auto simp: vs_exited_def minify_move_def)
  then have "vs_pc s' i = vs_pc s i"
    using m by (auto simp: minify_move_def vs_set_def vs_crash_def split: minify_pc.splits if_splits sum.splits prod.splits)
  with assms(2) show ?thesis by (simp add: vs_exited_def)
qed

interpretation images: joined_threads "minify_step env" vs_fault vs_exited "destroy_client env" n "minify_serving env d0 reqs n"
  "minify_work n" for env d0 reqs n
proof
  show "minify_serving env d0 reqs n s \<Longrightarrow> minify_step env s s' \<Longrightarrow> minify_serving env d0 reqs n s'" for s s'
    using minify_good_step by (auto simp: minify_serving_def)
  show "minify_serving env d0 reqs n s \<Longrightarrow> minify_step env s s' \<Longrightarrow> minify_work n s' < minify_work n s" for s s'
    using minify_good_step by (auto simp: minify_serving_def)
  show "minify_serving env d0 reqs n s \<Longrightarrow> \<nexists>s'. minify_step env s s' \<Longrightarrow> vs_fault s = None \<Longrightarrow> i < n \<Longrightarrow> vs_exited i s" for s i
    using minify_progress [of reqs n s i env] minify_step.thread [of s env]
    unfolding minify_serving_def minify_good_def vs_exited_def by blast
qed (rule vs_exited_step)

section \<open>Properties\<close>

text \<open>
  C10: The multithreaded download client from its options to its return: \<open>main\<close> fills the
  queue, runs the \<open>n\<close> threads it could create and joins them. No run of threads and \<open>main\<close> is
  longer than a bound, and one that cannot go on has either faulted, or \<open>main\<close> has returned 0
  and exactly the first \<open>n * nrequests\<close> paths have been requested and finished, each once. The
  share of a thread that could not be created is not done by the others.
\<close>

theorem mc_program_ends:
  assumes "mc_options argv = Inr opts" and "read_file (o_workload opts) = Some (path_lines ws)"
    and "\<forall>w \<in> set ws. path_word w \<and> NUL \<notin> set w" and "ws \<noteq> []" and "length ws \<le> 100"
    and "0 \<le> o_nrequests opts" and "0 < o_nthreads opts" and "o_nrequests opts * o_nthreads opts \<le> int_max"
    and "int n \<le> o_nthreads opts" and "me_opts env = opts"
    and "\<forall>job. me_perform env (o_server opts) (o_port opts) job \<noteq> None"
  shows "\<exists>q. mc_setup read_file argv = Inr (opts, q) \<and>
    (\<forall>k m s. (mc_process env n ^^ k) (Joining 0, mc_start n q d) (m, s) \<longrightarrow>
       k \<le> n * (9 * nat (o_nrequests opts) + 9) + n + 2 \<and>
       ((\<nexists>x. mc_process env n (m, s) x) \<longrightarrow> mc_fault s \<noteq> None \<or>
          m = Main_returned 0 \<and> mset (map mj_path (mc_done s)) = mset (round_of ws (n * nat (o_nrequests opts)))))"
proof -
  let ?m = "nat (o_nrequests opts * o_nthreads opts)" and ?R = "nat (o_nrequests opts)"
  obtain q where q: "mc_setup read_file argv = Inr (opts, q)" "steque_inv q" "steque_elems q = map Some (round_of ws ?m)"
    and v: "valid_requests (round_of ws ?m)" and le: "n * ?R \<le> ?m"
    using mc_setup_round [where read_file = read_file, OF assms(1-9)] by blast
  have g0: "mc_answering env (round_of ws ?m) n (mc_start n q d)"
    using v assms(10,11) mc_good_start [OF q(2,3)] by (simp add: mc_answering_def)
  have "k \<le> n * (9 * ?R + 9) + n + 2 \<and> ((\<nexists>x. mc_process env n (m, s) x) \<longrightarrow> mc_fault s \<noteq> None \<or>
          m = Main_returned 0 \<and> mset (map mj_path (mc_done s)) = mset (round_of ws (n * ?R)))"
    if run: "(mc_process env n ^^ k) (Joining 0, mc_start n q d) (m, s)" for k m s
  proof -
    note run = run [unfolded mc_process_def]
    have b: "mc_answering env (round_of ws ?m) n s" "k \<le> mc_work ?R n (mc_start n q d) + Suc n"
      using downloads.main_bound [OF run g0] assms(10) by simp_all
    have "mset (map mj_path (mc_done s)) = mset (round_of ws (n * ?R))" if "\<forall>j < n. mc_exited j s"
    proof (rule mc_round_done [where env = env])
      show "mc_good env (round_of ws ?m) n s" using b(1) by (simp add: mc_answering_def)
      then show "\<forall>w. \<exists>i. mc_pc s w = M_exit i" using that
        by (auto simp: mc_good_def mc_counted_def mc_exited_def not_less [symmetric])
    qed (use assms(10) le in simp_all)
    with downloads.main_ends [OF run g0] have "(\<nexists>x. mc_process env n (m, s) x) \<longrightarrow> mc_fault s \<noteq> None \<or>
          m = Main_returned 0 \<and> mset (map mj_path (mc_done s)) = mset (round_of ws (n * ?R))"
      unfolding mc_process_def by auto
    moreover have "mc_work ?R n (mc_start n q d) = n * (9 * ?R + 9) + 1" by (simp add: mc_work_def mc_start_def steps_left_def)
    ultimately show ?thesis using b(2) by simp
  qed
  with q(1) show ?thesis by blast
qed

theorem mc_program_ends_witness:
  "\<exists>q. mc_setup (\<lambda>_. Some (path_lines [''/a'', ''/b''])) [''-t'', ''2''] = Inr (mc_defaults\<lparr>o_nthreads := 2\<rparr>, q) \<and>
    (\<forall>k m s. (mc_process ((sample_mc False)\<lparr>me_opts := mc_defaults\<lparr>o_nthreads := 2\<rparr>\<rparr>) 2 ^^ k) (Joining 0, mc_start 2 q []) (m, s) \<longrightarrow>
       k \<le> 40 \<and> ((\<nexists>x. mc_process ((sample_mc False)\<lparr>me_opts := mc_defaults\<lparr>o_nthreads := 2\<rparr>\<rparr>) 2 (m, s) x) \<longrightarrow>
         mc_fault s \<noteq> None \<or> m = Main_returned 0 \<and> mset (map mj_path (mc_done s)) = {#''/b'', ''/a''#}))"
proof -
  let ?env = "(sample_mc False)\<lparr>me_opts := mc_defaults\<lparr>o_nthreads := 2\<rparr>\<rparr>"
  have o: "mc_options [''-t'', ''2''] = Inr (mc_defaults\<lparr>o_nthreads := 2\<rparr>)" by code_simp
  have w: "\<forall>w \<in> set [''/a'', ''/b'']. path_word w \<and> NUL \<notin> set w"
    by (simp add: path_word_def WORD_BUF_def is_space_def)
  have r: "round_of [''/a'', ''/b''] 2 = [''/b'', ''/a'']" by code_simp
  have a: "\<forall>job. me_perform ?env (o_server (mc_defaults\<lparr>o_nthreads := 2\<rparr>)) (o_port (mc_defaults\<lparr>o_nthreads := 2\<rparr>)) job \<noteq> None"
    by (simp add: sample_mc_def)
  show ?thesis
    using mc_program_ends [OF o _ w _ _ _ _ _ _ _ a, where read_file = "\<lambda>_. Some (path_lines [''/a'', ''/b''])" and n = 2 and d = "[]"] r
    by (simp add: mc_defaults_def int_max_def)
qed



text \<open>
  When the client of one thread could not be made, for instance because the server cannot
  be reached, the program does not return in any interleaving: the thread or the clean-up
  behind its join follows the null client.
\<close>

lemma minify_null_client:
  assumes "i < n" and "\<not> ve_client env i"
  shows "\<not> (minify_process env n)\<^sup>*\<^sup>* (Joining 0, minify_start n q d) (Main_returned r, s)"
proof
  assume "(minify_process env n)\<^sup>*\<^sup>* (Joining 0, minify_start n q d) (Main_returned r, s)"
  from joins_cleaned [OF this [unfolded minify_process_def]] have "destroy_client env i = Inr ()" using assms(1) by simp
  with assms(2) show False by (simp add: destroy_client_def)
qed

end
