(* ===== verification/MagickTest.thy ===== *)
theory MagickTest
  imports Minify
begin

text \<open>
  The test program \<open>magickminify_test.c\<close>: read an image, hand it to \<open>magickminify\<close> as a blob,
  and write what comes back. Reading and writing images, and the size of the array for a file
  name in ImageMagick's structures, are parameters.
\<close>

section \<open>The program\<close>

record 'i image_files =
  if_read :: "string \<Rightarrow> 'i option"          \<comment> \<open>\<open>ReadImage\<close>\<close>
  if_extent :: nat                        \<comment> \<open>the size of \<open>filename\<close>\<close>

text \<open>The words of the command line end with a null pointer, which \<open>strcpy\<close> follows.\<close>

definition filename_from :: "nat \<Rightarrow> string list \<Rightarrow> nat \<Rightarrow> cfault + string" where
  "filename_from extent argv i =
     (if \<not> i < length argv then Inl Null_deref
      else bindE (assertE Out_of_bounds (length (argv ! i) < extent)) (\<lambda>_. Inr (argv ! i)))"

text \<open>
  \<open>argv\<close> starts with the program's name. A blob that could not be made is null and has length
  0. The result: the name and the image that are written.
\<close>

definition magickminify_test :: "'i magick \<Rightarrow> 'i image_files \<Rightarrow> string list \<Rightarrow> cfault + string \<times> 'i" where
  "magickminify_test m files argv =
     bindE (filename_from (if_extent files) argv 1) (\<lambda>name.
     case if_read files name of
       None \<Rightarrow> Inl (Exit_program 1)
     | Some img \<Rightarrow>
         bindE (mg_encode m (Some img)) (\<lambda>src.
         bindE (magickminify m (case src of None \<Rightarrow> [] | Some b \<Rightarrow> b)) (\<lambda>dst.
         case mg_decode m (case dst of None \<Rightarrow> [] | Some b \<Rightarrow> b) of
           None \<Rightarrow> Inl Null_deref
         | Some resize \<Rightarrow> bindE (filename_from (if_extent files) argv 2) (\<lambda>out. Inr (out, resize)))))"

section \<open>What it writes\<close>

text \<open>With a library that reads back every image it has encoded, the program writes the minified image.\<close>

lemma minify_blob:
  assumes "\<forall>x. \<exists>b. mg_encode m (Some x) = Inr (Some b) \<and> mg_decode m b = Some x"
    and "mg_decode m src = Some img" and "mg_minify m img = Some small"
  shows "\<exists>b. magickminify m src = Inr (Some b) \<and> mg_decode m b = Some small"
  using assms(1) [rule_format, of small] assms(2,3) by (auto simp: magickminify_def)

lemma test_program_writes:
  assumes codec: "\<forall>x. \<exists>b. mg_encode m (Some x) = Inr (Some b) \<and> mg_decode m b = Some x"
    and "if_read files name = Some img" and "mg_minify m img = Some small"
    and "length name < if_extent files" and "length out < if_extent files"
  shows "magickminify_test m files (prog # name # out # rest) = Inr (out, small)"
proof -
  obtain b where b: "mg_encode m (Some img) = Inr (Some b)" "mg_decode m b = Some img" using codec by blast
  with minify_blob [OF codec b(2) assms(3)] assms show ?thesis
    by (auto simp: magickminify_test_def filename_from_def)
qed

text \<open>Without a name for the result the program faults, and only after the work is done.\<close>

lemma test_program_no_output: "magickminify_test m files [prog, name] \<noteq> Inr r"
  by (auto simp: magickminify_test_def filename_from_def split: option.splits elim!: bindE_eq_InrE)

lemma test_program_halver:
  "magickminify_test halver \<lparr>if_read = [''in'' \<mapsto> ''image!''], if_extent = 4096\<rparr> [''test'', ''in'', ''out''] = Inr (''out'', ''ima'')"
  by code_simp

end
