(* ===== verification/Spec2Isabelle.thy ===== *)
theory Spec2Isabelle
  imports Steque Content Gfserver Handler Gfclient Workload Download MtServer ShmPool ShmChannel
    Mains Filetransfer Curl MtClient Minify ShmSegment MtServe Rpc ProxyMains CacheSystem
    LongOptions Joins MagickTest
begin

text \<open>
  The course repository holds four client/server programs and what they share. This
  development models, as HOL functions and step relations, the code of all of them that
  keeps state or takes decisions; system calls, libcurl, the network, the disk, ImageMagick
  and the two libraries the repository has only as object files are parameters.

  PROGRAMS AND THEIR PARTS.
  proj1: an echo pair (client.c, server.c), a file transfer pair (transferfile/), a GETFILE
  client and server on top of two libraries of their own (getfile/), and multithreaded
  versions of both (multithreadgetfile/). proj3: a proxy that serves GETFILE requests from
  the web (handle_with_curl.c, webproxy_curl.c) or through shared memory from a cache daemon
  (handle_with_cache.c, webproxy.c, simplecached.c). proj4: a client that sends images to
  an RPC server to be made smaller (minifyjpeg_main.c, minify_via_rpc.c, minifyjpeg.c,
  magickminify.c, and the stubs minifyjpeg_clnt.c, minifyjpeg_svc.c, minifyjpeg_xdr.c).
  They share steque.c (queues of work), content.c (index of files) and workload.c (list of
  paths).

  THEORIES AND CODE.
  Prelude: faults of C executions, the error monad, 32- and 64-bit integers, blocks.
  CString: strlen, strcpy, strcmp, strtok, atoi, sprintf as they act on blocks.
  Getopt: what the programs use of getopt and getopt_long. LongOptions: the tables of long
  names of the seven programs that have one. Socket: connections, send, recv, requests.
  Steque: steque.c on an explicit heap; the locales task_pool and fifo state what the
  clients of the queue rely on and are interpreted on this code.
  Content: content.c, its loading, sorting, search and destruction.
  Gfserver: getfile/gfserver.c, the parsing of a request, the replies and the accept loop.
  Handler: getfile/handler.c. Mains: getfile/gfserver_main.c as a whole program, and the
  options of the other servers.
  Gfclient: getfile/gfclient.c, one request from connect to the last byte, and the getters.
  Workload: workload.c. Download: getfile/gfclient_download.c.
  MtServer: multithreadgetfile/handler.c and gfserver_main.c, boss and workers as steps on
  the queue. MtServe: the same server from main to the bytes on each connection, a worker
  serving call by call; the locale gfs_library is what it relies on of the server library.
  MtClient: multithreadgetfile/gfclient_download.c, main and workers as steps.
  Echo, Filetransfer: the echo and the transfer programs from options to exit.
  ShmPool: the pool of segments and the message queue between proxy and daemon.
  ShmSegment: creation and destruction of a segment, together with the pool, and the signal
  handler of webproxy.c.
  ShmChannel: the hand-over of one file through a segment, both sides as steps.
  ProxyMains: main of webproxy.c and webproxy_curl.c, up to what the server library is told.
  CacheSystem: main of simplecached.c, and proxy, queue, daemon, pool, segments and transfers
  as one system, started by the two mains, with one handler thread (the default).
  Joins: the ends of the two multithreaded clients, from the first join to the return of
  main; the locale joined_threads is what that needs of the threads, interpreted on both.
  MagickTest: magickminify_test.c.
  Curl: handle_with_curl.c. Minify: the client, its threads and the remote procedure.
  Rpc: the stubs, the filters, the dispatcher and main of the server; the RPC library is
  what the locales xdr_library, rpc_transport and rpc_client say, interpreted on the encoding
  of RFC 4506 and a direct call.
  The theory below composes the GETFILE client with both servers, and the server's accept
  loop with its handler.

  HOW CODE IS RENDERED. A function of the source is a function of its state with a result
  in a sum: Inl is the fault or the exit that ends the process (null pointer, access outside
  a block, use after free, signed overflow, division by zero, reading what nothing wrote),
  Inr the values it returns. Memory an allocator returns, and arrays on the stack, hold
  whatever a function of the theorem's statement says. int is checked against its range,
  size_t is a 64 word and wraps. Threads are step relations with one step for every
  operation on a lock, a condition or a shared object; a thread that waits has no step, so
  a lost wake-up is a state without a step. A loop over what the network answers runs over
  the list of the answers, and a call that waits for ever is a value of its own.

  WHAT THE LEMMAS SHOW.
  Content, Steque: refinement of a finite list and a map (refines_list, roundtrip), no leak.
  Gfserver, Handler, Mains: from the command line to the bytes on every connection; every
  file is sent whole whatever short reads and sends there are.
  Gfclient with either server: the client stores exactly the file, with status OK.
  MtServer, MtClient, Minify: mutual exclusion, conservation of every task in every
  interleaving, no lost wake-up, no deadlock, bounds on the length of every run, and what
  is on the disk at the end.
  MtServe: what every connection gets is the reply of an abstract server that answers each
  accepted request once (a refinement), and every run in which the workers survive ends with
  all of them answered.
  Joins: both clients as whole processes end, with everything downloaded or written, or
  with a fault; the bounds count the steps of the threads and of main.
  LongOptions: every long name does what its letter does, on any command line.
  ShmPool, ShmChannel: exclusive use of segments, the file arrives in order; and the
  interleavings in which a wake-up is lost.
  CacheSystem: every client is answered with the file of its own path or with not found, and
  every reachable state is well typed.
  Rpc: the call through stubs, filters and wire does what the direct call does.
  Echo, Filetransfer, Curl, Minify: what arrives is what was sent, and where a short send, a
  full buffer, a long URL or a long answer breaks it.
  The properties that end in a fault are the flaws of the code; the manifest lists them.

  BOUNDS. Functions whose loop may not end (worker_send, steque_destroy) are partial
  functions in the option type, and their termination is a theorem; all other loops are
  total, by a measure on what is left of a file, of a queue or of the answers. There is no fuel.
  The lengths that occur as hypotheses (256 bytes of path, 4096 of request or URL, 100
  paths, 2^31 of a count, 2^63 of a file) are the sizes of the code's arrays and types.

  NOT MODELLED. The set-up and clean-up of ImageMagick, single calls of it; the opaque
  arguments that are handed through to callbacks; code behind a call that does not return;
  printed messages and usage texts. What is left of src/ is include lines, declarations and
  the copies of steque.c, content.c and workload.c, which are equal to the files modelled. With several handler threads the cache's daemon can mix
  requests (ShmPool has the run), so CacheSystem keeps to one. The random mode of the workload is modelled, but no
  program selects it.
\<close>

section \<open>Client and server together\<close>

lemma same_marks: "CRLF2 = crlf2" "SPACE_CRLF = space_crlf"
  by (simp_all add: CRLF2_def crlf2_def SPACE_CRLF_def space_crlf_def CR_def LF_def)

lemma same_request: "get_request p = request_bytes ''GETFILE'' ''GET'' p"
  by (simp add: get_request_def request_bytes_def same_marks)

lemma same_header: "ok_reply n = ok_header n"
  by (simp add: ok_reply_def ok_header_def same_marks)

text \<open>
  The network brings the client the bytes the server wrote, cut into chunks of at most the
  buffer's size, the first of which reaches to the end of the header. What the client's
  copy of that chunk has behind it is a NUL byte.
\<close>

definition carries :: "network \<Rightarrow> string \<Rightarrow> char list \<Rightarrow> bool" where
  "carries net request bytes \<longleftrightarrow> (\<exists>d0 ds rs h r. answers net request = map Some (d0 # ds) @ rs \<and>
     concat (d0 # ds) = bytes \<and> chunks_ok 4096 (d0 # ds) \<and> d0 = h @ CRLF2 @ r \<and>
     net_junk net 1 (length d0) = NUL)"

lemma header_line_feeds: "count_list (take k (ok_reply n)) LF \<ge> 2 \<Longrightarrow> length (ok_reply n) \<le> k"
proof (rule ccontr)
  assume a: "2 \<le> count_list (take k (ok_reply n)) LF" and "\<not> length (ok_reply n) \<le> k"
  then have k: "k \<le> length (show_nat n) + 14" by (simp add: length_ok_reply)
  have lf: "LF \<notin> set (show_nat n)" using show_nat_digits [of n] digit_neq(7) by (auto simp: LF_def)
  have "take k (ok_reply n) = take k ((''GETFILE OK '' @ show_nat n @ [CR, LF, CR]) @ [LF])"
    by (simp add: ok_reply_def CRLF2_def CR_def LF_def)
  also have "\<dots> = take k (''GETFILE OK '' @ show_nat n @ [CR, LF, CR])" using k by (simp only: take_append) simp
  finally have "count_list (take k (ok_reply n)) LF \<le> count_list (''GETFILE OK '' @ show_nat n @ [CR, LF, CR]) LF"
    by (metis append_take_drop_id count_list_append le_add1)
  also have "\<dots> = 1" using lf by (simp add: CR_def LF_def)
  finally show False using a by simp
qed

lemma carries_chunks:
  assumes "carries net request (ok_reply (length f) @ f)" and "length f < 2 ^ 63"
  obtains c0 ds rs where "answers net request = Some (ok_reply (length f) @ c0) # map Some ds @ rs"
    and "reply_chunks net (length f) c0 ds" and "f = c0 @ concat ds"
proof -
  let ?h = "ok_reply (length f)"
  obtain d0 ds rs h r where a: "answers net request = map Some (d0 # ds) @ rs" "concat (d0 # ds) = ?h @ f"
    "chunks_ok 4096 (d0 # ds)" "d0 = h @ CRLF2 @ r" "net_junk net 1 (length d0) = NUL"
    using assms(1) unfolding carries_def by blast
  have "length ?h \<le> length d0"
  proof (rule ccontr)
    assume s: "\<not> length ?h \<le> length d0"
    have "d0 = take (length d0) (d0 @ concat ds)" by simp
    also have "\<dots> = take (length d0) ?h" using a(2) s by simp
    finally have "count_list (take (length d0) ?h) LF = count_list d0 LF" by simp
    moreover have "2 \<le> count_list d0 LF" by (simp add: a(4) CRLF2_def LF_def)
    ultimately show False using header_line_feeds [of "length d0" "length f"] s by simp
  qed
  moreover have "d0 @ concat ds = ?h @ f" using a(2) by simp
  ultimately obtain c0 where c0: "d0 = ?h @ c0" "f = c0 @ concat ds"
    by (metis (no_types, lifting) append_eq_append_conv_if append_eq_conv_conj)
  have "reply_chunks net (length f) c0 ds"
    using a(3,5) c0 assms(2) by (simp add: reply_chunks_def chunks_ok_def)
  with a(1) c0 that show thesis by simp
qed

text \<open>What the client makes of a whole reply, however it is cut.\<close>

lemma client_gets_file:
  assumes "reachable net gfr" and "Gfclient.path gfr = k" and "length d < 2 ^ 63"
    and "carries net (request_bytes ''GETFILE'' ''GET'' k) (ok_header (length d) @ d)"
  shows "\<exists>ws. gfc_perform net gfr = Inr (Returned 0 None (map Write_cb ws)) \<and> concat ws = d"
proof -
  have "carries net (get_request k) (ok_reply (length d) @ d)" using assms(4) by (simp add: same_request same_header)
  then obtain c0 ds rs where "answers net (get_request k) = Some (ok_reply (length d) @ c0) # map Some ds @ rs"
    "reply_chunks net (length d) c0 ds" "d = c0 @ concat ds" using assms(3) by (rule carries_chunks)
  then show ?thesis using perform_complete [OF assms(1)] assms(2) by (intro exI [of _ "c0 # ds"]) auto
qed



text \<open>
  C28: Sixteen bytes from a client stop the server: a request that ends after the method
  reaches the handler with a null path, and the search in a non-empty index follows it. No
  later connection is served.
\<close>

theorem no_path_request_crashes_server:
  assumes "content_ok (st_content st)" and "entries (st_content st) \<noteq> []"
    and "request_env_for e b no_path_request"
  shows "accept_loop (handler_get junk) b st (Some e # rest) = Inl Null_deref"
proof -
  obtain its where "items (st_content st) = Some its" "nitems (st_content st) = int (length its)"
    "entries (st_content st) = map entry_of its"
    using entries_ok [OF assms(1)] by blast
  then have "handler_get junk st (rq_conn e) None = Inl Null_deref"
    using content_get_null [of "st_content st" its] assms(2) by (simp add: handler_get_def)
  moreover obtain b' where "serve_request (handler_get junk) b st e =
      bindE (call_handler (handler_get junk) (rq_junk e 1) st (rq_conn e) None) (\<lambda>(c, w'). Inr (b', c, w'))"
    using serve_request_no_path [OF assms(3), of "handler_get junk" st] by blast
  ultimately show ?thesis by (simp add: call_handler_def)
qed

lemma sample_asks: "asks_for (sample_env (request_bytes ''GETFILE'' ''GET'' ''/a.txt'')) ''/a.txt''"
  by (auto simp: asks_for_def sample_env_def token_ok_def space_crlf_def CR_def LF_def BUFSIZE_def)

lemma zero_buffer_clear: "clear_from 0 zero_buffer"
  by (simp add: clear_from_def zero_buffer_def)

lemma sample_carries:
  "carries (sample_net [Some (ok_reply 5 @ ''he''), Some ''llo'']) (request_bytes ''GETFILE'' ''GET'' ''/a.txt'') (ok_header 5 @ ''hello'')"
proof -
  have lh: "length (ok_reply 5) = 16" by (simp add: length_ok_reply length_show_small)
  show ?thesis
    unfolding carries_def
    by (intro exI [of _ "ok_reply 5 @ ''he''"] exI [of _ "[''llo'']"] exI [of _ "[]"]
        exI [of _ "''GETFILE OK '' @ show_nat 5"] exI [of _ "''he''"])
      (simp add: sample_answers sample_junk chunks_ok_def lh same_header [symmetric] ok_reply_def [symmetric],
        simp add: ok_reply_def)
qed

lemma sample_request_path: "Gfclient.path sample_request = ''/a.txt''"
  by (simp add: sample_request_def gfc_set_writefunc_def gfc_set_path_def)



theorem no_path_request_crashes_server_witness:
  "accept_loop (handler_get (\<lambda>_. NUL)) zero_buffer sample_store
     [Some (sample_env no_path_request), Some (sample_env (get_request ''/a.txt''))] = Inl Null_deref"
proof -
  have c: "content_ok (st_content sample_store)" using sample_store_ok by (simp add: store_ok_def)
  have n: "entries (st_content sample_store) \<noteq> []" by (simp add: sample_store_entries)
  have e: "request_env_for (sample_env no_path_request) zero_buffer no_path_request"
    by (rule sample_env_for) (simp add: no_path_request_def)
  show ?thesis by (rule no_path_request_crashes_server [OF c n e])
qed

end
